(* ===== verification/Httpd_Prelude.thy ===== *)
theory Httpd_Prelude
  imports Main "HOL-Library.Word" "HOL-Library.Sublist" "HOL-Library.Monad_Syntax"
begin

text \<open>
  Shared vocabulary of the development: the machine integers of the C sources
  (\<open>size_t\<close> as \<open>nat\<close> reduced modulo \<open>2 ^ 64\<close>), fixed-size byte arrays, the part of
  \<^verbatim>\<open>string.h\<close> and \<^verbatim>\<open>stdio.h\<close> the server uses (NUL-terminated strings, case-insensitive
  comparison, substring search, decimal output), a generic reachability interface for
  the components that are state machines, and the lemma collections the component
  theories extend.
\<close>

named_theorems httpd_wf \<open>facts that take a well-formedness invariant apart\<close>
named_theorems httpd_frame \<open>fields an operation leaves alone\<close>

unbundle bit_operations_syntax

section \<open>Machine integers\<close>

text \<open>
  \<open>size_t\<close> and \<open>unsigned long long\<close> are 64-bit, \<open>unsigned\<close> is 32-bit. Counters are
  \<open>nat\<close> values below the modulus, and every operation that can wrap says so.
\<close>

abbreviation U64 :: nat where "U64 \<equiv> 18446744073709551616"
abbreviation U32 :: nat where "U32 \<equiv> 4294967296"
abbreviation SIZE_MAX :: nat where "SIZE_MAX \<equiv> 18446744073709551615"

definition u64 :: "nat \<Rightarrow> nat" where
  "u64 n = n mod U64"

definition u32 :: "nat \<Rightarrow> nat" where
  "u32 n = n mod U32"

text \<open>Unsigned subtraction wraps: \<open>a - b\<close> is \<open>a + (2 ^ 64 - b)\<close> modulo \<open>2 ^ 64\<close>.\<close>

definition u64_sub :: "nat \<Rightarrow> nat \<Rightarrow> nat" where
  "u64_sub a b = (a + (U64 - b mod U64)) mod U64"

lemma u64_small [simp]: "n < U64 \<Longrightarrow> u64 n = n"
  by (simp add: u64_def)

lemma u64_bound [simp]: "u64 n < U64"
  by (simp add: u64_def)

lemma u32_small [simp]: "n < U32 \<Longrightarrow> u32 n = n"
  by (simp add: u32_def)

lemma u64_sub_ge: "b \<le> a \<Longrightarrow> a < U64 \<Longrightarrow> u64_sub a b = a - b"
proof -
  assume le: "b \<le> a" and lt: "a < U64"
  then have "a + (U64 - b mod U64) = (a - b) + U64" by simp
  with lt show ?thesis by (simp add: u64_sub_def)
qed

text \<open>Adding and subtracting modulo \<open>2 ^ 64\<close> cancel, whatever wrapped on the way.\<close>

lemma u64_sub_add_mod: "u64_sub (u64 (s + b)) b = u64 s"
proof -
  define r where "r = b mod U64"
  have b: "b = r + (b div U64) * U64" and r: "r < U64"
    by (simp_all add: r_def)
  have "(u64 (s + b) + (U64 - r)) mod U64 = ((s + b) + (U64 - r)) mod U64"
    unfolding u64_def by (rule mod_add_left_eq)
  also have "s + b + (U64 - r) = s + Suc (b div U64) * U64"
    using r by (subst b) simp
  also have "(s + Suc (b div U64) * U64) mod U64 = s mod U64"
    by (rule mod_mult_self1)
  finally show ?thesis by (simp add: u64_sub_def u64_def r_def)
qed

lemma u64_add_mod: "u64 (u64 s + b) = u64 (s + b)"
  by (simp add: u64_def mod_add_left_eq)

lemma u64_add_mod_right: "u64 (b + u64 s) = u64 (b + s)"
  by (simp add: u64_def mod_add_right_eq)

text \<open>\<open>x & (2^k - 1)\<close> is the remainder modulo \<open>2^k\<close>.\<close>

lemma and_mask_mod: "(x::nat) AND (2 ^ k - 1) = x mod 2 ^ k"
  by (simp add: take_bit_eq_mask mask_eq_exp_minus_1 flip: take_bit_eq_mod)

section \<open>Lists and options\<close>

lemma option_eqI_Some: "(\<And>w. a = Some w \<longleftrightarrow> b = Some w) \<Longrightarrow> a = b"
  by (cases b) (auto intro: option.exhaust)

lemma length_filter_update:
  "i < length xs \<Longrightarrow>
     length (filter P (xs[i := y])) + (if P (xs ! i) then 1 else 0) =
     length (filter P xs) + (if P y then 1 else 0)"
  by (induction xs arbitrary: i) (auto split: nat.splits simp: nth_Cons' list_update_code(2, 3)
        elim: less_SucE; force simp: less_Suc_eq_0_disj)+

lemma length_filter_less_ex:
  assumes "length (filter P xs) < length xs"
  shows "\<exists>i < length xs. \<not> P (xs ! i)"
proof (rule ccontr)
  assume "\<not> ?thesis"
  then have "filter P xs = xs" by (auto simp: filter_id_conv in_set_conv_nth)
  with assms show False by simp
qed

section \<open>Byte arrays and C strings\<close>

text \<open>
  A C array \<open>char a[N]\<close> is a function from indices to bytes together with its bound
  \<open>N\<close>, which every write names: a write at an index that is not below the bound is
  undefined behaviour and has the value \<open>None\<close>.
\<close>

type_synonym carray = "nat \<Rightarrow> char"

definition NUL :: char where
  "NUL = CHR 0x00"

definition zeros :: carray where
  "zeros = (\<lambda>_. NUL)"

definition array_set :: "nat \<Rightarrow> carray \<Rightarrow> nat \<Rightarrow> char \<Rightarrow> carray option" where
  "array_set n a i c = (if i < n then Some (a(i := c)) else None)"

text \<open>The string that starts at index \<open>i\<close>: the bytes before the first NUL.\<close>

fun array_str :: "nat \<Rightarrow> carray \<Rightarrow> nat \<Rightarrow> string" where
  "array_str 0 a i = []"
| "array_str (Suc n) a i = (if a i = NUL then [] else a i # array_str n a (Suc i))"

definition cstr :: "string \<Rightarrow> string" where
  "cstr s = takeWhile (\<lambda>c. c \<noteq> NUL) s"

lemma array_str_takeWhile: "array_str n a i = takeWhile (\<lambda>c. c \<noteq> NUL) (map a [i..<i + n])"
proof (induction n arbitrary: i)
  case 0
  show ?case by simp
next
  case (Suc n)
  have "[i..<i + Suc n] = i # [Suc i..<Suc i + n]"
    by (subst upt_conv_Cons) simp_all
  with Suc show ?case by simp
qed

lemma cstr_no_NUL [simp]: "NUL \<notin> set (cstr s)"
  unfolding cstr_def by (auto dest: set_takeWhileD)

lemma cstr_id [simp]: "NUL \<notin> set s \<Longrightarrow> cstr s = s"
  unfolding cstr_def by (auto simp: takeWhile_eq_all_conv)

lemma cstr_cstr [simp]: "cstr (cstr s) = cstr s"
  by simp

text \<open>A terminated prefix is exactly the string that is read back.\<close>

lemma array_str_terminated:
  assumes pre: "map a [0..<k] = s" and nul: "a k = NUL" and lt: "k < n"
  shows "array_str n a 0 = cstr s"
proof -
  have "[0..<n] = [0..<k] @ k # [Suc k..<n]"
    using lt upt_add_eq_append [of 0 k "n - k"] upt_conv_Cons [of k n] by simp
  then have "map a [0..<n] = s @ NUL # map a [Suc k..<n]"
    using pre nul by simp
  moreover have "takeWhile (\<lambda>c. c \<noteq> NUL) (s @ NUL # t) = takeWhile (\<lambda>c. c \<noteq> NUL) s" for t
    by (induction s) auto
  ultimately show ?thesis
    by (simp add: array_str_takeWhile cstr_def)
qed

lemma map_upd_snoc:
  "map a [0..<k] = s \<Longrightarrow> map (a(k := c)) [0..<Suc k] = s @ [c]"
  by auto

lemma map_upd_beyond [simp]: "k \<le> i \<Longrightarrow> map (a(i := c)) [0..<k] = map a [0..<k]"
  by auto

section \<open>String functions of the C library\<close>

text \<open>\<open>tolower\<close> in the C locale.\<close>

definition tolower :: "char \<Rightarrow> char" where
  "tolower c = (if 65 \<le> (of_char c :: nat) \<and> (of_char c :: nat) \<le> 90
                then char_of ((of_char c :: nat) + 32) else c)"

text \<open>\<open>strncasecmp(a, b, n) == 0\<close>, on the strings \<open>a\<close> and \<open>b\<close> point to.\<close>

definition strncaseeq :: "nat \<Rightarrow> string \<Rightarrow> string \<Rightarrow> bool" where
  "strncaseeq n a b \<longleftrightarrow> map tolower (take n (cstr a)) = map tolower (take n (cstr b))"

text \<open>\<open>strstr(hay, needle) != NULL\<close>.\<close>

fun str_contains :: "string \<Rightarrow> string \<Rightarrow> bool" where
  "str_contains needle [] = (needle = [])"
| "str_contains needle (c # cs) =
     (prefix needle (c # cs) \<or> str_contains needle cs)"

definition strcasestr :: "string \<Rightarrow> string \<Rightarrow> bool" where
  "strcasestr hay needle = str_contains (map tolower needle) (map tolower (cstr hay))"

lemma str_contains_sublist: "str_contains needle hay \<longleftrightarrow> sublist needle hay"
proof (induction hay)
  case Nil
  show ?case by simp
next
  case (Cons c cs)
  then show ?case by (simp add: sublist_Cons_right)
qed

text \<open>\<open>strrchr(s, c)\<close>: the suffix that starts at the last occurrence of \<open>c\<close>.\<close>

fun strrchr :: "string \<Rightarrow> char \<Rightarrow> string option" where
  "strrchr [] c = None"
| "strrchr (x # xs) c =
     (case strrchr xs c of Some r \<Rightarrow> Some r | None \<Rightarrow> if x = c then Some (x # xs) else None)"

lemma strrchr_None: "strrchr s c = None \<longleftrightarrow> c \<notin> set s"
  by (induction s) (auto split: option.splits)

lemma strrchr_last: "c \<notin> set q \<Longrightarrow> strrchr (p @ c # q) c = Some (c # q)"
proof (induction p)
  case Nil
  then show ?case by (simp add: strrchr_None [THEN iffD2])
next
  case (Cons x p)
  then show ?case by simp
qed

text \<open>\<open>%d\<close> of a non-negative value and \<open>%zu\<close>.\<close>

definition digit_char :: "nat \<Rightarrow> char" where
  "digit_char d = char_of (48 + d)"

fun show_nat :: "nat \<Rightarrow> string" where
  "show_nat n = (if n < 10 then [digit_char n]
                 else show_nat (n div 10) @ [digit_char (n mod 10)])"

declare show_nat.simps [simp del]

definition show_int :: "int \<Rightarrow> string" where
  "show_int i = (if i < 0 then CHR ''-'' # show_nat (nat (- i)) else show_nat (nat i))"

lemma show_nat_length: "0 < k \<Longrightarrow> n < 10 ^ k \<Longrightarrow> length (show_nat n) \<le> k"
proof (induction n arbitrary: k rule: show_nat.induct)
  case (1 n)
  show ?case
  proof (cases "n < 10")
    case True
    with "1.prems" show ?thesis by (subst show_nat.simps) simp
  next
    case False
    with "1.prems" have k: "1 < k"
      by (cases k) (auto simp: less_Suc_eq)
    then have "n div 10 < 10 ^ (k - 1)"
      using "1.prems"(2) by (cases k) (auto simp: div_less_iff_less_mult)
    with "1.IH" False k have "length (show_nat (n div 10)) \<le> k - 1" by simp
    with False k show ?thesis by (subst show_nat.simps) simp
  qed
qed

section \<open>State machines\<close>

text \<open>
  The components that react to calls from outside are transition systems. This interface
  fixes their initial states, their steps and an invariant, and gives the consequence the
  components use: the invariant holds in every state a run can reach.
\<close>

inductive reachable :: "('s \<Rightarrow> bool) \<Rightarrow> ('s \<Rightarrow> 's \<Rightarrow> bool) \<Rightarrow> 's \<Rightarrow> bool"
  for init :: "'s \<Rightarrow> bool" and step :: "'s \<Rightarrow> 's \<Rightarrow> bool" where
  start: "init s \<Longrightarrow> reachable init step s"
| step: "reachable init step s \<Longrightarrow> step s t \<Longrightarrow> reachable init step t"

lemma reachable_steps: "step\<^sup>*\<^sup>* s t \<Longrightarrow> reachable init step s \<Longrightarrow> reachable init step t"
  by (induction rule: rtranclp_induct) (auto intro: reachable.intros)

locale invariant_system =
  fixes init :: "'s \<Rightarrow> bool" and step :: "'s \<Rightarrow> 's \<Rightarrow> bool" and inv :: "'s \<Rightarrow> bool"
  assumes inv_init: "init s \<Longrightarrow> inv s"
    and inv_step: "inv s \<Longrightarrow> step s t \<Longrightarrow> inv t"
begin

lemma reachable_inv: "reachable init step s \<Longrightarrow> inv s"
  by (induction rule: reachable.induct) (auto intro: inv_init inv_step)

lemma steps_inv: "step\<^sup>*\<^sup>* s t \<Longrightarrow> inv s \<Longrightarrow> inv t"
  by (induction rule: rtranclp_induct) (auto intro: inv_step)

end

end
