(* ===== verification/Hash_Table.thy ===== *)
theory Hash_Table
  imports Httpd_Prelude
begin

text \<open>
  \<^verbatim>\<open>src/src/hash_table.c\<close>: the open-addressing hash table with linear probing,
  tombstones and growth by rehashing. The slot array is a list, \<open>NULL\<close> keys and values
  are \<open>None\<close>, the caller's hash and equality callbacks are fields of the table as in the
  C struct. Allocation takes its outcome as an argument; the loop that rounds a capacity up
  to a power of two is partial, since it does not end for every argument.
\<close>

section \<open>Data\<close>

datatype ht_slot_state = HT_EMPTY | HT_USED | HT_TOMBSTONE

record ('k, 'v) ht_slot =
  slot_key :: "'k option"
  slot_value :: "'v option"
  slot_state :: ht_slot_state

record ('k, 'v) hash_table =
  slots :: "('k, 'v) ht_slot list"
  capacity :: nat
  count :: nat
  tombstones :: nat
  hash_fn :: "'k \<Rightarrow> 64 word"
  eq_fn :: "'k \<Rightarrow> 'k \<Rightarrow> bool"

abbreviation HT_DEFAULT_CAPACITY :: nat where "HT_DEFAULT_CAPACITY \<equiv> 16"
abbreviation HT_MAX_LOAD_NUMER :: nat where "HT_MAX_LOAD_NUMER \<equiv> 7"
abbreviation HT_MAX_LOAD_DENOM :: nat where "HT_MAX_LOAD_DENOM \<equiv> 10"

text \<open>A zeroed slot, and \<open>calloc(n, sizeof(struct ht_slot))\<close>: it fails when the product
  overflows (a slot has 24 bytes) or when the allocator has no memory (\<open>ok\<close> is false).\<close>

definition empty_slot :: "('k, 'v) ht_slot" where
  "empty_slot = \<lparr>slot_key = None, slot_value = None, slot_state = HT_EMPTY\<rparr>"

definition calloc_slots :: "bool \<Rightarrow> nat \<Rightarrow> ('k, 'v) ht_slot list option" where
  "calloc_slots ok n = (if ok \<and> n * 24 < U64 then Some (replicate n empty_slot) else None)"

section \<open>Operations\<close>

partial_function (option) next_power_loop :: "nat \<Rightarrow> nat \<Rightarrow> nat option" where
  "next_power_loop p n = (if p < n then next_power_loop (u64 (p * 2)) n else Some p)"

definition next_power_of_two :: "nat \<Rightarrow> nat option" where
  "next_power_of_two n = next_power_loop HT_DEFAULT_CAPACITY n"

text \<open>A live slot whose key the caller's equality accepts.\<close>

definition slot_holds :: "('k \<Rightarrow> 'k \<Rightarrow> bool) \<Rightarrow> ('k, 'v) ht_slot \<Rightarrow> 'k \<Rightarrow> bool" where
  "slot_holds eq s k \<longleftrightarrow> slot_state s = HT_USED \<and>
     (case slot_key s of Some k' \<Rightarrow> eq k' k | None \<Rightarrow> False)"

definition store_new :: "('k, 'v) hash_table \<Rightarrow> nat \<Rightarrow> 'k \<Rightarrow> 'v option \<Rightarrow> ('k, 'v) hash_table" where
  "store_new ht pos key value =
     ht\<lparr>slots := (slots ht)[pos := \<lparr>slot_key = Some key, slot_value = value, slot_state = HT_USED\<rparr>],
        count := u64 (count ht + 1)\<rparr>"

definition overwrite :: "('k, 'v) hash_table \<Rightarrow> nat \<Rightarrow> 'v option \<Rightarrow> ('k, 'v) hash_table" where
  "overwrite ht i value = ht\<lparr>slots := (slots ht)[i := (slots ht ! i)\<lparr>slot_value := value\<rparr>]\<rparr>"

text \<open>The probe loop of \<open>insert_no_resize\<close>; the last argument counts the iterations left.\<close>

fun insert_loop ::
  "('k, 'v) hash_table \<Rightarrow> 'k \<Rightarrow> 'v option \<Rightarrow> nat \<Rightarrow> nat \<Rightarrow> nat \<Rightarrow> nat \<Rightarrow> ('k, 'v) hash_table \<times> bool"
where
  "insert_loop ht key value msk i first_tomb 0 = (ht, False)"
| "insert_loop ht key value msk i first_tomb (Suc m) =
     (let state = slot_state (slots ht ! i) in
      if state = HT_EMPTY then
        (store_new ht (if first_tomb \<noteq> SIZE_MAX then first_tomb else i) key value, True)
      else if state = HT_TOMBSTONE then
        insert_loop ht key value msk ((i + 1) AND msk)
          (if first_tomb = SIZE_MAX then i else first_tomb) m
      else if slot_holds (eq_fn ht) (slots ht ! i) key then
        (overwrite ht i value, True)
      else insert_loop ht key value msk ((i + 1) AND msk) first_tomb m)"

definition insert_no_resize ::
  "('k, 'v) hash_table \<Rightarrow> 'k \<Rightarrow> 'v option \<Rightarrow> ('k, 'v) hash_table \<times> bool"
where
  "insert_no_resize ht key value =
     (let msk = capacity ht - 1 in
      insert_loop ht key value msk (unat (hash_fn ht key) AND msk) SIZE_MAX (capacity ht))"

fun rehash :: "('k, 'v) hash_table \<Rightarrow> ('k, 'v) ht_slot list \<Rightarrow> ('k, 'v) hash_table" where
  "rehash ht [] = ht"
| "rehash ht (s # ss) =
     (case slot_key s of
        Some k \<Rightarrow> if slot_state s = HT_USED
                  then rehash (fst (insert_no_resize ht k (slot_value s))) ss
                  else rehash ht ss
      | None \<Rightarrow> rehash ht ss)"

definition resize :: "bool \<Rightarrow> ('k, 'v) hash_table \<Rightarrow> nat \<Rightarrow> ('k, 'v) hash_table \<times> bool" where
  "resize ok ht new_capacity =
     (case calloc_slots ok new_capacity of
        None \<Rightarrow> (ht, False)
      | Some new_slots \<Rightarrow>
          (rehash (ht\<lparr>slots := new_slots, capacity := new_capacity, count := 0, tombstones := 0\<rparr>)
             (take (capacity ht) (slots ht)), True))"

fun find_loop :: "('k, 'v) hash_table \<Rightarrow> 'k \<Rightarrow> nat \<Rightarrow> nat \<Rightarrow> nat \<Rightarrow> nat" where
  "find_loop ht key msk i 0 = SIZE_MAX"
| "find_loop ht key msk i (Suc m) =
     (if slot_state (slots ht ! i) = HT_EMPTY then SIZE_MAX
      else if slot_holds (eq_fn ht) (slots ht ! i) key then i
      else find_loop ht key msk ((i + 1) AND msk) m)"

definition find_key :: "('k, 'v) hash_table \<Rightarrow> 'k \<Rightarrow> nat" where
  "find_key ht key =
     (let msk = capacity ht - 1 in
      find_loop ht key msk (unat (hash_fn ht key) AND msk) (capacity ht))"

text \<open>
  \<open>ht_init\<close> on a pointer that may be \<open>NULL\<close> (\<open>ht\<close> false) and on callbacks that may be
  \<open>NULL\<close>. The outer \<open>None\<close> is a call that does not return, the inner one the result false.
\<close>

definition ht_init ::
  "bool \<Rightarrow> bool \<Rightarrow> nat \<Rightarrow> ('k \<Rightarrow> 64 word) option \<Rightarrow> ('k \<Rightarrow> 'k \<Rightarrow> bool) option
     \<Rightarrow> ('k, 'v) hash_table option option"
where
  "ht_init ok ht cap hash eq =
     (if \<not> ht then Some None
      else case (hash, eq) of
        (Some h, Some e) \<Rightarrow>
          do {
            c \<leftarrow> next_power_of_two cap;
            Some (map_option
              (\<lambda>s. \<lparr>slots = s, capacity = c, count = 0, tombstones = 0, hash_fn = h, eq_fn = e\<rparr>)
              (calloc_slots ok c))
          }
      | _ \<Rightarrow> Some None)"

definition ht_create ::
  "bool \<Rightarrow> bool \<Rightarrow> nat \<Rightarrow> ('k \<Rightarrow> 64 word) option \<Rightarrow> ('k \<Rightarrow> 'k \<Rightarrow> bool) option
     \<Rightarrow> ('k, 'v) hash_table option option"
where
  "ht_create malloc_ok ok cap hash eq =
     (if \<not> malloc_ok then Some None else ht_init ok True cap hash eq)"

definition ht_destroy :: "('k, 'v) hash_table \<Rightarrow> ('k, 'v) hash_table" where
  "ht_destroy ht = ht\<lparr>slots := [], capacity := 0, count := 0, tombstones := 0\<rparr>"

definition ht_insert ::
  "bool \<Rightarrow> ('k, 'v) hash_table \<Rightarrow> 'k \<Rightarrow> 'v option \<Rightarrow> ('k, 'v) hash_table \<times> bool"
where
  "ht_insert ok ht key value =
     (if u64 (u64 (count ht + tombstones ht + 1) * HT_MAX_LOAD_DENOM) >
         u64 (capacity ht * HT_MAX_LOAD_NUMER)
      then case resize ok ht (u64 (capacity ht * 2)) of
             (ht', True) \<Rightarrow> insert_no_resize ht' key value
           | (ht', False) \<Rightarrow> (ht', False)
      else insert_no_resize ht key value)"

definition ht_lookup :: "('k, 'v) hash_table \<Rightarrow> 'k \<Rightarrow> 'v option" where
  "ht_lookup ht key =
     (let i = find_key ht key in if i = SIZE_MAX then None else slot_value (slots ht ! i))"

definition ht_contains :: "('k, 'v) hash_table \<Rightarrow> 'k \<Rightarrow> bool" where
  "ht_contains ht key \<longleftrightarrow> find_key ht key \<noteq> SIZE_MAX"

definition ht_remove :: "('k, 'v) hash_table \<Rightarrow> 'k \<Rightarrow> ('k, 'v) hash_table \<times> bool" where
  "ht_remove ht key =
     (let i = find_key ht key in
      if i = SIZE_MAX then (ht, False)
      else (ht\<lparr>slots := (slots ht)[i := \<lparr>slot_key = None, slot_value = None, slot_state = HT_TOMBSTONE\<rparr>],
               count := u64_sub (count ht) 1,
               tombstones := u64 (tombstones ht + 1)\<rparr>, True))"

definition ht_size :: "('k, 'v) hash_table \<Rightarrow> nat" where
  "ht_size ht = count ht"

definition ht_capacity :: "('k, 'v) hash_table \<Rightarrow> nat" where
  "ht_capacity ht = capacity ht"

section \<open>Capacities\<close>

lemma next_power_loop_pow:
  assumes "k < 64" "n \<le> 2 ^ 63"
  shows "\<exists>j \<ge> k. next_power_loop (2 ^ k) n = Some (2 ^ j) \<and> n \<le> 2 ^ j \<and> (j = k \<or> 2 ^ (j - 1) < n)"
  using assms
proof (induction "63 - k" arbitrary: k)
  case 0
  then have "k = 63" by simp
  with 0 show ?case
    by (intro exI [of _ 63]) (simp add: next_power_loop.simps [of 9223372036854775808])
next
  case (Suc d)
  show ?case
  proof (cases "2 ^ k < n")
    case True
    have "(2::nat) ^ Suc k < 2 ^ 64"
      using Suc.hyps(2) by (intro power_strict_increasing) auto
    then have dbl: "u64 (2 ^ k * 2) = 2 ^ Suc k" by simp
    have "\<exists>j \<ge> Suc k. next_power_loop (2 ^ Suc k) n = Some (2 ^ j) \<and> n \<le> 2 ^ j
        \<and> (j = Suc k \<or> 2 ^ (j - 1) < n)"
      using Suc by (intro Suc.hyps(1)) auto
    then obtain j where "Suc k \<le> j" "next_power_loop (2 ^ Suc k) n = Some (2 ^ j)" "n \<le> 2 ^ j"
      "j = Suc k \<or> 2 ^ (j - 1) < n" by blast
    with True dbl show ?thesis
      by (intro exI [of _ j]) (auto simp: next_power_loop.simps [of "2 ^ k"])
  next
    case False
    then show ?thesis by (intro exI [of _ k]) (simp add: next_power_loop.simps [of "2 ^ k"])
  qed
qed

text \<open>The values the loop variable takes: powers of two below \<open>2 ^ 64\<close>, then zero.\<close>

definition pow2_or_0 :: "nat \<Rightarrow> bool" where
  "pow2_or_0 p \<longleftrightarrow> p = 0 \<or> (\<exists>k < 64. p = 2 ^ k)"

lemma pow2_or_0_double:
  assumes "pow2_or_0 p"
  shows "pow2_or_0 (u64 (p * 2))"
proof -
  have "pow2_or_0 (u64 (2 ^ k * 2))" if k: "k < 64" for k :: nat
  proof (cases "k = 63")
    case True
    then show ?thesis by (simp add: u64_def pow2_or_0_def)
  next
    case False
    with k have "Suc k < 64" by simp
    moreover from this have "(2::nat) ^ Suc k < 2 ^ 64" by (intro power_strict_increasing) auto
    ultimately show ?thesis unfolding pow2_or_0_def by (intro disjI2 exI [of _ "Suc k"]) simp
  qed
  with assms show ?thesis by (auto simp: pow2_or_0_def)
qed

lemma next_power_loop_result:
  assumes ret: "next_power_loop p n = Some r"
  shows "pow2_or_0 p \<longrightarrow> n \<le> r \<and> pow2_or_0 r"
proof (rule next_power_loop.raw_induct
    [where P = "\<lambda>p n r. pow2_or_0 p \<longrightarrow> n \<le> r \<and> pow2_or_0 r", OF _ ret])
  fix f :: "nat \<Rightarrow> nat \<Rightarrow> nat option" and p n r
  assume IH: "\<And>p n r. f p n = Some r \<Longrightarrow> pow2_or_0 p \<longrightarrow> n \<le> r \<and> pow2_or_0 r"
    and eq: "(if p < n then f (u64 (p * 2)) n else Some p) = Some r"
  show "pow2_or_0 p \<longrightarrow> n \<le> r \<and> pow2_or_0 r"
    using IH [of "u64 (p * 2)" n r] eq pow2_or_0_double [of p] by (auto split: if_splits)
qed

lemma pow2_le_half:
  assumes "pow2_or_0 r"
  shows "r \<le> 2 ^ 63"
  using assms unfolding pow2_or_0_def
proof
  assume "\<exists>k < 64. r = 2 ^ k"
  then obtain k where "k \<le> 63" "r = 2 ^ k" by auto
  then show ?thesis using power_increasing [of k 63 "2::nat"] by simp
qed simp

text \<open>C33. Rounding up a capacity returns the least power of two that is at least 16 and at
  least the request, exactly when the request is at most \<open>2 ^ 63\<close>; above that the shift
  loses the top bit, the loop variable becomes zero and the call never returns.\<close>

theorem next_power_of_two_spec:
  "(n \<le> 2 ^ 63 \<longrightarrow> (\<exists>k \<ge> 4. next_power_of_two n = Some (2 ^ k) \<and> n \<le> 2 ^ k \<and>
       (k = 4 \<or> 2 ^ (k - 1) < n))) \<and>
   (2 ^ 63 < n \<longrightarrow> next_power_of_two n = None)"
proof (intro conjI impI)
  assume "n \<le> 2 ^ 63"
  then show "\<exists>k \<ge> 4. next_power_of_two n = Some (2 ^ k) \<and> n \<le> 2 ^ k \<and> (k = 4 \<or> 2 ^ (k - 1) < n)"
    using next_power_loop_pow [of 4 n] by (simp add: next_power_of_two_def)
next
  assume big: "2 ^ 63 < n"
  show "next_power_of_two n = None"
  proof (rule ccontr)
    assume "next_power_of_two n \<noteq> None"
    then obtain r where "next_power_loop 16 n = Some r" by (auto simp: next_power_of_two_def)
    moreover have "pow2_or_0 16" unfolding pow2_or_0_def by (intro disjI2 exI [of _ 4]) simp
    ultimately have "n \<le> r" "pow2_or_0 r" using next_power_loop_result by blast+
    with big pow2_le_half [of r] show False by simp
  qed
qed

theorem next_power_of_two_spec_witness:
  "next_power_of_two 17 = Some 32 \<and> next_power_of_two (2 ^ 63 + 1) = None"
  using next_power_of_two_spec [of 17] next_power_of_two_spec [of "2 ^ 63 + 1"]
  by (simp add: next_power_of_two_def next_power_loop.simps)

section \<open>Probing\<close>

definition is_used :: "('k, 'v) ht_slot \<Rightarrow> bool" where
  "is_used s \<longleftrightarrow> slot_state s = HT_USED"

definition is_tombstone :: "('k, 'v) ht_slot \<Rightarrow> bool" where
  "is_tombstone s \<longleftrightarrow> slot_state s = HT_TOMBSTONE"

text \<open>The \<open>n\<close>-th index that a search for \<open>k\<close> visits.\<close>

definition probe :: "('k, 'v) hash_table \<Rightarrow> 'k \<Rightarrow> nat \<Rightarrow> nat" where
  "probe ht k n = (unat (hash_fn ht k) + n) mod capacity ht"

abbreviation holds_at :: "('k, 'v) hash_table \<Rightarrow> nat \<Rightarrow> 'k \<Rightarrow> bool" where
  "holds_at ht i k \<equiv> slot_holds (eq_fn ht) (slots ht ! i) k"

abbreviation state_at :: "('k, 'v) hash_table \<Rightarrow> nat \<Rightarrow> ht_slot_state" where
  "state_at ht i \<equiv> slot_state (slots ht ! i)"

text \<open>What the caller's callbacks promise: \<open>eq\<close> is an equivalence that \<open>hash\<close> respects.\<close>

locale key_contract =
  fixes hash :: "'k \<Rightarrow> 64 word" and eq :: "'k \<Rightarrow> 'k \<Rightarrow> bool"
  assumes eq_refl: "eq k k"
    and eq_sym: "eq k k' \<Longrightarrow> eq k' k"
    and eq_trans: "eq k k' \<Longrightarrow> eq k' k'' \<Longrightarrow> eq k k''"
    and eq_hash: "eq k k' \<Longrightarrow> hash k = hash k'"
begin

lemma holds_eq: "slot_holds eq s k \<Longrightarrow> eq k k' \<Longrightarrow> slot_holds eq s k'"
  unfolding slot_holds_def by (auto split: option.splits intro: eq_trans)

lemma holds_both: "slot_holds eq s k \<Longrightarrow> slot_holds eq s k' \<Longrightarrow> eq k k'"
  unfolding slot_holds_def by (auto split: option.splits intro: eq_trans eq_sym)

end

text \<open>The part of the invariant that the slot array alone carries.\<close>

definition table_shape :: "('k, 'v) hash_table \<Rightarrow> bool" where
  "table_shape ht \<longleftrightarrow>
     key_contract (hash_fn ht) (eq_fn ht) \<and>
     (\<exists>j \<ge> 4. capacity ht = 2 ^ j) \<and> capacity ht * 24 < U64 \<and>
     length (slots ht) = capacity ht \<and>
     (\<forall>i < capacity ht. state_at ht i = HT_USED \<longrightarrow> slot_key (slots ht ! i) \<noteq> None) \<and>
     (\<forall>i < capacity ht. \<forall>j < capacity ht. \<forall>k. holds_at ht i k \<longrightarrow> holds_at ht j k \<longrightarrow> i = j) \<and>
     (\<forall>i < capacity ht. \<forall>k. holds_at ht i k \<longrightarrow>
        (\<exists>n < capacity ht. probe ht k n = i \<and> (\<forall>m < n. state_at ht (probe ht k m) \<noteq> HT_EMPTY))) \<and>
     count ht = length (filter is_used (slots ht)) \<and>
     length (filter is_tombstone (slots ht)) \<le> tombstones ht"

definition ht_wf :: "('k, 'v) hash_table \<Rightarrow> bool" where
  "ht_wf ht \<longleftrightarrow> table_shape ht \<and>
     (count ht + tombstones ht) * HT_MAX_LOAD_DENOM \<le> capacity ht * HT_MAX_LOAD_NUMER"

lemma table_shapeD:
  assumes "table_shape ht"
  shows shape_contract: "key_contract (hash_fn ht) (eq_fn ht)"
    and shape_pow2: "\<exists>j \<ge> 4. capacity ht = 2 ^ j"
    and shape_bytes: "capacity ht * 24 < U64"
    and shape_length: "length (slots ht) = capacity ht"
    and shape_key: "i < capacity ht \<Longrightarrow> state_at ht i = HT_USED \<Longrightarrow> slot_key (slots ht ! i) \<noteq> None"
    and shape_unique: "i < capacity ht \<Longrightarrow> j < capacity ht \<Longrightarrow> holds_at ht i k \<Longrightarrow> holds_at ht j k \<Longrightarrow> i = j"
    and shape_reach: "i < capacity ht \<Longrightarrow> holds_at ht i k \<Longrightarrow>
      \<exists>n < capacity ht. probe ht k n = i \<and> (\<forall>m < n. state_at ht (probe ht k m) \<noteq> HT_EMPTY)"
    and shape_count: "count ht = length (filter is_used (slots ht))"
    and shape_tombs: "length (filter is_tombstone (slots ht)) \<le> tombstones ht"
  using assms unfolding table_shape_def by blast+

lemmas shape_eq_refl = key_contract.eq_refl [OF shape_contract]
  and shape_eq_sym = key_contract.eq_sym [OF shape_contract]
  and shape_eq_hash = key_contract.eq_hash [OF shape_contract]
  and shape_holds_eq = key_contract.holds_eq [OF shape_contract]
  and shape_holds_both = key_contract.holds_both [OF shape_contract]

lemma cap_pos: "table_shape ht \<Longrightarrow> 0 < capacity ht"
  using shape_pow2 by fastforce

lemma cap_ge: "table_shape ht \<Longrightarrow> 16 \<le> capacity ht"
proof -
  assume "table_shape ht"
  then obtain j where "4 \<le> j" "capacity ht = 2 ^ j" using shape_pow2 by blast
  moreover have "(2::nat) ^ 4 \<le> 2 ^ j" using \<open>4 \<le> j\<close> by (intro power_increasing) auto
  ultimately show ?thesis by simp
qed

lemma probe_less [simp]: "table_shape ht \<Longrightarrow> probe ht k n < capacity ht"
  by (simp add: probe_def cap_pos)

lemma probe_0: "table_shape ht \<Longrightarrow> unat (hash_fn ht k) AND (capacity ht - Suc 0) = probe ht k 0"
  proof -
  assume "table_shape ht"
  then obtain j where "capacity ht = 2 ^ j" using shape_pow2 by blast
  then show ?thesis using and_mask_mod [of "unat (hash_fn ht k)" j] by (simp add: probe_def)
qed

lemma probe_Suc: "table_shape ht \<Longrightarrow> Suc (probe ht k n) AND (capacity ht - Suc 0) = probe ht k (Suc n)"
proof -
  assume "table_shape ht"
  then obtain j where "capacity ht = 2 ^ j" using shape_pow2 by blast
  then have "Suc (probe ht k n) AND (capacity ht - Suc 0) = Suc (probe ht k n) mod capacity ht"
    using and_mask_mod [of "Suc (probe ht k n)" j] by simp
  also have "\<dots> = probe ht k (Suc n)" by (simp add: probe_def mod_Suc_eq)
  finally show ?thesis .
qed

text \<open>The probe sequence visits every slot.\<close>

lemma probe_surj:
  assumes "table_shape ht" "i < capacity ht"
  shows "\<exists>n < capacity ht. probe ht k n = i"
proof -
  define h where "h = unat (hash_fn ht k) mod capacity ht"
  define n where "n = (i + (capacity ht - h)) mod capacity ht"
  have h: "h < capacity ht" using assms cap_pos by (simp add: h_def)
  have "probe ht k n = (unat (hash_fn ht k) + (i + (capacity ht - h))) mod capacity ht"
    by (simp add: probe_def n_def mod_add_right_eq)
  also have "\<dots> = (h + (i + (capacity ht - h))) mod capacity ht"
    unfolding h_def by (rule mod_add_left_eq [symmetric])
  also have "h + (i + (capacity ht - h)) = i + capacity ht" using h by simp
  finally have "probe ht k n = i" using assms by simp
  moreover have "n < capacity ht" using h by (simp add: n_def)
  ultimately show ?thesis by blast
qed

lemma probe_same: "hash_fn ht k = hash_fn ht k' \<Longrightarrow> probe ht k n = probe ht k' n"
  by (simp add: probe_def)

text \<open>Below the load limit there is an empty slot, so every probe sequence meets one.\<close>

lemma empty_slot_exists:
  fixes ht :: "('k, 'v) hash_table"
  assumes shape: "table_shape ht" and load: "count ht + tombstones ht < capacity ht"
  shows "\<exists>n < capacity ht. state_at ht (probe ht k n) = HT_EMPTY"
proof -
  have "length (filter (\<lambda>s. slot_state s \<noteq> HT_EMPTY) xs) =
      length (filter is_used xs) + length (filter is_tombstone xs)" for xs :: "('k, 'v) ht_slot list"
    by (induction xs) (auto simp: is_used_def is_tombstone_def, (metis ht_slot_state.exhaust)+)
  then have "length (filter (\<lambda>s. slot_state s \<noteq> HT_EMPTY) (slots ht)) < length (slots ht)"
    using load shape_count [OF shape] shape_tombs [OF shape] shape_length [OF shape] by simp
  then have "\<exists>i < length (slots ht). \<not> state_at ht i \<noteq> HT_EMPTY"
    by (rule length_filter_less_ex)
  then obtain i where "i < capacity ht" "state_at ht i = HT_EMPTY"
    unfolding shape_length [OF shape] by auto
  moreover from this obtain n where "n < capacity ht" "probe ht k n = i"
    using probe_surj [OF shape] by blast
  ultimately show ?thesis by blast
qed

section \<open>Searching\<close>

lemma find_loop_hit:
  assumes shape: "table_shape ht"
    and "n \<le> n'" "n' < n + m" "holds_at ht (probe ht k n') k"
    and "\<And>j. n \<le> j \<Longrightarrow> j < n' \<Longrightarrow> state_at ht (probe ht k j) \<noteq> HT_EMPTY \<and> \<not> holds_at ht (probe ht k j) k"
  shows "find_loop ht k (capacity ht - Suc 0) (probe ht k n) m = probe ht k n'"
  using assms(2-)
proof (induction m arbitrary: n)
  case 0
  then show ?case by simp
next
  case (Suc m)
  show ?case
  proof (cases "n = n'")
    case True
    with Suc.prems show ?thesis by (simp add: slot_holds_def)
  next
    case False
    with Suc.prems have "find_loop ht k (capacity ht - Suc 0) (probe ht k (Suc n)) m = probe ht k n'"
      by (intro Suc.IH) auto
    moreover have "state_at ht (probe ht k n) \<noteq> HT_EMPTY" "\<not> holds_at ht (probe ht k n) k"
      using Suc.prems(1) Suc.prems(4) [of n] False by auto
    ultimately show ?thesis using probe_Suc [OF shape] by simp
  qed
qed

lemma find_loop_miss:
  assumes shape: "table_shape ht" and "\<And>i. i < capacity ht \<Longrightarrow> \<not> holds_at ht i k"
  shows "find_loop ht k (capacity ht - Suc 0) (probe ht k n) m = SIZE_MAX"
proof (induction m arbitrary: n)
  case 0
  then show ?case by simp
next
  case (Suc m)
  then show ?case using assms probe_less [OF shape] probe_Suc [OF shape, of k n] by simp
qed

text \<open>The slot that holds a key is the first match of its probe sequence.\<close>

lemma reach_first:
  assumes shape: "table_shape ht" and i: "i < capacity ht" "holds_at ht i k"
  obtains n where "n < capacity ht" "probe ht k n = i"
    "\<And>j. j < n \<Longrightarrow> state_at ht (probe ht k j) \<noteq> HT_EMPTY \<and> \<not> holds_at ht (probe ht k j) k"
proof -
  define n where "n = (LEAST n. probe ht k n = i)"
  obtain n' where n': "n' < capacity ht" "probe ht k n' = i"
    "\<forall>m < n'. state_at ht (probe ht k m) \<noteq> HT_EMPTY"
    using shape_reach [OF shape i] by blast
  have "probe ht k n = i" "n \<le> n'"
    unfolding n_def using n'(2) by (rule LeastI, rule Least_le)
  moreover have "probe ht k j \<noteq> i" if "j < n" for j
    using that not_less_Least unfolding n_def by blast
  then have "\<not> holds_at ht (probe ht k j) k" if "j < n" for j
    using that shape_unique [OF shape probe_less [OF shape] i(1) _ i(2)] by blast
  ultimately show ?thesis using n' by (intro that [of n]) auto
qed

lemma find_key_hit:
  assumes shape: "table_shape ht" and i: "i < capacity ht" "holds_at ht i k"
  shows "find_key ht k = i"
proof -
  obtain n where "n < capacity ht" "probe ht k n = i"
    "\<And>j. j < n \<Longrightarrow> state_at ht (probe ht k j) \<noteq> HT_EMPTY \<and> \<not> holds_at ht (probe ht k j) k"
    using reach_first [OF assms] by metis
  then have "find_loop ht k (capacity ht - Suc 0) (probe ht k 0) (capacity ht) = i"
    using find_loop_hit [OF shape, of 0 n "capacity ht" k] i by simp
  then show ?thesis by (simp add: find_key_def Let_def probe_0 [OF shape])
qed

lemma find_key_miss:
  assumes "table_shape ht" "\<And>i. i < capacity ht \<Longrightarrow> \<not> holds_at ht i k"
  shows "find_key ht k = SIZE_MAX"
  using find_loop_miss [OF assms] by (simp add: find_key_def Let_def probe_0 [OF assms(1)])

lemma cap_less_SIZE_MAX: "table_shape ht \<Longrightarrow> i < capacity ht \<Longrightarrow> i \<noteq> SIZE_MAX"
  using shape_bytes by fastforce

section \<open>The map a table stands for\<close>

text \<open>
  The abstract view: a key is bound when a live slot holds it, and its value is that
  slot's. It reads the slots in array order and knows nothing of hashing or probing.
\<close>

definition ht_entry :: "('k, 'v) hash_table \<Rightarrow> 'k \<Rightarrow> 'v option option" where
  "ht_entry ht k = map_option slot_value (List.find (\<lambda>s. slot_holds (eq_fn ht) s k) (slots ht))"

lemma ht_entry_None:
  "length (slots ht) = capacity ht \<Longrightarrow> ht_entry ht k = None \<longleftrightarrow> (\<forall>i < capacity ht. \<not> holds_at ht i k)"
  unfolding ht_entry_def by (auto simp: find_None_iff in_set_conv_nth)

lemma ht_entry_Some:
  assumes shape: "table_shape ht"
  shows "ht_entry ht k = Some v \<longleftrightarrow> (\<exists>i < capacity ht. holds_at ht i k \<and> slot_value (slots ht ! i) = v)"
proof -
  have "List.find (\<lambda>s. slot_holds (eq_fn ht) s k) (slots ht) = Some s \<longleftrightarrow>
      (\<exists>i < capacity ht. holds_at ht i k \<and> s = slots ht ! i)" for s
  proof
    assume "\<exists>i < capacity ht. holds_at ht i k \<and> s = slots ht ! i"
    then obtain i where i: "i < capacity ht" "holds_at ht i k" "s = slots ht ! i" by blast
    moreover have "\<not> holds_at ht j k" if "j < i" for j
      using shape_unique [OF shape i(1) _ i(2), of j] that i(1) by auto
    ultimately show "List.find (\<lambda>s. slot_holds (eq_fn ht) s k) (slots ht) = Some s"
      unfolding find_Some_iff shape_length [OF shape] by (intro exI [of _ i]) simp
  qed (auto simp: find_Some_iff shape_length [OF shape])
  then show ?thesis unfolding ht_entry_def map_option_eq_Some by metis
qed

lemma ht_entryI:
  "table_shape ht \<Longrightarrow> i < capacity ht \<Longrightarrow> holds_at ht i k \<Longrightarrow> ht_entry ht k = Some (slot_value (slots ht ! i))"
  using ht_entry_Some [of ht k "slot_value (slots ht ! i)"] by blast

lemma find_key_entry:
  assumes shape: "table_shape ht"
  shows "find_key ht k = SIZE_MAX \<longleftrightarrow> ht_entry ht k = None"
    and "ht_entry ht k = Some v \<Longrightarrow> find_key ht k < capacity ht \<and> holds_at ht (find_key ht k) k
           \<and> slot_value (slots ht ! find_key ht k) = v"
proof -
  show hit: "ht_entry ht k = Some v \<Longrightarrow> find_key ht k < capacity ht \<and> holds_at ht (find_key ht k) k
           \<and> slot_value (slots ht ! find_key ht k) = v" for v
    using ht_entry_Some [OF shape] find_key_hit [OF shape] by metis
  show "find_key ht k = SIZE_MAX \<longleftrightarrow> ht_entry ht k = None"
  proof (cases "ht_entry ht k")
    case None
    then show ?thesis using find_key_miss [OF shape] ht_entry_None [OF shape_length [OF shape]] by blast
  next
    case (Some v)
    then show ?thesis using hit [OF Some] cap_less_SIZE_MAX [OF shape] by auto
  qed
qed

lemma ht_lookup_entry:
  "table_shape ht \<Longrightarrow> ht_lookup ht k = (case ht_entry ht k of None \<Rightarrow> None | Some v \<Rightarrow> v)"
  using find_key_entry [of ht k]
  by (auto simp: ht_lookup_def Let_def split: option.splits)

lemma ht_contains_entry: "table_shape ht \<Longrightarrow> ht_contains ht k \<longleftrightarrow> ht_entry ht k \<noteq> None"
  using find_key_entry(1) [of ht k] by (simp add: ht_contains_def)

section \<open>Storing\<close>

lemma insert_loop_hit:
  assumes shape: "table_shape ht"
    and "n \<le> n'" "n' < n + m" "holds_at ht (probe ht k n') k"
    and "\<And>j. n \<le> j \<Longrightarrow> j < n' \<Longrightarrow> state_at ht (probe ht k j) \<noteq> HT_EMPTY \<and> \<not> holds_at ht (probe ht k j) k"
  shows "insert_loop ht k v (capacity ht - Suc 0) (probe ht k n) ft m = (overwrite ht (probe ht k n') v, True)"
  using assms(2-)
proof (induction m arbitrary: n ft)
  case 0
  then show ?case by simp
next
  case (Suc m)
  show ?case
  proof (cases "n = n'")
    case True
    with Suc.prems(3) show ?thesis by (simp add: slot_holds_def)
  next
    case False
    with Suc.prems have "insert_loop ht k v (capacity ht - Suc 0) (probe ht k (Suc n)) ft' m =
        (overwrite ht (probe ht k n') v, True)" for ft'
      by (intro Suc.IH) auto
    moreover have "state_at ht (probe ht k n) \<noteq> HT_EMPTY" "\<not> holds_at ht (probe ht k n) k"
      using Suc.prems(1) Suc.prems(4) [of n] False by auto
    ultimately show ?thesis using probe_Suc [OF shape] by (simp add: Let_def)
  qed
qed

text \<open>
  For an absent key the loop ends at the first empty slot and stores at the first slot that
  is not live: a tombstone met on the way, or the empty slot itself.
\<close>

lemma insert_loop_tomb:
  assumes shape: "table_shape ht" and ft: "ft \<noteq> SIZE_MAX"
    and absent: "\<And>i. i < capacity ht \<Longrightarrow> \<not> holds_at ht i k"
    and "\<exists>n' \<ge> n. n' < n + m \<and> state_at ht (probe ht k n') = HT_EMPTY"
  shows "insert_loop ht k v (capacity ht - Suc 0) (probe ht k n) ft m = (store_new ht ft k v, True)"
  using assms(4)
proof (induction m arbitrary: n)
  case 0
  then show ?case by auto
next
  case (Suc m)
  show ?case
  proof (cases "state_at ht (probe ht k n) = HT_EMPTY")
    case True
    then show ?thesis using ft by simp
  next
    case False
    with Suc.prems obtain n' where "Suc n \<le> n'" "n' < Suc n + m" "state_at ht (probe ht k n') = HT_EMPTY"
      by (metis Suc_leI add_Suc_shift le_neq_implies_less)
    then have "insert_loop ht k v (capacity ht - Suc 0) (probe ht k (Suc n)) ft m = (store_new ht ft k v, True)"
      by (intro Suc.IH) blast
    with False show ?thesis
      using absent [OF probe_less [OF shape]] probe_Suc [OF shape] ft by (simp add: Let_def)
  qed
qed

lemma insert_loop_miss:
  assumes shape: "table_shape ht"
    and absent: "\<And>i. i < capacity ht \<Longrightarrow> \<not> holds_at ht i k"
    and "\<exists>n' \<ge> n. n' < n + m \<and> state_at ht (probe ht k n') = HT_EMPTY"
  shows "\<exists>q \<ge> n. q < n + m \<and>
     insert_loop ht k v (capacity ht - Suc 0) (probe ht k n) SIZE_MAX m = (store_new ht (probe ht k q) k v, True) \<and>
     state_at ht (probe ht k q) \<noteq> HT_USED \<and> (\<forall>j. n \<le> j \<longrightarrow> j < q \<longrightarrow> state_at ht (probe ht k j) = HT_USED)"
  using assms(3)
proof (induction m arbitrary: n)
  case 0
  then show ?case by auto
next
  case (Suc m)
  show ?case
  proof (cases "state_at ht (probe ht k n)")
    case HT_EMPTY
    then show ?thesis by (intro exI [of _ n]) auto
  next
    case HT_TOMBSTONE
    with Suc.prems obtain n' where "Suc n \<le> n'" "n' < Suc n + m" "state_at ht (probe ht k n') = HT_EMPTY"
      by (metis Suc_leI add_Suc_shift le_neq_implies_less ht_slot_state.distinct(4))
    then have "insert_loop ht k v (capacity ht - Suc 0) (probe ht k (Suc n)) (probe ht k n) m =
        (store_new ht (probe ht k n) k v, True)"
      using cap_less_SIZE_MAX [OF shape probe_less [OF shape]] absent
      by (intro insert_loop_tomb [OF shape]) blast+
    with HT_TOMBSTONE show ?thesis
      using probe_Suc [OF shape] by (intro exI [of _ n]) (auto simp: Let_def)
  next
    case HT_USED
    with Suc.prems obtain n' where "Suc n \<le> n'" "n' < Suc n + m" "state_at ht (probe ht k n') = HT_EMPTY"
      by (metis Suc_leI add_Suc_shift le_neq_implies_less ht_slot_state.distinct(1))
    then obtain q where "Suc n \<le> q" "q < Suc n + m"
      "insert_loop ht k v (capacity ht - Suc 0) (probe ht k (Suc n)) SIZE_MAX m = (store_new ht (probe ht k q) k v, True)"
      "state_at ht (probe ht k q) \<noteq> HT_USED" "\<forall>j. Suc n \<le> j \<longrightarrow> j < q \<longrightarrow> state_at ht (probe ht k j) = HT_USED"
      using Suc.IH [of "Suc n"] by blast
    moreover from this HT_USED have "state_at ht (probe ht k j) = HT_USED" if "n \<le> j" "j < q" for j
      using that by (cases "n = j") auto
    ultimately show ?thesis
      using HT_USED probe_Suc [OF shape] absent [OF probe_less [OF shape], of k n]
      by (intro exI [of _ q]) (auto simp: Let_def)
  qed
qed

lemma insert_no_resize_hit:
  assumes shape: "table_shape ht" and i: "i < capacity ht" "holds_at ht i k"
  shows "insert_no_resize ht k v = (overwrite ht i v, True)"
proof -
  obtain n where "n < capacity ht" "probe ht k n = i"
    "\<And>j. j < n \<Longrightarrow> state_at ht (probe ht k j) \<noteq> HT_EMPTY \<and> \<not> holds_at ht (probe ht k j) k"
    using reach_first [OF assms] by metis
  then show ?thesis
    using insert_loop_hit [OF shape, of 0 n "capacity ht" k v SIZE_MAX] i
    by (simp add: insert_no_resize_def Let_def probe_0 [OF shape])
qed

lemma insert_no_resize_miss:
  assumes shape: "table_shape ht"
    and absent: "\<And>i. i < capacity ht \<Longrightarrow> \<not> holds_at ht i k"
    and load: "count ht + tombstones ht < capacity ht"
  obtains q where "q < capacity ht" "insert_no_resize ht k v = (store_new ht (probe ht k q) k v, True)"
    "state_at ht (probe ht k q) \<noteq> HT_USED" "\<And>j. j < q \<Longrightarrow> state_at ht (probe ht k j) = HT_USED"
proof -
  have "\<exists>n' \<ge> 0. n' < 0 + capacity ht \<and> state_at ht (probe ht k n') = HT_EMPTY"
    using empty_slot_exists [OF shape load] by simp
  from insert_loop_miss [OF shape absent this, of v] show ?thesis
    by (auto simp: insert_no_resize_def Let_def probe_0 [OF shape] intro: that)
qed

section \<open>What each write does to the slots\<close>

lemma store_new_fields [simp]:
  "capacity (store_new ht pos k v) = capacity ht" "hash_fn (store_new ht pos k v) = hash_fn ht"
  "eq_fn (store_new ht pos k v) = eq_fn ht" "tombstones (store_new ht pos k v) = tombstones ht"
  "length (slots (store_new ht pos k v)) = length (slots ht)"
  "probe (store_new ht pos k v) k' n = probe ht k' n"
  by (simp_all add: store_new_def probe_def)

lemma overwrite_fields [simp]:
  "capacity (overwrite ht i v) = capacity ht" "hash_fn (overwrite ht i v) = hash_fn ht"
  "eq_fn (overwrite ht i v) = eq_fn ht" "tombstones (overwrite ht i v) = tombstones ht"
  "count (overwrite ht i v) = count ht" "length (slots (overwrite ht i v)) = length (slots ht)"
  "probe (overwrite ht i v) k n = probe ht k n"
  by (simp_all add: overwrite_def probe_def)

lemma store_new_slot:
  "pos < length (slots ht) \<Longrightarrow> slots (store_new ht pos k v) ! i =
     (if i = pos then \<lparr>slot_key = Some k, slot_value = v, slot_state = HT_USED\<rparr> else slots ht ! i)"
  by (simp add: store_new_def)

lemma overwrite_slot:
  "pos < length (slots ht) \<Longrightarrow> slots (overwrite ht pos v) ! i =
     (if i = pos then (slots ht ! i)\<lparr>slot_value := v\<rparr> else slots ht ! i)"
  by (simp add: overwrite_def)

lemma slot_holds_new [simp]:
  "slot_holds eq \<lparr>slot_key = Some k, slot_value = v, slot_state = HT_USED\<rparr> k' \<longleftrightarrow> eq k k'"
  "slot_holds eq (s\<lparr>slot_value := v\<rparr>) k' \<longleftrightarrow> slot_holds eq s k'"
  "\<not> slot_holds eq \<lparr>slot_key = None, slot_value = w, slot_state = st\<rparr> k'"
  by (simp_all add: slot_holds_def)

lemma table_shapeI:
  assumes "key_contract (hash_fn ht) (eq_fn ht)" "\<exists>j \<ge> 4. capacity ht = 2 ^ j" "capacity ht * 24 < U64"
    "length (slots ht) = capacity ht"
    "\<And>i. i < capacity ht \<Longrightarrow> state_at ht i = HT_USED \<Longrightarrow> slot_key (slots ht ! i) \<noteq> None"
    "\<And>i j k. i < capacity ht \<Longrightarrow> j < capacity ht \<Longrightarrow> holds_at ht i k \<Longrightarrow> holds_at ht j k \<Longrightarrow> i = j"
    "\<And>i k. i < capacity ht \<Longrightarrow> holds_at ht i k \<Longrightarrow>
       \<exists>n < capacity ht. probe ht k n = i \<and> (\<forall>m < n. state_at ht (probe ht k m) \<noteq> HT_EMPTY)"
    "count ht = length (filter is_used (slots ht))"
    "length (filter is_tombstone (slots ht)) \<le> tombstones ht"
  shows "table_shape ht"
  using assms unfolding table_shape_def by blast

lemma count_less_U64: "table_shape ht \<Longrightarrow> count ht \<le> capacity ht \<and> capacity ht < U64 - 1"
  using shape_count [of ht] shape_length [of ht] shape_bytes [of ht]
    length_filter_le [of is_used "slots ht"] by simp

lemma store_new_shape:
  assumes shape: "table_shape ht"
    and absent: "\<And>i. i < capacity ht \<Longrightarrow> \<not> holds_at ht i k"
    and q: "q < capacity ht" "state_at ht (probe ht k q) \<noteq> HT_USED"
      "\<And>j. j < q \<Longrightarrow> state_at ht (probe ht k j) = HT_USED"
  shows "table_shape (store_new ht (probe ht k q) k v)"
proof -
  let ?p = "probe ht k q"
  let ?ht = "store_new ht ?p k v"
  have p: "?p < capacity ht" "?p < length (slots ht)"
    using probe_less [OF shape] shape_length [OF shape] by simp_all
  note slot = store_new_slot [OF p(2)]
  have clash: "\<not> holds_at ht j k'" if "eq_fn ht k k'" "j < capacity ht" for j k'
    using absent [OF that(2)] shape_holds_eq [OF shape] shape_eq_sym [OF shape that(1)] by blast
  show ?thesis
  proof (rule table_shapeI)
    fix i j k'
    assume "i < capacity ?ht" "j < capacity ?ht" "holds_at ?ht i k'" "holds_at ?ht j k'"
    then show "i = j"
      using shape_unique [OF shape, of i j k'] clash [of k'] by (auto simp: slot split: if_splits)
  next
    fix i k'
    assume i: "i < capacity ?ht" "holds_at ?ht i k'"
    show "\<exists>n < capacity ?ht. probe ?ht k' n = i \<and> (\<forall>m < n. state_at ?ht (probe ?ht k' m) \<noteq> HT_EMPTY)"
    proof (cases "i = ?p")
      case True
      with i have "hash_fn ht k = hash_fn ht k'" by (simp add: slot shape_eq_hash [OF shape])
      then have "probe ht k' n = probe ht k n" for n by (rule probe_same [symmetric])
      with True q show ?thesis by (intro exI [of _ q]) (auto simp: slot)
    next
      case False
      with i show ?thesis using shape_reach [OF shape, of i k'] by (auto simp: slot)
    qed
  next
    have "length (filter is_used (slots ?ht)) = Suc (length (filter is_used (slots ht)))"
      using length_filter_update [OF p(2), of is_used] q(2) by (simp add: store_new_def is_used_def)
    then show "count ?ht = length (filter is_used (slots ?ht))"
      using shape_count [OF shape] count_less_U64 [OF shape] by (simp add: store_new_def)
  next
    have "length (filter is_tombstone (slots ?ht)) \<le> length (filter is_tombstone (slots ht))"
      using length_filter_update [OF p(2), of is_tombstone "\<lparr>slot_key = Some k, slot_value = v, slot_state = HT_USED\<rparr>"]
      by (simp add: store_new_def is_tombstone_def split: if_splits)
    then show "length (filter is_tombstone (slots ?ht)) \<le> tombstones ?ht"
      using shape_tombs [OF shape] by simp
  next
    fix i
    assume "i < capacity ?ht" "state_at ?ht i = HT_USED"
    then show "slot_key (slots ?ht ! i) \<noteq> None"
      using shape_key [OF shape, of i] by (auto simp: slot split: if_splits)
  qed (use shape in \<open>simp_all add: table_shapeD\<close>)
qed

lemma store_new_entry:
  assumes shape: "table_shape ht"
    and absent: "\<And>i. i < capacity ht \<Longrightarrow> \<not> holds_at ht i k"
    and shape': "table_shape (store_new ht p k v)" and p: "p < capacity ht" "state_at ht p \<noteq> HT_USED"
  shows "ht_entry (store_new ht p k v) k' = (if eq_fn ht k k' then Some v else ht_entry ht k')"
proof -
  have "p < length (slots ht)" using p shape_length [OF shape] by simp
  note slot = store_new_slot [OF this]
  have old: "\<not> holds_at ht p k'" using p by (simp add: slot_holds_def)
  show ?thesis
  proof (cases "eq_fn ht k k'")
    case True
    then show ?thesis using ht_entryI [OF shape', of p k'] p by (simp add: slot)
  next
    case False
    then have "holds_at (store_new ht p k v) i k' \<longleftrightarrow> holds_at ht i k'" for i
      using old by (simp add: slot)
    moreover have "slot_value (slots (store_new ht p k v) ! i) = slot_value (slots ht ! i)"
      if "holds_at ht i k'" for i using that old by (auto simp: slot)
    ultimately have "ht_entry (store_new ht p k v) k' = Some w \<longleftrightarrow> ht_entry ht k' = Some w" for w
      unfolding ht_entry_Some [OF shape] ht_entry_Some [OF shape'] store_new_fields by metis
    with False show ?thesis by (intro option_eqI_Some) simp
  qed
qed

lemma overwrite_shape:
  assumes shape: "table_shape ht" and p: "p < capacity ht"
  shows "table_shape (overwrite ht p v)"
proof -
  let ?ht = "overwrite ht p v"
  have p': "p < length (slots ht)" using p shape_length [OF shape] by simp
  have st: "state_at ?ht i = state_at ht i" "slot_key (slots ?ht ! i) = slot_key (slots ht ! i)"
    "slot_holds (eq_fn ht) (slots ?ht ! i) k \<longleftrightarrow> holds_at ht i k" for i k
    by (simp_all add: overwrite_slot [OF p'])
  have "length (filter P (slots ?ht)) = length (filter P (slots ht))"
    if "\<And>s. P (s\<lparr>slot_value := v\<rparr>) = P s" for P
    using length_filter_update [OF p', of P "(slots ht ! p)\<lparr>slot_value := v\<rparr>"] that
    by (simp add: overwrite_def split: if_splits)
  from this [of is_used] this [of is_tombstone]
  have cnt: "length (filter is_used (slots ?ht)) = length (filter is_used (slots ht))"
    "length (filter is_tombstone (slots ?ht)) = length (filter is_tombstone (slots ht))"
    by (simp_all add: is_used_def is_tombstone_def)
  show ?thesis
    using shape unfolding table_shape_def overwrite_fields st cnt .
qed

lemma overwrite_entry:
  assumes shape: "table_shape ht" and p: "p < capacity ht" "holds_at ht p k"
  shows "ht_entry (overwrite ht p v) k' = (if eq_fn ht k k' then Some v else ht_entry ht k')"
proof -
  have p': "p < length (slots ht)" using p shape_length [OF shape] by simp
  note slot = overwrite_slot [OF p', of v]
  note shape' = overwrite_shape [OF shape p(1), of v]
  have holds: "slot_holds (eq_fn ht) (slots (overwrite ht p v) ! i) k' \<longleftrightarrow> holds_at ht i k'" for i
    by (simp add: slot)
  show ?thesis
  proof (cases "eq_fn ht k k'")
    case True
    with p have "holds_at (overwrite ht p v) p k'"
      unfolding overwrite_fields holds by (blast intro: shape_holds_eq [OF shape])
    then show ?thesis using True ht_entryI [OF shape', of p k'] p by (simp add: slot)
  next
    case False
    then have "\<not> holds_at ht p k'" using shape_holds_both [OF shape p(2)] by blast
    then have "slot_value (slots (overwrite ht p v) ! i) = slot_value (slots ht ! i)"
      if "holds_at ht i k'" for i using that by (auto simp: slot)
    then have "ht_entry (overwrite ht p v) k' = Some w \<longleftrightarrow> ht_entry ht k' = Some w" for w
      unfolding ht_entry_Some [OF shape] ht_entry_Some [OF shape'] overwrite_fields holds by metis
    with False show ?thesis by (intro option_eqI_Some) simp
  qed
qed

section \<open>Inserting, growing, removing\<close>

text \<open>Inserting without growth: the map gains the binding, the counters stay right.\<close>

lemma insert_no_resize_ok:
  assumes shape: "table_shape ht" and load: "count ht + tombstones ht < capacity ht"
    and ins: "insert_no_resize ht k v = (ht', ok)"
  shows "ok" "table_shape ht'" "capacity ht' = capacity ht" "tombstones ht' = tombstones ht"
    "hash_fn ht' = hash_fn ht" "eq_fn ht' = eq_fn ht"
    "ht_entry ht' k' = (if eq_fn ht k k' then Some v else ht_entry ht k')"
    "count ht' = (if ht_entry ht k = None then Suc (count ht) else count ht)"
proof -
  have "ok \<and> table_shape ht' \<and> capacity ht' = capacity ht \<and> tombstones ht' = tombstones ht \<and>
    hash_fn ht' = hash_fn ht \<and> eq_fn ht' = eq_fn ht \<and>
    ht_entry ht' k' = (if eq_fn ht k k' then Some v else ht_entry ht k') \<and>
    count ht' = (if ht_entry ht k = None then Suc (count ht) else count ht)"
  proof (cases "ht_entry ht k")
    case None
    then have absent: "\<And>i. i < capacity ht \<Longrightarrow> \<not> holds_at ht i k"
      using ht_entry_None [OF shape_length [OF shape]] by blast
    obtain q where q: "q < capacity ht" "insert_no_resize ht k v = (store_new ht (probe ht k q) k v, True)"
      "state_at ht (probe ht k q) \<noteq> HT_USED" "\<And>j. j < q \<Longrightarrow> state_at ht (probe ht k j) = HT_USED"
      using insert_no_resize_miss [OF shape absent load] by metis
    have sh': "table_shape (store_new ht (probe ht k q) k v)"
      using store_new_shape [OF shape absent q(1,3,4)] .
    from ins q(2) have "ht' = store_new ht (probe ht k q) k v" "ok" by simp_all
    with None sh' store_new_entry [OF shape absent sh' probe_less [OF shape] q(3)]
    show ?thesis using count_less_U64 [OF shape] by (simp add: store_new_def)
  next
    case (Some w)
    then obtain i where i: "i < capacity ht" "holds_at ht i k" using ht_entry_Some [OF shape] by blast
    with ins insert_no_resize_hit [OF shape i, of v] have "ht' = overwrite ht i v" "ok" by simp_all
    with Some show ?thesis using overwrite_shape [OF shape i(1)] overwrite_entry [OF shape i] by simp
  qed
  then show "ok" "table_shape ht'" "capacity ht' = capacity ht" "tombstones ht' = tombstones ht"
    "hash_fn ht' = hash_fn ht" "eq_fn ht' = eq_fn ht"
    "ht_entry ht' k' = (if eq_fn ht k k' then Some v else ht_entry ht k')"
    "count ht' = (if ht_entry ht k = None then Suc (count ht) else count ht)" by blast+
qed

text \<open>The map that a list of slots stands for, later slots winning as in \<open>rehash\<close>.\<close>

fun slots_entry :: "('k \<Rightarrow> 'k \<Rightarrow> bool) \<Rightarrow> ('k, 'v) ht_slot list \<Rightarrow> 'k \<Rightarrow> 'v option option" where
  "slots_entry eq [] k = None"
| "slots_entry eq (s # ss) k =
     (case slots_entry eq ss k of Some v \<Rightarrow> Some v
      | None \<Rightarrow> if slot_holds eq s k then Some (slot_value s) else None)"

definition slots_distinct :: "('k \<Rightarrow> 'k \<Rightarrow> bool) \<Rightarrow> ('k, 'v) ht_slot list \<Rightarrow> bool" where
  "slots_distinct eq ss \<longleftrightarrow> (\<forall>i < length ss. \<forall>j < length ss. \<forall>k.
     slot_holds eq (ss ! i) k \<longrightarrow> slot_holds eq (ss ! j) k \<longrightarrow> i = j)"

lemma slots_distinct_tl: "slots_distinct eq (s # ss) \<Longrightarrow> slots_distinct eq ss"
proof -
  assume *: "slots_distinct eq (s # ss)"
  have "i = j" if "i < length ss" "j < length ss" "slot_holds eq (ss ! i) k" "slot_holds eq (ss ! j) k" for i j k
    using * [unfolded slots_distinct_def, rule_format, of "Suc i" "Suc j" k] that by simp
  then show ?thesis unfolding slots_distinct_def by blast
qed

lemma slots_entry_holds: "slots_entry eq ss k \<noteq> None \<Longrightarrow> \<exists>j < length ss. slot_holds eq (ss ! j) k"
proof (induction ss)
  case Nil
  then show ?case by simp
next
  case (Cons s ss)
  then show ?case by (cases "slots_entry eq ss k") (auto split: if_splits)
qed

lemma slots_distinct_hd:
  assumes "slots_distinct eq (s # ss)" "slots_entry eq ss k \<noteq> None"
  shows "\<not> slot_holds eq s k"
proof
  assume "slot_holds eq s k"
  moreover obtain j where "j < length ss" "slot_holds eq (ss ! j) k"
    using slots_entry_holds [OF assms(2)] by blast
  ultimately show False
    using assms(1) [unfolded slots_distinct_def, rule_format, of 0 "Suc j" k] by simp
qed

lemma slots_entry_find:
  assumes "slots_distinct eq ss"
  shows "slots_entry eq ss k = map_option slot_value (List.find (\<lambda>s. slot_holds eq s k) ss)"
  using assms
proof (induction ss)
  case Nil
  show ?case by simp
next
  case (Cons s ss)
  have "slots_distinct eq ss" using Cons.prems by (rule slots_distinct_tl)
  with Cons.IH have IH: "slots_entry eq ss k = map_option slot_value (List.find (\<lambda>s. slot_holds eq s k) ss)"
    by blast
  have "\<not> slot_holds eq (ss ! j) k" if "slot_holds eq s k" "j < length ss" for j
    using Cons.prems [unfolded slots_distinct_def, rule_format, of 0 "Suc j" k] that by auto
  then have "List.find (\<lambda>s. slot_holds eq s k) ss = None" if "slot_holds eq s k"
    using that by (auto simp: find_None_iff in_set_conv_nth)
  with IH show ?case by (auto split: option.splits)
qed

lemma rehash_ok:
  assumes "table_shape ht" "tombstones ht = 0"
    "count ht + length (filter is_used ss) < capacity ht"
    "\<forall>s \<in> set ss. is_used s \<longrightarrow> slot_key s \<noteq> None"
    "\<forall>k. slots_entry (eq_fn ht) ss k \<noteq> None \<longrightarrow> ht_entry ht k = None"
    "slots_distinct (eq_fn ht) ss"
  shows "table_shape (rehash ht ss) \<and> capacity (rehash ht ss) = capacity ht \<and>
    tombstones (rehash ht ss) = 0 \<and> hash_fn (rehash ht ss) = hash_fn ht \<and> eq_fn (rehash ht ss) = eq_fn ht \<and>
    count (rehash ht ss) = count ht + length (filter is_used ss) \<and>
    ht_entry (rehash ht ss) k = (case slots_entry (eq_fn ht) ss k of Some v \<Rightarrow> Some v | None \<Rightarrow> ht_entry ht k)"
  using assms
proof (induction ss arbitrary: ht)
  case Nil
  then show ?case by simp
next
  case (Cons s ss)
  show ?case
  proof (cases "is_used s")
    case False
    then have "rehash ht (s # ss) = rehash ht ss"
      by (auto simp: is_used_def split: option.splits)
    moreover have "slots_entry eq (s # ss) k = slots_entry eq ss k" for eq k
      using False by (auto simp: is_used_def slot_holds_def split: option.splits)
    ultimately show ?thesis
      using Cons.prems Cons.IH [of ht] False slots_distinct_tl [OF Cons.prems(6)] by simp
  next
    case True
    with Cons.prems(4) obtain k0 where k0: "slot_key s = Some k0" by auto
    obtain ht' ok where ins: "insert_no_resize ht k0 (slot_value s) = (ht', ok)" by fastforce
    have load: "count ht + tombstones ht < capacity ht" using Cons.prems True by simp
    note ok = insert_no_resize_ok [OF Cons.prems(1) load ins]
    have holds: "slot_holds (eq_fn ht) s k \<longleftrightarrow> eq_fn ht k0 k" for k
      using True k0 by (simp add: slot_holds_def is_used_def)
    then have new: "ht_entry ht k0 = None"
      using Cons.prems(5) shape_eq_refl [OF Cons.prems(1), of k0] by (auto split: option.splits)
    have disj: "slots_entry (eq_fn ht) ss k \<noteq> None \<Longrightarrow> \<not> eq_fn ht k0 k" for k
      using slots_distinct_hd [OF Cons.prems(6)] holds by blast
    have "slots_entry (eq_fn ht) ss k \<noteq> None \<longrightarrow> ht_entry ht' k = None" for k
      using disj [of k] Cons.prems(5) ok(7) [of k] by auto
    then have "table_shape (rehash ht' ss) \<and> capacity (rehash ht' ss) = capacity ht' \<and>
      tombstones (rehash ht' ss) = 0 \<and> hash_fn (rehash ht' ss) = hash_fn ht' \<and> eq_fn (rehash ht' ss) = eq_fn ht' \<and>
      count (rehash ht' ss) = count ht' + length (filter is_used ss) \<and>
      ht_entry (rehash ht' ss) k = (case slots_entry (eq_fn ht') ss k of Some v \<Rightarrow> Some v | None \<Rightarrow> ht_entry ht' k)"
      using Cons.prems(2-4) ok True new slots_distinct_tl [OF Cons.prems(6)] by (intro Cons.IH) auto
    moreover have "rehash ht (s # ss) = rehash ht' ss"
      using k0 True ins by (simp add: is_used_def)
    ultimately show ?thesis
      using ok new True holds disj [of k] by (auto split: option.splits)
  qed
qed

text \<open>A freshly allocated table is empty.\<close>

lemma fresh_shape:
  assumes "key_contract h e" "4 \<le> j" "(2::nat) ^ j * 24 < U64"
  defines "ht \<equiv> \<lparr>slots = replicate (2 ^ j) empty_slot, capacity = 2 ^ j, count = 0, tombstones = 0,
    hash_fn = h, eq_fn = e\<rparr>"
  shows "table_shape ht" "ht_entry ht k = None"
proof -
  have slot: "slots ht ! i = empty_slot" if "i < 2 ^ j" for i using that by (simp add: ht_def)
  have "filter is_used (slots ht) = []" "filter is_tombstone (slots ht) = []"
    by (simp_all add: ht_def is_used_def is_tombstone_def empty_slot_def)
  then show "table_shape ht"
    using assms by (intro table_shapeI) (auto simp: ht_def slot empty_slot_def slot_holds_def)
  show "ht_entry ht k = None"
    by (auto simp: ht_entry_None ht_def empty_slot_def slot_holds_def)
qed

lemma wf_shape [httpd_wf]: "ht_wf ht \<Longrightarrow> table_shape ht"
  by (simp add: ht_wf_def)

lemma wf_load [httpd_wf]:
  assumes "ht_wf ht"
  shows "(count ht + tombstones ht) * 10 \<le> capacity ht * 7" "count ht + tombstones ht < capacity ht"
  using assms cap_pos [of ht] by (simp_all add: ht_wf_def)

lemma shape_slots_distinct: "table_shape ht \<Longrightarrow> slots_distinct (eq_fn ht) (slots ht)"
  unfolding slots_distinct_def using shape_unique shape_length by metis

lemma resize_ok:
  assumes wf: "ht_wf ht" and res: "resize ok ht (u64 (capacity ht * 2)) = (ht', True)"
  shows "table_shape ht'" "capacity ht' = capacity ht * 2" "tombstones ht' = 0" "count ht' = count ht"
    "hash_fn ht' = hash_fn ht" "eq_fn ht' = eq_fn ht" "ht_entry ht' k = ht_entry ht k"
proof -
  note shape = wf_shape [OF wf]
  obtain j where j: "4 \<le> j" "capacity ht = 2 ^ j" using shape_pow2 [OF shape] by blast
  have cap: "u64 (capacity ht * 2) = 2 ^ Suc j" using shape_bytes [OF shape] j by simp
  let ?fresh = "ht\<lparr>slots := replicate (2 ^ Suc j) empty_slot, capacity := 2 ^ Suc j, count := 0, tombstones := 0\<rparr>"
  from res cap have bytes: "(2::nat) ^ Suc j * 24 < U64" and ht': "ht' = rehash ?fresh (slots ht)"
    using shape_length [OF shape]
    by (auto simp: resize_def calloc_slots_def split: if_splits)
  have feq: "?fresh = \<lparr>slots = replicate (2 ^ Suc j) empty_slot, capacity = 2 ^ Suc j, count = 0,
      tombstones = 0, hash_fn = hash_fn ht, eq_fn = eq_fn ht\<rparr>" by (cases ht) simp
  have fresh: "table_shape ?fresh" "ht_entry ?fresh k = None" for k
    unfolding feq using fresh_shape [OF shape_contract [OF shape] _ bytes] j(1) by auto
  have "length (filter is_used (slots ht)) < 2 ^ Suc j"
    using wf_load(2) [OF wf] shape_count [OF shape] j by simp
  moreover have "slot_key s \<noteq> None" if "s \<in> set (slots ht)" "is_used s" for s
    using that shape_key [OF shape] shape_length [OF shape] by (auto simp: in_set_conv_nth is_used_def)
  ultimately have "table_shape ht' \<and> capacity ht' = 2 ^ Suc j \<and> tombstones ht' = 0 \<and>
      hash_fn ht' = hash_fn ht \<and> eq_fn ht' = eq_fn ht \<and> count ht' = length (filter is_used (slots ht)) \<and>
      ht_entry ht' k = slots_entry (eq_fn ht) (slots ht) k"
    using rehash_ok [of ?fresh "slots ht" k] fresh shape_slots_distinct [OF shape] ht'
    by (auto split: option.splits)
  moreover have "slots_entry (eq_fn ht) (slots ht) k = ht_entry ht k"
    using slots_entry_find [OF shape_slots_distinct [OF shape]] by (simp add: ht_entry_def)
  ultimately show "table_shape ht'" "capacity ht' = capacity ht * 2" "tombstones ht' = 0" "count ht' = count ht"
    "hash_fn ht' = hash_fn ht" "eq_fn ht' = eq_fn ht" "ht_entry ht' k = ht_entry ht k"
    using shape_count [OF shape] j by simp_all
qed

lemma resize_fail: "resize ok ht n = (ht', False) \<Longrightarrow> ht' = ht"
  by (auto simp: resize_def split: option.splits)

text \<open>When the load limit forces the table to grow, and what growth needs.\<close>

definition must_grow :: "('k, 'v) hash_table \<Rightarrow> bool" where
  "must_grow ht \<longleftrightarrow> (count ht + tombstones ht + 1) * 10 > capacity ht * 7"

lemma ht_insert_unfold:
  assumes wf: "ht_wf ht"
  shows "ht_insert ok ht k v =
    (if must_grow ht then case resize ok ht (u64 (capacity ht * 2)) of
        (ht', True) \<Rightarrow> insert_no_resize ht' k v | (ht', False) \<Rightarrow> (ht', False)
     else insert_no_resize ht k v)"
proof -
  have "capacity ht * 24 < U64" using shape_bytes wf_shape [OF wf] by blast
  then have "u64 (capacity ht * 7) = capacity ht * 7"
    "u64 (u64 (count ht + tombstones ht + 1) * 10) = (count ht + tombstones ht + 1) * 10"
    using wf_load [OF wf] by (simp_all add: u64_def)
  then show ?thesis by (simp add: ht_insert_def must_grow_def)
qed

lemma ht_insert_True:
  assumes wf: "ht_wf ht" and ins: "ht_insert ok ht k v = (ht', True)"
  shows "ht_wf ht'" "eq_fn ht' = eq_fn ht" "hash_fn ht' = hash_fn ht"
    "ht_entry ht' k' = (if eq_fn ht k k' then Some v else ht_entry ht k')"
    "count ht' = (if ht_entry ht k = None then Suc (count ht) else count ht)"
    "capacity ht' = (if must_grow ht then capacity ht * 2 else capacity ht)"
    "tombstones ht' = (if must_grow ht then 0 else tombstones ht)"
proof -
  obtain h where h: "table_shape h" "count h + tombstones h < capacity h" "insert_no_resize h k v = (ht', True)"
    "(count h + tombstones h + 1) * 10 \<le> capacity h * 7" "eq_fn h = eq_fn ht" "hash_fn h = hash_fn ht"
    "\<And>k. ht_entry h k = ht_entry ht k" "count h = count ht"
    "capacity h = (if must_grow ht then capacity ht * 2 else capacity ht)"
    "tombstones h = (if must_grow ht then 0 else tombstones ht)"
  proof (cases "must_grow ht")
    case True
    with ins obtain h where h: "resize ok ht (u64 (capacity ht * 2)) = (h, True)" "insert_no_resize h k v = (ht', True)"
      by (auto simp: ht_insert_unfold [OF wf] split: prod.splits bool.splits)
    show ?thesis
      using resize_ok [OF wf h(1)] h(2) wf_load [OF wf] cap_ge [OF wf_shape [OF wf]] True
      by (intro that [of h]) auto
  next
    case False
    with ins show ?thesis
      using wf_shape [OF wf] wf_load [OF wf] by (intro that [of ht]) (auto simp: ht_insert_unfold [OF wf] must_grow_def)
  qed
  note ok = insert_no_resize_ok [OF h(1-3)]
  show "ht_wf ht'" using ok h(4) by (auto simp: ht_wf_def)
  show "eq_fn ht' = eq_fn ht" "hash_fn ht' = hash_fn ht"
    "ht_entry ht' k' = (if eq_fn ht k k' then Some v else ht_entry ht k')"
    "count ht' = (if ht_entry ht k = None then Suc (count ht) else count ht)"
    "capacity ht' = (if must_grow ht then capacity ht * 2 else capacity ht)"
    "tombstones ht' = (if must_grow ht then 0 else tombstones ht)"
    using ok h by simp_all
qed

lemma ht_insert_False:
  assumes wf: "ht_wf ht" and ins: "ht_insert ok ht k v = (ht', False)"
  shows "ht' = ht" "must_grow ht" "calloc_slots ok (capacity ht * 2) = (None :: ('k, 'v) ht_slot list option)"
proof -
  have yes: "b" if "table_shape h" "count h + tombstones h < capacity h" "insert_no_resize h k v = (h', b)" for h h' b
    by (rule insert_no_resize_ok(1) [OF that])
  show grow: "must_grow ht"
  proof (rule ccontr)
    assume "\<not> must_grow ht"
    with ins have "insert_no_resize ht k v = (ht', False)" by (simp add: ht_insert_unfold [OF wf])
    from yes [OF wf_shape [OF wf] wf_load(2) [OF wf] this] show False .
  qed
  have "resize ok ht (u64 (capacity ht * 2)) = (ht', False)"
  proof (cases "resize ok ht (u64 (capacity ht * 2))")
    case (Pair h b)
    show ?thesis
    proof (cases b)
      case True
      with Pair have "resize ok ht (u64 (capacity ht * 2)) = (h, True)" by simp
      note r = resize_ok [OF wf this]
      have "count h + tombstones h < capacity h" using r wf_load(2) [OF wf] by simp
      with yes [OF r(1)] ins grow Pair True show ?thesis by (auto simp: ht_insert_unfold [OF wf])
    next
      case False
      with ins grow Pair show ?thesis by (simp add: ht_insert_unfold [OF wf])
    qed
  qed
  then show "ht' = ht" "calloc_slots ok (capacity ht * 2) = (None :: ('k, 'v) ht_slot list option)"
    using shape_bytes [OF wf_shape [OF wf]]
    by (auto simp: resize_def calloc_slots_def split: option.splits if_splits)
qed

lemma ht_entry_eq:
  assumes "table_shape ht" "eq_fn ht k k'"
  shows "ht_entry ht k = ht_entry ht k'"
proof -
  have "slot_holds (eq_fn ht) s k \<longleftrightarrow> slot_holds (eq_fn ht) s k'" for s :: "('a, 'b) ht_slot"
    using shape_holds_eq [OF assms(1) _ assms(2)] shape_holds_eq [OF assms(1) _ shape_eq_sym [OF assms]]
    by blast
  then show ?thesis unfolding ht_entry_def by simp
qed

lemma bury_shape:
  assumes shape: "table_shape ht" and i: "i < capacity ht" "holds_at ht i k"
    and tombs: "tombstones ht + 1 < U64"
  defines "ht' \<equiv> ht\<lparr>slots := (slots ht)[i := \<lparr>slot_key = None, slot_value = None, slot_state = HT_TOMBSTONE\<rparr>],
      count := u64_sub (count ht) 1, tombstones := u64 (tombstones ht + 1)\<rparr>"
  shows "table_shape ht'" "count ht' = count ht - 1" "0 < count ht"
proof -
  have i': "i < length (slots ht)" using i shape_length [OF shape] by simp
  have slot: "slots ht' ! j = (if j = i then \<lparr>slot_key = None, slot_value = None, slot_state = HT_TOMBSTONE\<rparr>
      else slots ht ! j)" for j using i' by (simp add: ht'_def)
  have fields: "capacity ht' = capacity ht" "hash_fn ht' = hash_fn ht" "eq_fn ht' = eq_fn ht"
    "probe ht' k n = probe ht k n" "tombstones ht' = tombstones ht + 1" for k n
    using tombs by (simp_all add: ht'_def probe_def)
  have used: "length (filter is_used (slots ht')) + 1 = length (filter is_used (slots ht))"
    using length_filter_update [OF i', of is_used] i(2) by (simp add: ht'_def is_used_def slot_holds_def)
  have tomb: "length (filter is_tombstone (slots ht')) = length (filter is_tombstone (slots ht)) + 1"
    using length_filter_update [OF i', of is_tombstone] i(2) by (simp add: ht'_def is_tombstone_def slot_holds_def)
  show pos: "0 < count ht" unfolding shape_count [OF shape] used [symmetric] by simp
  then show cnt: "count ht' = count ht - 1"
    using count_less_U64 [OF shape] by (simp add: ht'_def u64_sub_ge)
  show "table_shape ht'"
  proof (rule table_shapeI)
    fix a b k'
    assume "a < capacity ht'" "b < capacity ht'" "holds_at ht' a k'" "holds_at ht' b k'"
    then show "a = b"
      using shape_unique [OF shape, of a b k'] by (auto simp: slot fields split: if_splits)
  next
    fix a k'
    assume "a < capacity ht'" "holds_at ht' a k'"
    then show "\<exists>n < capacity ht'. probe ht' k' n = a \<and> (\<forall>m < n. state_at ht' (probe ht' k' m) \<noteq> HT_EMPTY)"
      using shape_reach [OF shape, of a k'] by (auto simp: slot fields split: if_splits)
  next
    fix a
    assume "a < capacity ht'" "state_at ht' a = HT_USED"
    then show "slot_key (slots ht' ! a) \<noteq> None"
      using shape_key [OF shape, of a] by (auto simp: slot fields split: if_splits)
  next
    show "count ht' = length (filter is_used (slots ht'))"
      using cnt used shape_count [OF shape] by simp
  next
    show "length (filter is_tombstone (slots ht')) \<le> tombstones ht'"
      using tomb shape_tombs [OF shape] fields(5) by simp
  next
    show "length (slots ht') = capacity ht'" using shape_length [OF shape] by (simp add: ht'_def)
  qed (use shape in \<open>simp_all add: fields table_shapeD\<close>)
qed

lemma bury_entry:
  assumes shape: "table_shape ht" and i: "i < capacity ht" "holds_at ht i k" and tombs: "tombstones ht + 1 < U64"
  defines "ht' \<equiv> ht\<lparr>slots := (slots ht)[i := \<lparr>slot_key = None, slot_value = None, slot_state = HT_TOMBSTONE\<rparr>],
      count := u64_sub (count ht) 1, tombstones := u64 (tombstones ht + 1)\<rparr>"
  shows "ht_entry ht' k' = (if eq_fn ht k k' then None else ht_entry ht k')"
proof (rule option_eqI_Some)
  fix w
  note sh' = bury_shape(1) [OF shape i tombs, folded ht'_def]
  have i': "i < length (slots ht)" using i shape_length [OF shape] by simp
  have holds: "holds_at ht' j k' \<longleftrightarrow> j \<noteq> i \<and> holds_at ht j k'" for j using i' by (auto simp: ht'_def nth_list_update)
  have hi: "holds_at ht i k' \<longleftrightarrow> eq_fn ht k k'"
    using shape_holds_both [OF shape i(2)] shape_holds_eq [OF shape i(2)] by blast
  have uniq: "j = i" if "holds_at ht j k'" "j < capacity ht" "eq_fn ht k k'" for j
    using that hi shape_unique [OF shape that(2) i(1) that(1)] by blast
  have "j < capacity ht' \<and> (j \<noteq> i \<and> holds_at ht j k') \<and> slot_value (slots ht' ! j) = w \<longleftrightarrow>
      \<not> eq_fn ht k k' \<and> j < capacity ht \<and> holds_at ht j k' \<and> slot_value (slots ht ! j) = w" for j
    using hi uniq [of j] by (cases "j = i") (auto simp: ht'_def)
  then show "ht_entry ht' k' = Some w \<longleftrightarrow> (if eq_fn ht k k' then None else ht_entry ht k') = Some w"
    by (simp add: ht_entry_Some [OF shape] ht_entry_Some [OF sh'] holds)
qed

lemma ht_remove_ok:
  assumes wf: "ht_wf ht" and rem: "ht_remove ht k = (ht', b)"
  shows "ht_wf ht'" "eq_fn ht' = eq_fn ht" "hash_fn ht' = hash_fn ht" "capacity ht' = capacity ht"
    "b \<longleftrightarrow> ht_entry ht k \<noteq> None"
    "ht_entry ht' k' = (if eq_fn ht k k' then None else ht_entry ht k')"
    "count ht' = (if ht_entry ht k = None then count ht else count ht - 1)"
    "tombstones ht' = (if ht_entry ht k = None then tombstones ht else tombstones ht + 1)"
proof -
  note shape = wf_shape [OF wf]
  have "ht_wf ht' \<and> eq_fn ht' = eq_fn ht \<and> hash_fn ht' = hash_fn ht \<and> capacity ht' = capacity ht \<and>
    (b \<longleftrightarrow> ht_entry ht k \<noteq> None) \<and> ht_entry ht' k' = (if eq_fn ht k k' then None else ht_entry ht k') \<and>
    count ht' = (if ht_entry ht k = None then count ht else count ht - 1) \<and>
    tombstones ht' = (if ht_entry ht k = None then tombstones ht else tombstones ht + 1)"
  proof (cases "ht_entry ht k")
    case None
    with rem have "ht' = ht" "\<not> b"
      using find_key_entry(1) [OF shape, of k] by (simp_all add: ht_remove_def)
    with None wf show ?thesis using ht_entry_eq [OF shape] by auto
  next
    case (Some v)
    define i where "i = find_key ht k"
    have i: "i < capacity ht" "holds_at ht i k" "i \<noteq> SIZE_MAX"
      using find_key_entry [OF shape, of k] Some by (auto simp: i_def)
    have tombs: "tombstones ht + 1 < U64" using wf_load(2) [OF wf] shape_bytes [OF shape] by simp
    from rem i(3) have ht': "ht' = ht\<lparr>slots := (slots ht)[i := \<lparr>slot_key = None, slot_value = None, slot_state = HT_TOMBSTONE\<rparr>],
        count := u64_sub (count ht) 1, tombstones := u64 (tombstones ht + 1)\<rparr>" and b: "b"
      by (auto simp: ht_remove_def i_def Let_def)
    note sh' = bury_shape [OF shape i(1,2) tombs, folded ht']
    have "ht_entry ht' k' = (if eq_fn ht k k' then None else ht_entry ht k')"
      using bury_entry [OF shape i(1,2) tombs, folded ht'] .
    with Some b sh' wf_load(1) [OF wf] tombs show ?thesis by (auto simp: ht_wf_def ht')
  qed
  then show "ht_wf ht'" "eq_fn ht' = eq_fn ht" "hash_fn ht' = hash_fn ht" "capacity ht' = capacity ht"
    "b \<longleftrightarrow> ht_entry ht k \<noteq> None"
    "ht_entry ht' k' = (if eq_fn ht k k' then None else ht_entry ht k')"
    "count ht' = (if ht_entry ht k = None then count ht else count ht - 1)"
    "tombstones ht' = (if ht_entry ht k = None then tombstones ht else tombstones ht + 1)" by blast+
qed

section \<open>The key/value interface\<close>

text \<open>
  What a client of the table may rely on, without its slots: an invariant, the map of live
  bindings, and how a successful or failed insertion and a removal change them.
\<close>

locale kv_store =
  fixes invar :: "'s \<Rightarrow> bool"
    and entry :: "'s \<Rightarrow> 'k \<Rightarrow> 'v option option"
    and same :: "'s \<Rightarrow> 'k \<Rightarrow> 'k \<Rightarrow> bool"
    and insert :: "bool \<Rightarrow> 's \<Rightarrow> 'k \<Rightarrow> 'v option \<Rightarrow> 's \<times> bool"
    and remove :: "'s \<Rightarrow> 'k \<Rightarrow> 's \<times> bool"
    and lookup :: "'s \<Rightarrow> 'k \<Rightarrow> 'v option"
    and size :: "'s \<Rightarrow> nat"
  assumes same_refl: "invar s \<Longrightarrow> same s k k"
    and same_entry: "invar s \<Longrightarrow> same s k k' \<Longrightarrow> entry s k = entry s k'"
    and lookup_entry: "invar s \<Longrightarrow> lookup s k = (case entry s k of None \<Rightarrow> None | Some v \<Rightarrow> v)"
    and insert_True: "invar s \<Longrightarrow> insert ok s k v = (s', True) \<Longrightarrow>
      invar s' \<and> same s' = same s \<and> entry s' = (\<lambda>k'. if same s k k' then Some v else entry s k') \<and>
      size s' = (if entry s k = None then Suc (size s) else size s)"
    and insert_False: "invar s \<Longrightarrow> insert ok s k v = (s', False) \<Longrightarrow> s' = s"
    and remove: "invar s \<Longrightarrow> remove s k = (s', b) \<Longrightarrow>
      invar s' \<and> same s' = same s \<and> entry s' = (\<lambda>k'. if same s k k' then None else entry s k') \<and>
      b = (entry s k \<noteq> None) \<and> size s' = (if entry s k = None then size s else size s - 1)"
begin

lemma lookup_insert_same:
  assumes "invar s" "insert ok s k v = (s', True)"
  shows "lookup s' k = v"
  using insert_True [OF assms] lookup_entry [of s' k] same_refl [OF assms(1)] by simp

lemma lookup_insert_other:
  assumes "invar s" "insert ok s k v = (s', b)" "\<not> same s k k'"
  shows "lookup s' k' = lookup s k'"
proof (cases b)
  case True
  with assms(2) have "insert ok s k v = (s', True)" by simp
  from insert_True [OF assms(1) this] show ?thesis
    using assms(3) lookup_entry [OF assms(1)] lookup_entry [of s'] by simp
next
  case False
  with assms(2) have "insert ok s k v = (s', False)" by simp
  from insert_False [OF assms(1) this] show ?thesis by simp
qed

lemma lookup_remove:
  assumes "invar s" "remove s k = (s', b)"
  shows "lookup s' k' = (if same s k k' then None else lookup s k')"
  using remove [OF assms] lookup_entry [OF assms(1)] lookup_entry [of s'] by simp

lemma remove_insert_new:
  assumes "invar s" "entry s k = None" "insert ok s k v = (s1, True)" "remove s1 k = (s2, b)"
  shows "b" "entry s2 = entry s" "size s2 = size s"
proof -
  note ins = insert_True [OF assms(1,3)]
  then have "invar s1" by blast
  note rem = remove [OF this assms(4)]
  have "entry s k' = None" if "same s k k'" for k'
    using same_entry [OF assms(1) that] assms(2) by simp
  with ins rem show "entry s2 = entry s" by (auto simp: fun_eq_iff)
  show "b" "size s2 = size s" using ins rem assms(2) same_refl [OF assms(1)] by simp_all
qed

text \<open>Size counts the live bindings as operations add and drop them.\<close>

lemma size_insert_new:
  "invar s \<Longrightarrow> entry s k = None \<Longrightarrow> insert ok s k v = (s', True) \<Longrightarrow> size s' = Suc (size s)"
  using insert_True by simp

end

text \<open>A history of calls, and the map it leaves: the abstract counterpart of a run.\<close>

datatype ('k, 'v) kv_call = Insert bool 'k "'v option" | Remove 'k

fun ht_call :: "('k, 'v) hash_table \<Rightarrow> ('k, 'v) kv_call \<Rightarrow> ('k, 'v) hash_table \<times> bool" where
  "ht_call ht (Insert ok k v) = ht_insert ok ht k v"
| "ht_call ht (Remove k) = ht_remove ht k"

fun ht_calls :: "('k, 'v) hash_table \<Rightarrow> ('k, 'v) kv_call list \<Rightarrow> ('k, 'v) hash_table \<times> bool list" where
  "ht_calls ht [] = (ht, [])"
| "ht_calls ht (c # cs) =
     (let (ht1, b) = ht_call ht c; (ht2, bs) = ht_calls ht1 cs in (ht2, b # bs))"

fun map_call ::
  "('k \<Rightarrow> 'k \<Rightarrow> bool) \<Rightarrow> ('k, 'v) kv_call \<Rightarrow> bool \<Rightarrow> ('k \<Rightarrow> 'v option option) \<Rightarrow> 'k \<Rightarrow> 'v option option"
where
  "map_call eq (Insert ok k v) b m = (if b then (\<lambda>k'. if eq k k' then Some v else m k') else m)"
| "map_call eq (Remove k) b m = (\<lambda>k'. if eq k k' then None else m k')"

fun map_calls ::
  "('k \<Rightarrow> 'k \<Rightarrow> bool) \<Rightarrow> ('k, 'v) kv_call list \<Rightarrow> bool list \<Rightarrow> ('k \<Rightarrow> 'v option option) \<Rightarrow> 'k \<Rightarrow> 'v option option"
where
  "map_calls eq (c # cs) (b # bs) m = map_calls eq cs bs (map_call eq c b m)"
| "map_calls eq _ _ m = m"

interpretation hts: kv_store ht_wf ht_entry eq_fn ht_insert ht_remove ht_lookup ht_size
proof
  fix s :: "('k, 'v) hash_table" and k k' v ok s' b
  assume wf: "ht_wf s"
  show "eq_fn s k k" by (rule shape_eq_refl [OF wf_shape [OF wf]])
  show "eq_fn s k k' \<Longrightarrow> ht_entry s k = ht_entry s k'" by (rule ht_entry_eq [OF wf_shape [OF wf]])
  show "ht_lookup s k = (case ht_entry s k of None \<Rightarrow> None | Some v \<Rightarrow> v)"
    by (rule ht_lookup_entry [OF wf_shape [OF wf]])
  show "ht_insert ok s k v = (s', True) \<Longrightarrow> ht_wf s' \<and> eq_fn s' = eq_fn s \<and>
      ht_entry s' = (\<lambda>k'. if eq_fn s k k' then Some v else ht_entry s k') \<and>
      ht_size s' = (if ht_entry s k = None then Suc (ht_size s) else ht_size s)"
    using ht_insert_True [OF wf] by (simp add: ht_size_def fun_eq_iff)
  show "ht_insert ok s k v = (s', False) \<Longrightarrow> s' = s" by (rule ht_insert_False(1) [OF wf])
  show "ht_remove s k = (s', b) \<Longrightarrow> ht_wf s' \<and> eq_fn s' = eq_fn s \<and>
      ht_entry s' = (\<lambda>k'. if eq_fn s k k' then None else ht_entry s k') \<and>
      b = (ht_entry s k \<noteq> None) \<and>
      ht_size s' = (if ht_entry s k = None then ht_size s else ht_size s - 1)"
    using ht_remove_ok [OF wf, of k s' b] by (simp add: ht_size_def fun_eq_iff)
qed

lemma ht_call_refines:
  assumes "ht_wf ht" "ht_call ht c = (ht', b)"
  shows "ht_wf ht'" "eq_fn ht' = eq_fn ht" "ht_entry ht' = map_call (eq_fn ht) c b (ht_entry ht)"
proof -
  have "ht_wf ht' \<and> eq_fn ht' = eq_fn ht \<and> ht_entry ht' = map_call (eq_fn ht) c b (ht_entry ht)"
  proof (cases c)
    case (Insert ok k v)
    show ?thesis
    proof (cases b)
      case True
      with assms Insert have "ht_insert ok ht k v = (ht', True)" by simp
      from hts.insert_True [OF assms(1) this] True Insert show ?thesis by simp
    next
      case False
      with assms Insert have "ht_insert ok ht k v = (ht', False)" by simp
      from hts.insert_False [OF assms(1) this] False Insert assms(1) show ?thesis by simp
    qed
  next
    case (Remove k)
    with assms have "ht_remove ht k = (ht', b)" by simp
    from hts.remove [OF assms(1) this] Remove show ?thesis by simp
  qed
  then show "ht_wf ht'" "eq_fn ht' = eq_fn ht" "ht_entry ht' = map_call (eq_fn ht) c b (ht_entry ht)"
    by blast+
qed

lemma ht_calls_refine:
  assumes "ht_wf ht" "ht_calls ht cs = (ht', bs)"
  shows "ht_wf ht' \<and> eq_fn ht' = eq_fn ht \<and> ht_entry ht' = map_calls (eq_fn ht) cs bs (ht_entry ht)"
  using assms
proof (induction cs arbitrary: ht bs)
  case Nil
  then show ?case by simp
next
  case (Cons c cs)
  obtain ht1 b where c: "ht_call ht c = (ht1, b)" by fastforce
  obtain bs' where "ht_calls ht1 cs = (ht', bs')" "bs = b # bs'"
    using Cons.prems(2) c by (auto split: prod.splits)
  then show ?case using Cons.IH ht_call_refines [OF Cons.prems(1) c] by auto
qed

section \<open>Properties\<close>

definition empty_table :: "('k \<Rightarrow> 64 word) \<Rightarrow> ('k \<Rightarrow> 'k \<Rightarrow> bool) \<Rightarrow> nat \<Rightarrow> ('k, 'v) hash_table" where
  "empty_table h e c = \<lparr>slots = replicate c empty_slot, capacity = c, count = 0, tombstones = 0,
     hash_fn = h, eq_fn = e\<rparr>"

lemma empty_table_wf:
  assumes "key_contract h e" "4 \<le> j" "(2::nat) ^ j * 24 < U64"
  shows "ht_wf (empty_table h e (2 ^ j))" "ht_entry (empty_table h e (2 ^ j)) k = None"
  using fresh_shape [OF assms] by (simp_all add: ht_wf_def empty_table_def)

lemma equality_contract: "key_contract h (=)"
  by unfold_locales auto

lemma small_table_wf: "ht_wf (empty_table h (=) 16)"
  using empty_table_wf(1) [OF equality_contract, of 4 h] by simp

lemma small_table_empty: "\<not> ht_contains (empty_table h (=) 16) k"
  using empty_table_wf(2) [OF equality_contract, of 4 h k]
  by (simp add: ht_contains_entry wf_shape small_table_wf)

text \<open>Initialising a table with non-NULL callbacks that satisfy the contract and a request
  of at most \<open>2 ^ 63\<close> returns: it fails exactly when the slot array cannot be allocated, and
  otherwise gives a well-formed empty table whose capacity is the rounded-up request.\<close>

theorem ht_init_spec:
  assumes "key_contract h e" "cap \<le> 2 ^ 63"
  shows "\<exists>c. next_power_of_two cap = Some c \<and> cap \<le> c \<and>
    (ht_init ok True cap (Some h) (Some e) :: ('k, 'v) hash_table option option) =
      Some (if ok \<and> c * 24 < U64 then Some (empty_table h e c) else None) \<and>
    (c * 24 < U64 \<longrightarrow> ht_wf (empty_table h e c :: ('k, 'v) hash_table) \<and>
      (\<forall>k. \<not> ht_contains (empty_table h e c :: ('k, 'v) hash_table) k))"
proof -
  obtain j where j: "4 \<le> j" "next_power_of_two cap = Some (2 ^ j)" "cap \<le> 2 ^ j"
    using next_power_loop_pow [of 4 cap] assms(2) by (auto simp: next_power_of_two_def)
  have wf: "ht_wf (empty_table h e (2 ^ j) :: ('k, 'v) hash_table)"
    "ht_entry (empty_table h e (2 ^ j) :: ('k, 'v) hash_table) k = None"
    if "(2::nat) ^ j * 24 < U64" for k using empty_table_wf [OF assms(1) j(1) that] .
  show ?thesis
    using j wf
    by (intro exI [of _ "2 ^ j"])
      (auto simp: ht_init_def calloc_slots_def ht_contains_entry wf_shape empty_table_def)
qed

theorem ht_init_spec_witness:
  "key_contract (\<lambda>n::nat. of_nat n) (=) \<and> (20::nat) \<le> 2 ^ 63 \<and>
   (\<exists>ht. (ht_init True True 20 (Some (\<lambda>n::nat. of_nat n)) (Some (=)) :: (nat, nat) hash_table option option)
      = Some (Some ht) \<and> ht_wf ht \<and> ht_capacity ht = 32)"
proof -
  have "next_power_of_two 20 = Some 32" by (simp add: next_power_of_two_def next_power_loop.simps)
  with ht_init_spec [where ?'v = nat, OF equality_contract, of 20 True "\<lambda>n::nat. of_nat n"]
  show ?thesis
    using equality_contract [of "\<lambda>n::nat. of_nat n"] by (auto simp: ht_capacity_def empty_table_def)
qed

text \<open>C32. Insertion into a well-formed table keeps it well-formed. It fails only when the load
  limit forces growth and the larger slot array cannot be allocated, and then the table is
  unchanged; on success the key is bound to the new value, every other key keeps its value,
  and the size grows by one exactly when the key was absent.\<close>

theorem ht_insert_spec:
  assumes "ht_wf ht" "ht_insert ok ht k v = (ht', b)"
  shows "ht_wf ht' \<and>
    (b \<longleftrightarrow> \<not> must_grow ht \<or> (ok \<and> ht_capacity ht * 2 * 24 < U64)) \<and>
    (if b then
       (\<forall>k'. ht_lookup ht' k' = (if eq_fn ht k k' then v else ht_lookup ht k')) \<and>
       (\<forall>k'. ht_contains ht' k' \<longleftrightarrow> eq_fn ht k k' \<or> ht_contains ht k') \<and>
       ht_size ht' = (if ht_contains ht k then ht_size ht else ht_size ht + 1) \<and>
       ht_capacity ht' = (if must_grow ht then ht_capacity ht * 2 else ht_capacity ht)
     else ht' = ht)"
proof (cases b)
  case True
  with assms(2) have ins: "ht_insert ok ht k v = (ht', True)" by simp
  note ok = ht_insert_True [OF assms(1) ins]
  have grow: "ok \<and> capacity ht * 2 * 24 < U64" if "must_grow ht"
    using ins that shape_bytes [OF wf_shape [OF assms(1)]]
    by (auto simp: ht_insert_unfold [OF assms(1)] resize_def calloc_slots_def split: if_splits)
  show ?thesis
    using True ok grow ht_lookup_entry [OF wf_shape [OF ok(1)]] ht_lookup_entry [OF wf_shape [OF assms(1)]]
      ht_contains_entry [OF wf_shape [OF ok(1)]] ht_contains_entry [OF wf_shape [OF assms(1)]]
    by (auto simp: ht_size_def ht_capacity_def)
next
  case False
  with assms(2) have "ht_insert ok ht k v = (ht', False)" by simp
  with assms(1) ht_insert_False [OF assms(1) this] False show ?thesis
    by (auto simp: calloc_slots_def ht_capacity_def split: if_splits)
qed

theorem ht_insert_spec_witness:
  "\<exists>ht'. ht_insert True (empty_table (\<lambda>n::nat. of_nat n) (=) 16) 5 (Some ''v'') = (ht', True) \<and>
     ht_wf ht' \<and> ht_lookup ht' 5 = Some ''v'' \<and> ht_size ht' = 1"
proof -
  obtain ht' b where ins: "ht_insert True (empty_table (\<lambda>n::nat. of_nat n) (=) 16) 5 (Some ''v'') = (ht', b)"
    by fastforce
  have "\<not> must_grow (empty_table (\<lambda>n::nat. of_nat n) (=) 16 :: (nat, string) hash_table)"
    "ht_size (empty_table (\<lambda>n::nat. of_nat n) (=) 16 :: (nat, string) hash_table) = 0"
    "eq_fn (empty_table (\<lambda>n::nat. of_nat n) (=) 16 :: (nat, string) hash_table) = (=)"
    by (auto simp: must_grow_def empty_table_def ht_size_def)
  with ht_insert_spec [OF small_table_wf ins] ins show ?thesis by (auto simp: small_table_empty)
qed

text \<open>Removal from a well-formed table keeps it well-formed, reports whether the key was
  bound, unbinds exactly the keys equal to it, and drops the size by one when it was bound;
  the capacity never changes.\<close>

theorem ht_remove_spec:
  assumes "ht_wf ht" "ht_remove ht k = (ht', b)"
  shows "ht_wf ht' \<and> b = ht_contains ht k \<and>
    (\<forall>k'. ht_lookup ht' k' = (if eq_fn ht k k' then None else ht_lookup ht k')) \<and>
    (\<forall>k'. ht_contains ht' k' \<longleftrightarrow> \<not> eq_fn ht k k' \<and> ht_contains ht k') \<and>
    ht_size ht' = (if b then ht_size ht - 1 else ht_size ht) \<and> ht_capacity ht' = ht_capacity ht"
proof -
  note ok = ht_remove_ok [OF assms]
  show ?thesis
    using ok hts.lookup_remove [OF assms] ht_contains_entry [OF wf_shape [OF ok(1)]]
      ht_contains_entry [OF wf_shape [OF assms(1)]]
    by (auto simp: ht_size_def ht_capacity_def)
qed

theorem ht_remove_spec_witness:
  "\<exists>ht'. ht_remove (empty_table (\<lambda>n::nat. of_nat n) (=) 16 :: (nat, string) hash_table) 5 = (ht', False) \<and> ht_wf ht'"
proof -
  obtain ht' b where rem: "ht_remove (empty_table (\<lambda>n::nat. of_nat n) (=) 16 :: (nat, string) hash_table) 5 = (ht', b)"
    by fastforce
  with ht_remove_spec [OF small_table_wf rem] rem show ?thesis by (auto simp: small_table_empty)
qed

text \<open>C12. Any history of insertions and removals on a well-formed table leaves the bindings that
  the same history leaves in a mathematical map, where an insertion counts when it reported
  success: lookups never see hashing, probing, tombstones or growth.\<close>

theorem ht_calls_spec:
  assumes "ht_wf ht" "ht_calls ht cs = (ht', bs)"
  shows "ht_wf ht' \<and>
    (\<forall>k. ht_lookup ht' k = (case map_calls (eq_fn ht) cs bs (ht_entry ht) k of None \<Rightarrow> None | Some v \<Rightarrow> v)) \<and>
    (\<forall>k. ht_contains ht' k \<longleftrightarrow> map_calls (eq_fn ht) cs bs (ht_entry ht) k \<noteq> None)"
  using ht_calls_refine [OF assms] ht_lookup_entry [OF wf_shape] ht_contains_entry [OF wf_shape] by metis

theorem ht_calls_spec_witness:
  "\<exists>ht' bs. ht_calls (empty_table (\<lambda>n::nat. of_nat n) (=) 16)
      [Insert True 1 (Some ''a''), Insert True 17 (Some ''b''), Remove 1] = (ht', bs) \<and> ht_wf ht' \<and>
    (\<forall>k. ht_contains ht' k \<longleftrightarrow> map_calls (=) [Insert True 1 (Some ''a''), Insert True 17 (Some ''b''), Remove 1] bs
        (ht_entry (empty_table (\<lambda>n::nat. of_nat n) (=) 16)) k \<noteq> None)"
proof -
  obtain ht' bs where "ht_calls (empty_table (\<lambda>n::nat. of_nat n) (=) 16)
      [Insert True 1 (Some ''a''), Insert True 17 (Some ''b''), Remove 1] = (ht', bs)" by fastforce
  with ht_calls_spec [OF small_table_wf this] show ?thesis by (auto simp: empty_table_def)
qed

subsection \<open>Tombstones that are reused stay counted\<close>

text \<open>One key stored and removed over and over.\<close>

fun churn :: "('k, 'v) hash_table \<Rightarrow> 'k \<Rightarrow> 'v option \<Rightarrow> nat \<Rightarrow> ('k, 'v) hash_table" where
  "churn ht k v 0 = ht"
| "churn ht k v (Suc n) = churn (fst (ht_remove (fst (ht_insert True ht k v)) k)) k v n"

lemma churn_add: "churn ht k v (m + n) = churn (churn ht k v m) k v n"
  by (induction m arbitrary: ht) simp_all

lemma churn_once:
  assumes wf: "ht_wf ht" and absent: "ht_entry ht k = None" and mem: "capacity ht * 2 * 24 < U64"
  shows "ht_wf (churn ht k v 1)" "ht_entry (churn ht k v 1) = ht_entry ht" "count (churn ht k v 1) = count ht"
    "capacity (churn ht k v 1) = (if must_grow ht then capacity ht * 2 else capacity ht)"
    "tombstones (churn ht k v 1) = (if must_grow ht then 1 else tombstones ht + 1)"
proof -
  obtain h1 b where ins: "ht_insert True ht k v = (h1, b)" by fastforce
  have b using ht_insert_False(3) [OF wf, of True k v h1] ins mem
    by (cases b) (auto simp: calloc_slots_def)
  with ins have ins: "ht_insert True ht k v = (h1, True)" by simp
  obtain h2 c where rem: "ht_remove h1 k = (h2, c)" by fastforce
  have h2: "churn ht k v 1 = h2" using ins rem by simp
  note i = ht_insert_True [OF wf ins]
  note r = ht_remove_ok [OF i(1) rem]
  note c = hts.remove_insert_new [OF wf absent ins rem]
  have "ht_entry h1 k \<noteq> None" using i(4) [of k] shape_eq_refl [OF wf_shape [OF wf]] by simp
  with h2 r i c show "ht_wf (churn ht k v 1)" "ht_entry (churn ht k v 1) = ht_entry ht"
    "count (churn ht k v 1) = count ht"
    "capacity (churn ht k v 1) = (if must_grow ht then capacity ht * 2 else capacity ht)"
    "tombstones (churn ht k v 1) = (if must_grow ht then 1 else tombstones ht + 1)"
    by (simp_all add: ht_size_def)
qed

lemma churn_doubles:
  assumes "ht_wf ht" "ht_entry ht k = None" "capacity ht * 2 * 24 < U64"
  shows "\<exists>n. capacity (churn ht k v n) = capacity ht * 2 \<and> ht_wf (churn ht k v n) \<and>
    ht_entry (churn ht k v n) = ht_entry ht \<and> count (churn ht k v n) = count ht"
  using assms
proof (induction "capacity ht * 7 - (count ht + tombstones ht) * 10" arbitrary: ht rule: less_induct)
  case less
  note c = churn_once [OF less.prems, of v]
  show ?case
  proof (cases "must_grow ht")
    case True
    with c show ?thesis by (intro exI [of _ 1]) simp
  next
    case False
    let ?h = "churn ht k v 1"
    from False have "(count ht + tombstones ht + 1) * 10 \<le> capacity ht * 7" by (simp add: must_grow_def)
    then have "capacity ?h * 7 - (count ?h + tombstones ?h) * 10 < capacity ht * 7 - (count ht + tombstones ht) * 10"
      using c(3-5) False by simp
    from less.hyps [OF this] c False less.prems obtain n where
      "capacity (churn ?h k v n) = capacity ht * 2 \<and> ht_wf (churn ?h k v n) \<and>
       ht_entry (churn ?h k v n) = ht_entry ht \<and> count (churn ?h k v n) = count ht" by auto
    then show ?thesis by (intro exI [of _ "1 + n"]) (simp only: churn_add)
  qed
qed

text \<open>C40. Storing into a reused tombstone does not take it off the tombstone counter, so the
  counter only grows until the next resize: storing and removing one and the same key often
  enough drives an empty table to any capacity that can be allocated, while it never holds
  more than one entry.\<close>

theorem churn_unbounded:
  assumes "key_contract h e" "4 \<le> j" "(2::nat) ^ j * 24 < U64"
  shows "\<exists>n. ht_capacity (churn (empty_table h e 16) k v n) = 2 ^ j \<and>
    ht_size (churn (empty_table h e 16) k v n) = 0 \<and> ht_wf (churn (empty_table h e 16) k v n)"
proof -
  have "\<exists>n. capacity (churn (empty_table h e 16) k v n) = 2 ^ j \<and> ht_wf (churn (empty_table h e 16) k v n) \<and>
      count (churn (empty_table h e 16) k v n) = 0 \<and> ht_entry (churn (empty_table h e 16) k v n) k = None"
    using assms(2,3)
  proof (induction j rule: dec_induct)
    case base
    then show ?case 
      using empty_table_wf(1) [OF assms(1), of 4] empty_table_wf(2) [OF assms(1), of 4 k]
      by (intro exI [of _ 0]) (auto simp: empty_table_def)
  next
    case (step j)
    then obtain n where n: "capacity (churn (empty_table h e 16) k v n) = 2 ^ j"
      "ht_wf (churn (empty_table h e 16) k v n)" "count (churn (empty_table h e 16) k v n) = 0"
      "ht_entry (churn (empty_table h e 16) k v n) k = None" by auto
    have "capacity (churn (empty_table h e 16) k v n) * 2 * 24 < U64" using n(1) step.prems by simp
    from churn_doubles [OF n(2,4) this, of v] n obtain m where
      "capacity (churn (churn (empty_table h e 16) k v n) k v m) = 2 ^ j * 2"
      "ht_wf (churn (churn (empty_table h e 16) k v n) k v m)"
      "count (churn (churn (empty_table h e 16) k v n) k v m) = 0"
      "ht_entry (churn (churn (empty_table h e 16) k v n) k v m) k = None" by auto
    then show ?case by (intro exI [of _ "n + m"]) (simp add: churn_add)
  qed
  then show ?thesis by (auto simp: ht_capacity_def ht_size_def)
qed

theorem churn_unbounded_witness:
  "\<exists>n. ht_capacity (churn (empty_table (\<lambda>k::nat. 0) (=) 16) 7 (Some True) n) = 65536 \<and>
    ht_size (churn (empty_table (\<lambda>k::nat. 0) (=) 16) 7 (Some True) n) = 0"
  using churn_unbounded [OF equality_contract, of 16 "\<lambda>k::nat. 0" 7 "Some True"] by auto

end
