(* ===== verification/Lru_Cache.thy ===== *)
theory Lru_Cache
  imports Hash_Table
begin

text \<open>
  \<^verbatim>\<open>src/src/lru_cache.c\<close>: the LRU cache over the hash table. Entries live in an explicit
  heap, linked by \<open>prev\<close> and \<open>next\<close> as in C; payload buffers are blocks that are live or
  freed. Reading through a pointer to a freed entry and freeing a block twice are undefined
  behaviour and give \<open>None\<close>. A key is the string its owned copy holds. The mutex makes every
  public function atomic, so a concurrent history is a sequence of calls.
\<close>

section \<open>Data\<close>

type_synonym addr = nat
type_synonym block = nat

record lru_entry =
  e_data :: "block option"
  e_size :: nat
  e_key :: string
  refcount :: nat
  removed :: bool
  prev :: "addr option"
  "next" :: "addr option"

record lru_cache =
  table :: "(string, addr) hash_table"
  head :: "addr option"
  tail :: "addr option"
  current_size :: nat
  max_size :: nat
  num_entries :: nat
  max_entries :: nat
  hits :: nat
  misses :: nat
  evictions :: nat
  entries :: "addr \<rightharpoonup> lru_entry"
  blocks :: "block set"

section \<open>Keys\<close>

fun fnv :: "64 word \<Rightarrow> string \<Rightarrow> 64 word" where
  "fnv h [] = h"
| "fnv h (c # cs) = fnv ((h XOR word_of_nat (of_char c)) * 1099511628211) cs"

definition key_hash :: "string \<Rightarrow> 64 word" where
  "key_hash s = fnv 1469598103934665603 (cstr s)"

definition key_eq :: "string \<Rightarrow> string \<Rightarrow> bool" where
  "key_eq a b \<longleftrightarrow> cstr a = cstr b"

section \<open>List helpers\<close>

definition upd_entry :: "lru_cache \<Rightarrow> addr \<Rightarrow> (lru_entry \<Rightarrow> lru_entry) \<Rightarrow> lru_cache option" where
  "upd_entry c a f =
     (case entries c a of None \<Rightarrow> None | Some x \<Rightarrow> Some (c\<lparr>entries := (entries c)(a \<mapsto> f x)\<rparr>))"

definition list_unlink :: "lru_cache \<Rightarrow> addr \<Rightarrow> lru_cache option" where
  "list_unlink c e = do {
     x \<leftarrow> entries c e;
     c \<leftarrow> (case prev x of
            Some p \<Rightarrow> upd_entry c p (\<lambda>y. y\<lparr>next := next x\<rparr>)
          | None \<Rightarrow> Some (c\<lparr>head := next x\<rparr>));
     x \<leftarrow> entries c e;
     c \<leftarrow> (case next x of
            Some n \<Rightarrow> upd_entry c n (\<lambda>y. y\<lparr>prev := prev x\<rparr>)
          | None \<Rightarrow> Some (c\<lparr>tail := prev x\<rparr>));
     upd_entry c e (\<lambda>y. y\<lparr>prev := None, next := None\<rparr>)
   }"

definition list_push_front :: "lru_cache \<Rightarrow> addr \<Rightarrow> lru_cache option" where
  "list_push_front c e = do {
     c \<leftarrow> upd_entry c e (\<lambda>y. y\<lparr>prev := None, next := head c\<rparr>);
     c \<leftarrow> (case head c of
            Some h \<Rightarrow> upd_entry c h (\<lambda>y. y\<lparr>prev := Some e\<rparr>)
          | None \<Rightarrow> Some c);
     let c = c\<lparr>head := Some e\<rparr>;
     Some (if tail c = None then c\<lparr>tail := Some e\<rparr> else c)
   }"

definition list_move_front :: "lru_cache \<Rightarrow> addr \<Rightarrow> lru_cache option" where
  "list_move_front c e =
     (if head c = Some e then Some c
      else do { c \<leftarrow> list_unlink c e; list_push_front c e })"

text \<open>\<open>free\<close> of a payload: \<open>free(NULL)\<close> does nothing, a block that is not live is a double free.\<close>

definition free_block :: "lru_cache \<Rightarrow> block option \<Rightarrow> lru_cache option" where
  "free_block c d =
     (case d of
        None \<Rightarrow> Some c
      | Some b \<Rightarrow> if b \<in> blocks c then Some (c\<lparr>blocks := blocks c - {b}\<rparr>) else None)"

definition entry_free :: "lru_cache \<Rightarrow> addr \<Rightarrow> lru_cache option" where
  "entry_free c e = do {
     x \<leftarrow> entries c e;
     c \<leftarrow> free_block c (e_data x);
     Some (c\<lparr>entries := (entries c)(e := None)\<rparr>)
   }"

definition entry_detach :: "lru_cache \<Rightarrow> addr \<Rightarrow> lru_cache option" where
  "entry_detach c e = do {
     x \<leftarrow> entries c e;
     let c = c\<lparr>table := fst (ht_remove (table c) (e_key x))\<rparr>;
     c \<leftarrow> list_unlink c e;
     let c = c\<lparr>current_size := u64_sub (current_size c) (e_size x),
               num_entries := u64_sub (num_entries c) 1\<rparr>;
     upd_entry c e (\<lambda>y. y\<lparr>removed := True\<rparr>)
   }"

definition entry_maybe_free :: "lru_cache \<Rightarrow> addr \<Rightarrow> lru_cache option" where
  "entry_maybe_free c e = do {
     x \<leftarrow> entries c e;
     if removed x \<and> refcount x = 0 then entry_free c e else Some c
   }"

definition evict_lru :: "lru_cache \<Rightarrow> lru_cache option" where
  "evict_lru c =
     (case tail c of
        None \<Rightarrow> Some c
      | Some victim \<Rightarrow> do {
          c \<leftarrow> entry_detach c victim;
          let c = c\<lparr>evictions := u64 (evictions c + 1)\<rparr>;
          entry_maybe_free c victim
        })"

section \<open>Public functions\<close>

text \<open>
  \<open>lru_cache_init\<close> on a cache pointer that may be \<open>NULL\<close>; \<open>mem\<close> and \<open>blks\<close> are what the heap
  held before. The result is \<open>None\<close> where the C function returns false.
\<close>

definition lru_cache_init ::
  "bool \<Rightarrow> bool \<Rightarrow> nat \<Rightarrow> nat \<Rightarrow> (addr \<rightharpoonup> lru_entry) \<Rightarrow> block set \<Rightarrow> lru_cache option option"
where
  "lru_cache_init ok cptr msize mentries mem blks =
     (if \<not> cptr then Some None
      else do {
        t \<leftarrow> ht_init ok True 0 (Some key_hash) (Some key_eq);
        Some (map_option
          (\<lambda>t. \<lparr>table = t, head = None, tail = None, current_size = 0, max_size = msize,
               num_entries = 0, max_entries = mentries, hits = 0, misses = 0, evictions = 0,
               entries = mem, blocks = blks\<rparr>) t)
      })"

partial_function (option) destroy_loop :: "lru_cache \<Rightarrow> addr option \<Rightarrow> lru_cache option" where
  "destroy_loop c e =
     (case e of
        None \<Rightarrow> Some c
      | Some a \<Rightarrow> do {
          x \<leftarrow> entries c a;
          c' \<leftarrow> entry_free c a;
          destroy_loop c' (next x)
        })"

definition lru_cache_destroy :: "lru_cache \<Rightarrow> lru_cache option" where
  "lru_cache_destroy c = do {
     c \<leftarrow> destroy_loop c (head c);
     Some (c\<lparr>head := None, tail := None, num_entries := 0, current_size := 0,
             table := ht_destroy (table c)\<rparr>)
   }"

text \<open>\<open>lru_cache_get\<close> gives the new state and the borrowed entry, \<open>None\<close> on a miss.\<close>

definition lru_cache_get :: "lru_cache \<Rightarrow> string \<Rightarrow> (lru_cache \<times> addr option) option" where
  "lru_cache_get c k =
     (case ht_lookup (table c) k of
        Some e \<Rightarrow> do {
          c \<leftarrow> upd_entry c e (\<lambda>y. y\<lparr>refcount := u32 (refcount y + 1)\<rparr>);
          c \<leftarrow> list_move_front c e;
          Some (c\<lparr>hits := u64 (hits c + 1)\<rparr>, Some e)
        }
      | None \<Rightarrow> Some (c\<lparr>misses := u64 (misses c + 1)\<rparr>, None))"

definition lru_cache_release :: "lru_cache \<Rightarrow> addr option \<Rightarrow> lru_cache option" where
  "lru_cache_release c e =
     (case e of
        None \<Rightarrow> Some c
      | Some a \<Rightarrow> do {
          x \<leftarrow> entries c a;
          c \<leftarrow> (if refcount x > 0 then upd_entry c a (\<lambda>y. y\<lparr>refcount := refcount y - 1\<rparr>) else Some c);
          entry_maybe_free c a
        })"

text \<open>The eviction loop of \<open>lru_cache_put\<close>.\<close>

definition over_limit :: "lru_cache \<Rightarrow> nat \<Rightarrow> bool" where
  "over_limit c sz \<longleftrightarrow> max_entries c \<le> num_entries c \<or> max_size c < u64 (current_size c + sz)"

partial_function (option) evict_loop :: "nat \<Rightarrow> lru_cache \<Rightarrow> lru_cache option" where
  "evict_loop sz c =
     (if over_limit c sz then
        if tail c = None then Some c
        else do { c' \<leftarrow> evict_lru c; evict_loop sz c' }
      else Some c)"

text \<open>
  \<open>lru_cache_put\<close>; \<open>node\<close> is the result of \<open>malloc(sizeof(*e))\<close>, \<open>dup\<close> and \<open>grow\<close> say whether
  \<open>strdup\<close> and the table's \<open>calloc\<close> find memory.
\<close>

definition lru_cache_put ::
  "addr option \<Rightarrow> bool \<Rightarrow> bool \<Rightarrow> lru_cache \<Rightarrow> string \<Rightarrow> block option \<Rightarrow> nat \<Rightarrow> (lru_cache \<times> bool) option"
where
  "lru_cache_put node dup grow c k data sz =
     (case ht_lookup (table c) k of
        Some old \<Rightarrow> do {
          x \<leftarrow> entries c old;
          let c = c\<lparr>current_size := u64_sub (current_size c) (e_size x)\<rparr>;
          c \<leftarrow> free_block c (e_data x);
          c \<leftarrow> upd_entry c old (\<lambda>y. y\<lparr>e_data := data, e_size := sz\<rparr>);
          let c = c\<lparr>current_size := u64 (current_size c + sz)\<rparr>;
          c \<leftarrow> list_move_front c old;
          Some (c, True)
        }
      | None \<Rightarrow>
          if sz > max_size c then do { c \<leftarrow> free_block c data; Some (c, False) }
          else (case node of
            None \<Rightarrow> do { c \<leftarrow> free_block c data; Some (c, False) }
          | Some e \<Rightarrow>
              if \<not> dup then do { c \<leftarrow> free_block c data; Some (c, False) }
              else do {
                let c = c\<lparr>entries := (entries c)(e \<mapsto>
                  \<lparr>e_data = data, e_size = sz, e_key = cstr k, refcount = 0, removed = False,
                   prev = None, next = None\<rparr>)\<rparr>;
                c \<leftarrow> evict_loop sz c;
                (case ht_insert grow (table c) (cstr k) (Some e) of
                   (t, False) \<Rightarrow> do {
                     c \<leftarrow> free_block (c\<lparr>table := t, entries := (entries c)(e := None)\<rparr>) data;
                     Some (c, False)
                   }
                 | (t, True) \<Rightarrow> do {
                     let c = c\<lparr>table := t, num_entries := u64 (num_entries c + 1),
                               current_size := u64 (current_size c + sz)\<rparr>;
                     c \<leftarrow> list_push_front c e;
                     Some (c, True)
                   })
              }))"

definition lru_cache_size :: "lru_cache \<Rightarrow> nat" where
  "lru_cache_size c = current_size c"

definition lru_cache_entries :: "lru_cache \<Rightarrow> nat" where
  "lru_cache_entries c = num_entries c"

definition lru_cache_stats :: "lru_cache \<Rightarrow> nat \<times> nat \<times> nat" where
  "lru_cache_stats c = (hits c, misses c, evictions c)"

interpretation lru_keys: key_contract key_hash key_eq
  by unfold_locales (auto simp: key_eq_def key_hash_def)

section \<open>The doubly linked list\<close>

fun first :: "addr list \<Rightarrow> addr option \<Rightarrow> addr option" where
  "first [] n = n"
| "first (a # as) n = Some a"

definition lastp :: "addr option \<Rightarrow> addr list \<Rightarrow> addr option" where
  "lastp p as = (if as = [] then p else Some (last as))"

text \<open>The addresses \<open>as\<close> are linked both ways, from predecessor \<open>p\<close> to successor \<open>n\<close>.\<close>

fun links :: "(addr \<rightharpoonup> lru_entry) \<Rightarrow> addr option \<Rightarrow> addr list \<Rightarrow> addr option \<Rightarrow> bool" where
  "links es p [] n = True"
| "links es p (a # as) n =
     (\<exists>x. es a = Some x \<and> prev x = p \<and> next x = first as n \<and> links es (Some a) as n)"

lemma first_append [simp]: "first (xs @ ys) n = first xs (first ys n)"
  by (cases xs) auto

lemma lastp_simps [simp]:
  "lastp p [] = p" "lastp p (as @ [a]) = Some a" "lastp p (a # as) = lastp (Some a) as"
  by (auto simp: lastp_def)

lemma lastp_append [simp]: "lastp p (xs @ ys) = lastp (lastp p xs) ys"
  by (auto simp: lastp_def)

lemma first_None [simp]: "first xs None = None \<longleftrightarrow> xs = []"
  by (cases xs) auto

lemma links_append:
  "links es p (xs @ ys) n \<longleftrightarrow> links es p xs (first ys n) \<and> links es (lastp p xs) ys n"
  by (induction xs arbitrary: p) auto

lemma links_cong: "(\<And>a. a \<in> set xs \<Longrightarrow> es' a = es a) \<Longrightarrow> links es' p xs n = links es p xs n"
  by (induction xs arbitrary: p) auto

lemma links_upd_other [simp]: "b \<notin> set xs \<Longrightarrow> links (es(b := v)) p xs n = links es p xs n"
  by (rule links_cong) auto

lemma links_live: "links es p xs n \<Longrightarrow> a \<in> set xs \<Longrightarrow> \<exists>x. es a = Some x"
  by (induction xs arbitrary: p) auto

lemma links_set_next:
  assumes "links es p (ys @ [b]) n" "b \<notin> set ys" "es b = Some x"
  shows "links (es(b \<mapsto> x\<lparr>next := n'\<rparr>)) p (ys @ [b]) n'"
  using assms by (auto simp: links_append)

lemma links_set_prev:
  assumes "links es p (c # zs) n" "c \<notin> set zs" "es c = Some x"
  shows "links (es(c \<mapsto> x\<lparr>prev := p'\<rparr>)) p' (c # zs) n"
  using assms by auto

text \<open>Fields other than the links.\<close>

definition strip :: "lru_entry \<Rightarrow> lru_entry" where
  "strip x = x\<lparr>prev := None, next := None\<rparr>"

definition payload :: "(addr \<rightharpoonup> lru_entry) \<Rightarrow> addr \<Rightarrow> lru_entry option" where
  "payload es a = map_option strip (es a)"

lemma strip_links [simp]:
  "strip (x\<lparr>prev := p\<rparr>) = strip x" "strip (x\<lparr>next := n\<rparr>) = strip x" "strip (strip x) = strip x"
  by (simp_all add: strip_def)

lemma payload_upd [simp]: "payload (es(a \<mapsto> x)) = (payload es)(a \<mapsto> strip x)"
  by (auto simp: payload_def fun_eq_iff)

lemma payload_same: "es a = Some x \<Longrightarrow> strip y = strip x \<Longrightarrow> payload (es(a \<mapsto> y)) = payload es"
  by (auto simp: payload_def fun_eq_iff)

definition ring :: "lru_cache \<Rightarrow> addr list \<Rightarrow> bool" where
  "ring c xs \<longleftrightarrow> distinct xs \<and> links (entries c) None xs None \<and> head c = first xs None \<and> tail c = lastp None xs"

lemma ring_live: "ring c xs \<Longrightarrow> a \<in> set xs \<Longrightarrow> \<exists>x. entries c a = Some x"
  unfolding ring_def using links_live by blast

lemma ring_unlink_front:
  assumes "ring c (ys @ a # zs)" "entries c a = Some x"
  shows "\<exists>es. (case prev x of Some p \<Rightarrow> upd_entry c p (\<lambda>y. y\<lparr>next := next x\<rparr>) | None \<Rightarrow> Some (c\<lparr>head := next x\<rparr>))
      = Some (c\<lparr>entries := es, head := first (ys @ zs) None\<rparr>) \<and>
    links es None ys (first zs None) \<and> links es (Some a) zs None \<and> es a = Some x \<and> payload es = payload (entries c)"
proof -
  have x: "prev x = lastp None ys" "next x = first zs None"
    and l: "links (entries c) None ys (Some a)" "links (entries c) (Some a) zs None"
    and d: "distinct ys" "a \<notin> set ys" "a \<notin> set zs" "set ys \<inter> set zs = {}"
    and h: "head c = first ys (Some a)"
    using assms by (auto simp: ring_def links_append)
  show ?thesis
  proof (cases ys rule: rev_cases)
    case Nil
    with x h l assms(2) show ?thesis by (intro exI [of _ "entries c"]) simp
  next
    case (snoc bs b)
    with l(1) obtain y where y: "entries c b = Some y" by (auto simp: links_append)
    have "links ((entries c)(b \<mapsto> y\<lparr>next := first zs None\<rparr>)) None (bs @ [b]) (first zs None)"
      using links_set_next [of "entries c" None bs b "Some a" y] l(1) d snoc y by auto
    moreover have "links ((entries c)(b \<mapsto> y\<lparr>next := first zs None\<rparr>)) (Some a) zs None"
      using l(2) d snoc by auto
    moreover have "first (bs @ b # zs) None = head c" using h snoc by (cases bs) auto
    ultimately show ?thesis
      using snoc x y assms(2) d payload_same [of "entries c" b y "y\<lparr>next := first zs None\<rparr>"]
      by (intro exI [of _ "(entries c)(b \<mapsto> y\<lparr>next := first zs None\<rparr>)"]) (simp add: upd_entry_def)
  qed
qed

lemma ring_unlink_back:
  assumes l: "links es None ys (first zs None)" "links es (Some a) zs None" and a: "es a = Some x"
    and x: "prev x = lastp None ys" "next x = first zs None"
    and d: "distinct zs" "set ys \<inter> set zs = {}" "a \<notin> set ys" "a \<notin> set zs"
    and c: "entries c = es" "zs \<noteq> [] \<Longrightarrow> tail c = lastp None zs"
  shows "\<exists>es'. (case next x of Some n \<Rightarrow> upd_entry c n (\<lambda>y. y\<lparr>prev := prev x\<rparr>) | None \<Rightarrow> Some (c\<lparr>tail := prev x\<rparr>))
      = Some (c\<lparr>entries := es', tail := lastp None (ys @ zs)\<rparr>) \<and>
    links es' None (ys @ zs) None \<and> es' a = Some x \<and> payload es' = payload es"
proof (cases zs)
  case Nil
  with x l a c show ?thesis by (intro exI [of _ es]) (auto simp: links_append)
next
  case (Cons b bs)
  with l(2) obtain y where y: "es b = Some y" by auto
  let ?es = "es(b \<mapsto> y\<lparr>prev := lastp None ys\<rparr>)"
  have "links ?es (lastp None ys) (b # bs) None"
    using links_set_prev [of es "Some a" b bs None y] l(2) d Cons y by auto
  moreover have "links ?es None ys (first zs None)" using l(1) d Cons by auto
  moreover have "tail c = lastp None (ys @ zs)" using c(2) Cons by (simp add: lastp_def)
  ultimately show ?thesis
    using Cons x y a c(1) d payload_same [of es b y "y\<lparr>prev := lastp None ys\<rparr>"]
    by (intro exI [of _ ?es]) (auto simp: upd_entry_def links_append)
qed

lemma list_unlink_ok:
  assumes ring: "ring c (ys @ a # zs)" and a: "entries c a = Some x"
  shows "\<exists>es. list_unlink c a = Some (c\<lparr>entries := es, head := first (ys @ zs) None, tail := lastp None (ys @ zs)\<rparr>) \<and>
    links es None (ys @ zs) None \<and> es a = Some (strip x) \<and> payload es = payload (entries c)"
proof -
  have x: "prev x = lastp None ys" "next x = first zs None"
    and d: "distinct zs" "set ys \<inter> set zs = {}" "a \<notin> set ys" "a \<notin> set zs"
    and t: "zs \<noteq> [] \<Longrightarrow> tail c = lastp None zs"
    using assms by (auto simp: ring_def links_append lastp_def)
  from ring_unlink_front [OF ring a] obtain es1 where
    1: "(case prev x of Some p \<Rightarrow> upd_entry c p (\<lambda>y. y\<lparr>next := next x\<rparr>) | None \<Rightarrow> Some (c\<lparr>head := next x\<rparr>))
      = Some (c\<lparr>entries := es1, head := first (ys @ zs) None\<rparr>)"
    and l1: "links es1 None ys (first zs None)" "links es1 (Some a) zs None" "es1 a = Some x"
    and p1: "payload es1 = payload (entries c)" by blast
  define h t where ht: "h = first (ys @ zs) None" "t = lastp None (ys @ zs)"
  let ?c1 = "c\<lparr>entries := es1, head := first (ys @ zs) None\<rparr>"
  from ring_unlink_back [OF l1 x d, of ?c1] t obtain es2 where
    2: "(case next x of Some n \<Rightarrow> upd_entry ?c1 n (\<lambda>y. y\<lparr>prev := prev x\<rparr>) | None \<Rightarrow> Some (?c1\<lparr>tail := prev x\<rparr>))
      = Some (?c1\<lparr>entries := es2, tail := lastp None (ys @ zs)\<rparr>)"
    and l2: "links es2 None (ys @ zs) None" "es2 a = Some x" "payload es2 = payload es1" by auto
  have "links (es2(a \<mapsto> strip x)) None (ys @ zs) None" using l2(1) d by simp
  moreover have "payload (es2(a \<mapsto> strip x)) = payload (entries c)"
    using payload_same [of es2 a x "strip x"] l2(2,3) p1 by simp
  ultimately show ?thesis
    using a 1 [folded ht] 2 [folded ht] l1(3) l2(2)
    by (intro exI [of _ "es2(a \<mapsto> strip x)"]) (simp add: list_unlink_def upd_entry_def strip_def del: first_append lastp_append flip: ht)
qed

lemma list_push_front_ok:
  assumes ring: "ring c xs" and a: "entries c a = Some x" "a \<notin> set xs"
  shows "\<exists>es. list_push_front c a = Some (c\<lparr>entries := es, head := Some a, tail := lastp None (a # xs)\<rparr>) \<and>
    links es None (a # xs) None \<and> payload es = payload (entries c)"
proof (cases xs)
  case Nil
  with assms payload_same [of "entries c" a x "x\<lparr>prev := None, next := None\<rparr>"] show ?thesis
    by (intro exI [of _ "(entries c)(a \<mapsto> x\<lparr>prev := None, next := None\<rparr>)"])
      (simp add: ring_def list_push_front_def upd_entry_def)
next
  case (Cons b bs)
  with ring obtain y where y: "entries c b = Some y" by (auto simp: ring_def)
  let ?es1 = "(entries c)(a \<mapsto> x\<lparr>prev := None, next := Some b\<rparr>)"
  let ?es = "?es1(b \<mapsto> y\<lparr>prev := Some a\<rparr>)"
  have "b \<noteq> a" using a(2) Cons by auto
  then have y1: "?es1 b = Some y" using y by simp
  have "links ?es (Some a) (b # bs) None"
    using links_set_prev [of ?es1 None b bs None y] ring Cons a(2) y1 by (auto simp: ring_def)
  moreover have "payload ?es = payload (entries c)"
    using payload_same [of "entries c" a x "x\<lparr>prev := None, next := Some b\<rparr>"] payload_same [of ?es1 b y "y\<lparr>prev := Some a\<rparr>"] a(1) y1
    by (simp del: payload_upd)
  moreover have "head c = Some b" "tail c = lastp (Some b) bs" using ring Cons by (auto simp: ring_def)
  moreover have "lastp (Some b) bs \<noteq> None" by (simp add: lastp_def)
  ultimately show ?thesis
    using Cons a \<open>b \<noteq> a\<close> y by (intro exI [of _ ?es]) (auto simp: list_push_front_def upd_entry_def Let_def)
qed

lemma list_move_front_ok:
  assumes ring: "ring c (ys @ a # zs)"
  shows "\<exists>es. list_move_front c a = Some (c\<lparr>entries := es, head := Some a, tail := lastp None (a # ys @ zs)\<rparr>) \<and>
    links es None (a # ys @ zs) None \<and> payload es = payload (entries c)"
proof (cases "head c = Some a")
  case True
  with ring have "ys = []" by (cases ys) (auto simp: ring_def)
  with True ring show ?thesis
    by (intro exI [of _ "entries c"]) (simp add: list_move_front_def ring_def)
next
  case False
  obtain x where a: "entries c a = Some x" using ring_live [OF ring] by auto
  from list_unlink_ok [OF ring a] obtain es where
    u: "list_unlink c a = Some (c\<lparr>entries := es, head := first (ys @ zs) None, tail := lastp None (ys @ zs)\<rparr>)"
      (is "_ = Some ?c") "links es None (ys @ zs) None" "es a = Some (strip x)" "payload es = payload (entries c)" by blast
  have "ring ?c (ys @ zs)" using u ring by (auto simp: ring_def)
  from list_push_front_ok [OF this, of a "strip x"] u(3) ring obtain es' where
    "list_push_front ?c a = Some (?c\<lparr>entries := es', head := Some a, tail := lastp None (a # ys @ zs)\<rparr>)"
    "links es' None (a # ys @ zs) None" "payload es' = payload es" by (auto simp: ring_def)
  with u False show ?thesis by (intro exI [of _ es']) (simp add: list_move_front_def)
qed

lemma links_upd_same:
  "es a = Some x \<Longrightarrow> prev y = prev x \<Longrightarrow> next y = next x \<Longrightarrow> links (es(a \<mapsto> y)) p xs n = links es p xs n"
  by (induction xs arbitrary: p) auto

section \<open>The invariant\<close>

text \<open>
  \<open>xs\<close> is the recency list, most recently used first. The table binds exactly the keys of the
  listed entries; the counters describe the list; an entry that is still allocated but not
  listed is detached and borrowed (or \<open>pending\<close>: just allocated by a \<open>put\<close> in progress); no
  two allocated entries share a payload and every payload is live.
\<close>

definition has_key :: "(addr \<rightharpoonup> lru_entry) \<Rightarrow> addr \<Rightarrow> string \<Rightarrow> bool" where
  "has_key P a k \<longleftrightarrow> (\<exists>x. P a = Some x \<and> key_eq (e_key x) k)"

definition esize :: "(addr \<rightharpoonup> lru_entry) \<Rightarrow> addr \<Rightarrow> nat" where
  "esize P a = (case P a of Some x \<Rightarrow> e_size x | None \<Rightarrow> 0)"

definition indexed :: "(string, addr) hash_table \<Rightarrow> (addr \<rightharpoonup> lru_entry) \<Rightarrow> addr list \<Rightarrow> bool" where
  "indexed t P xs \<longleftrightarrow> ht_wf t \<and> eq_fn t = key_eq \<and> ht_size t = length xs \<and>
     (\<forall>k v. ht_entry t k = Some v \<longleftrightarrow> (\<exists>a \<in> set xs. v = Some a \<and> has_key P a k))"

definition accounted :: "lru_cache \<Rightarrow> addr list \<Rightarrow> bool" where
  "accounted c xs \<longleftrightarrow> num_entries c = length xs \<and>
     current_size c = u64 (sum_list (map (esize (payload (entries c))) xs))"

definition owned :: "(addr \<rightharpoonup> lru_entry) \<Rightarrow> block set \<Rightarrow> addr list \<Rightarrow> addr set \<Rightarrow> bool" where
  "owned P bs xs pend \<longleftrightarrow>
     (\<forall>a x. P a = Some x \<longrightarrow> a \<notin> pend \<longrightarrow> (if a \<in> set xs then \<not> removed x else removed x \<and> 0 < refcount x)) \<and>
     (\<forall>a x b. P a = Some x \<longrightarrow> e_data x = Some b \<longrightarrow> b \<in> bs) \<and>
     (\<forall>a a' x x' b. P a = Some x \<longrightarrow> P a' = Some x' \<longrightarrow> e_data x = Some b \<longrightarrow> e_data x' = Some b \<longrightarrow> a = a')"

definition lru_inv :: "lru_cache \<Rightarrow> addr list \<Rightarrow> addr set \<Rightarrow> bool" where
  "lru_inv c xs pend \<longleftrightarrow> ring c xs \<and> indexed (table c) (payload (entries c)) xs \<and> accounted c xs \<and>
     owned (payload (entries c)) (blocks c) xs pend \<and> set xs \<inter> pend = {}"

definition lru_wf :: "lru_cache \<Rightarrow> bool" where
  "lru_wf c \<longleftrightarrow> (\<exists>xs. lru_inv c xs {})"

lemma esize_upd: "esize (P(a := v)) b = (if b = a then (case v of Some x \<Rightarrow> e_size x | None \<Rightarrow> 0) else esize P b)"
  by (simp add: esize_def)

lemma map_esize_other [simp]: "a \<notin> set xs \<Longrightarrow> map (esize (P(a := v))) xs = map (esize P) xs"
  by (auto simp: esize_upd)

lemma lru_invD [httpd_wf]:
  assumes "lru_inv c xs pend"
  shows "ring c xs" "indexed (table c) (payload (entries c)) xs" "accounted c xs"
    "owned (payload (entries c)) (blocks c) xs pend" "set xs \<inter> pend = {}"
  using assms by (auto simp: lru_inv_def)

lemma payload_Some [simp]: "es a = Some x \<Longrightarrow> payload es a = Some (strip x)"
  by (simp add: payload_def)

lemma payload_SomeE: "payload es a = Some y \<Longrightarrow> (\<And>x. es a = Some x \<Longrightarrow> y = strip x \<Longrightarrow> R) \<Longrightarrow> R"
  by (auto simp: payload_def)

lemma strip_fields [simp]:
  "e_data (strip x) = e_data x" "e_size (strip x) = e_size x" "e_key (strip x) = e_key x"
  "refcount (strip x) = refcount x" "removed (strip x) = removed x"
  by (simp_all add: strip_def)

lemma indexed_lookup:
  assumes "indexed t P xs"
  shows "ht_lookup t k = Some a \<longleftrightarrow> a \<in> set xs \<and> has_key P a k"
    and "ht_lookup t k = None \<longleftrightarrow> ht_entry t k = None"
    and "ht_lookup t k = None \<longleftrightarrow> (\<forall>a \<in> set xs. \<not> has_key P a k)"
proof -
  have e: "ht_entry t k = Some v \<longleftrightarrow> (\<exists>a \<in> set xs. v = Some a \<and> has_key P a k)" for v
    using assms by (simp add: indexed_def)
  have l: "ht_lookup t k = (case ht_entry t k of None \<Rightarrow> None | Some v \<Rightarrow> v)"
    using assms by (simp add: indexed_def ht_lookup_entry wf_shape)
  show 1: "ht_lookup t k = Some a \<longleftrightarrow> a \<in> set xs \<and> has_key P a k"
    using l e [of "Some a"] by (auto split: option.splits)
  show "ht_lookup t k = None \<longleftrightarrow> ht_entry t k = None"
    using l e [of "None"] by (auto split: option.splits)
  show "ht_lookup t k = None \<longleftrightarrow> (\<forall>a \<in> set xs. \<not> has_key P a k)"
    using l e by (cases "ht_entry t k") auto
qed

lemma has_key_sym: "has_key P a k \<Longrightarrow> has_key P a k' \<Longrightarrow> key_eq k k'"
  by (auto simp: has_key_def key_eq_def)

text \<open>Only one listed entry has a given key.\<close>

lemma indexed_unique:
  assumes "indexed t P xs" "a \<in> set xs" "b \<in> set xs" "has_key P a k" "has_key P b k"
  shows "a = b"
proof -
  have "ht_lookup t k = Some a" "ht_lookup t k = Some b" using assms indexed_lookup(1) [OF assms(1)] by blast+
  then show ?thesis by simp
qed

lemma indexed_cong:
  assumes "indexed t P xs" "set xs' = set xs" "length xs' = length xs"
    "\<And>a k. a \<in> set xs \<Longrightarrow> has_key P' a k = has_key P a k"
  shows "indexed t P' xs'"
  using assms by (simp add: indexed_def)

lemma indexed_insert:
  assumes ix: "indexed t P xs" and absent: "ht_lookup t k = None"
    and ins: "ht_insert g t k (Some e) = (t', True)" and e: "e \<notin> set xs"
    and key: "\<And>k'. has_key P' e k' \<longleftrightarrow> key_eq k k'"
    and rest: "\<And>a k. a \<in> set xs \<Longrightarrow> has_key P' a k = has_key P a k"
  shows "indexed t' P' (e # xs)"
proof -
  have wf: "ht_wf t" "eq_fn t = key_eq" "ht_size t = length xs"
    "ht_entry t k' = Some v \<longleftrightarrow> (\<exists>a \<in> set xs. v = Some a \<and> has_key P a k')" for k' v
    using ix by (auto simp: indexed_def)
  note t' = ht_insert_True [OF wf(1) ins]
  have none: "ht_entry t k = None" using indexed_lookup(2) [OF ix] absent by blast
  have no: "\<not> has_key P a k'" if "key_eq k k'" "a \<in> set xs" for a k'
    using that indexed_lookup(3) [OF ix, of k] absent by (auto simp: has_key_def key_eq_def)
  show ?thesis
    unfolding indexed_def using t' wf none key rest no by (auto simp: ht_size_def)
qed

lemma indexed_remove:
  assumes ix: "indexed t P (ys @ a # zs)" and d: "a \<notin> set ys" "a \<notin> set zs"
    and a: "P a = Some x" and rest: "\<And>b k. b \<noteq> a \<Longrightarrow> has_key P' b k = has_key P b k"
  shows "indexed (fst (ht_remove t (e_key x))) P' (ys @ zs)"
proof -
  obtain t' r where rem: "ht_remove t (e_key x) = (t', r)" by fastforce
  have wf: "ht_wf t" "eq_fn t = key_eq" "ht_size t = Suc (length (ys @ zs))"
    and e: "ht_entry t k' = Some v \<longleftrightarrow> (\<exists>b \<in> set (ys @ a # zs). v = Some b \<and> has_key P b k')" for k' v
    using ix unfolding indexed_def by auto
  note t' = ht_remove_ok [OF wf(1) rem]
  have ak: "has_key P a k \<longleftrightarrow> key_eq (e_key x) k" for k using a by (simp add: has_key_def)
  have "ht_entry t (e_key x) = Some (Some a)" using e [of "e_key x" "Some a"] ak by (auto simp: key_eq_def)
  moreover have "\<not> has_key P b k" if "key_eq (e_key x) k" "b \<in> set (ys @ zs)" for b k
    using indexed_unique [OF ix, of a b k] that ak d by auto
  moreover have "has_key P' b k = has_key P b k" if "b \<in> set (ys @ zs)" for b k
    using rest [of b k] that d by auto
  ultimately have "ht_entry t' k = Some v \<longleftrightarrow> (\<exists>b \<in> set (ys @ zs). v = Some b \<and> has_key P' b k)" for k v
    using t'(6) [of k] e [of k v] wf(2) ak [of k] by auto
  with t'(1,2,7) wf \<open>ht_entry t (e_key x) = Some (Some a)\<close> rem show ?thesis
    unfolding indexed_def by (simp add: ht_size_def)
qed

lemma accounted_u64: "indexed t P xs \<Longrightarrow> length xs < U64 - 1"
  using count_less_U64 [of t] wf_shape [of t] by (auto simp: indexed_def ht_size_def)

section \<open>Eviction\<close>

text \<open>What becomes of an evicted entry: freed unless somebody still reads it.\<close>

definition dropped :: "lru_entry option \<Rightarrow> lru_entry option" where
  "dropped o1 = (case o1 of None \<Rightarrow> None
     | Some x \<Rightarrow> if refcount x = 0 then None else Some (x\<lparr>removed := True\<rparr>))"

definition freed_blocks :: "(addr \<rightharpoonup> lru_entry) \<Rightarrow> addr list \<Rightarrow> block set" where
  "freed_blocks P vs = {b. \<exists>a \<in> set vs. \<exists>x. P a = Some x \<and> refcount x = 0 \<and> e_data x = Some b}"

definition drop_entries :: "(addr \<rightharpoonup> lru_entry) \<Rightarrow> addr list \<Rightarrow> (addr \<rightharpoonup> lru_entry)" where
  "drop_entries P vs = (\<lambda>a. if a \<in> set vs then dropped (P a) else P a)"

lemma strip_removed [simp]: "strip (x\<lparr>removed := r\<rparr>) = (strip x)\<lparr>removed := r\<rparr>"
  "strip (x\<lparr>refcount := n\<rparr>) = (strip x)\<lparr>refcount := n\<rparr>"
  "strip (x\<lparr>e_data := d\<rparr>) = (strip x)\<lparr>e_data := d\<rparr>"
  "strip (x\<lparr>e_size := n\<rparr>) = (strip x)\<lparr>e_size := n\<rparr>"
  by (simp_all add: strip_def)

lemma entry_detach_ok:
  assumes inv: "lru_inv c (ys @ a # zs) pend" and a: "payload (entries c) a = Some x"
  shows "\<exists>c'. entry_detach c a = Some c' \<and> ring c' (ys @ zs) \<and>
    indexed (table c') (payload (entries c')) (ys @ zs) \<and> accounted c' (ys @ zs) \<and>
    payload (entries c') = (payload (entries c))(a \<mapsto> x\<lparr>removed := True\<rparr>) \<and>
    blocks c' = blocks c \<and> max_size c' = max_size c \<and> max_entries c' = max_entries c \<and>
    hits c' = hits c \<and> misses c' = misses c \<and> evictions c' = evictions c \<and>
    ht_capacity (table c') = ht_capacity (table c)"
proof -
  note inv' = lru_invD [OF inv]
  from a obtain y where y: "entries c a = Some y" "x = strip y" by (rule payload_SomeE)
  let ?t = "fst (ht_remove (table c) (e_key y))"
  have ring: "ring (c\<lparr>table := ?t\<rparr>) (ys @ a # zs)" using inv'(1) by (simp add: ring_def)
  from list_unlink_ok [OF this, of y] y obtain es where
    u: "list_unlink (c\<lparr>table := ?t\<rparr>) a = Some (c\<lparr>table := ?t, entries := es, head := first (ys @ zs) None, tail := lastp None (ys @ zs)\<rparr>)"
    "links es None (ys @ zs) None" "es a = Some (strip y)" "payload es = payload (entries c)" by auto
  let ?P = "(payload (entries c))(a \<mapsto> x\<lparr>removed := True\<rparr>)"
  let ?es = "es(a \<mapsto> (strip y)\<lparr>removed := True\<rparr>)"
  have d: "a \<notin> set ys" "a \<notin> set zs" "distinct (ys @ zs)" using inv'(1) by (auto simp: ring_def)
  have P: "payload ?es = ?P" using u(4) y by simp
  have l: "links ?es None (ys @ zs) None" using u(2) d by simp
  have ix: "indexed ?t ?P (ys @ zs)"
    using indexed_remove [OF inv'(2) d(1,2) a, of ?P] y by (simp add: has_key_def)
  have sz: "u64_sub (current_size c) (e_size y) = u64 (sum_list (map (esize ?P) (ys @ zs)))"
    using inv'(3) u64_sub_add_mod [of "sum_list (map (esize (payload (entries c))) (ys @ zs))" "e_size y"] a y d
    by (simp add: accounted_def esize_def [of _ a] ac_simps)
  have n: "u64_sub (num_entries c) 1 = length (ys @ zs)"
    using inv'(3) accounted_u64 [OF inv'(2)] by (simp add: accounted_def u64_sub_ge)
  let ?c = "c\<lparr>table := ?t, entries := ?es, head := first (ys @ zs) None, tail := lastp None (ys @ zs),
    current_size := u64_sub (current_size c) (e_size y), num_entries := u64_sub (num_entries c) 1\<rparr>"
  have "entry_detach c a = Some ?c"
    using y u(1,3) by (simp add: entry_detach_def upd_entry_def Let_def)
  moreover have "ring ?c (ys @ zs)" using l d by (simp add: ring_def)
  moreover have "accounted ?c (ys @ zs)" using P sz n by (simp add: accounted_def)
  moreover have "ht_wf (table c)" using inv'(2) by (simp add: indexed_def)
  from ht_remove_ok(4) [OF this] have "ht_capacity ?t = ht_capacity (table c)"
    by (metis ht_capacity_def prod.collapse)
  ultimately show ?thesis using P ix by (intro exI [of _ ?c]) simp
qed

lemma ownedD:
  assumes "owned P bs xs pend"
  shows "P a = Some x \<Longrightarrow> a \<in> set xs \<Longrightarrow> a \<notin> pend \<Longrightarrow> \<not> removed x"
    "P a = Some x \<Longrightarrow> a \<notin> set xs \<Longrightarrow> a \<notin> pend \<Longrightarrow> removed x \<and> 0 < refcount x"
    "P a = Some x \<Longrightarrow> e_data x = Some b \<Longrightarrow> b \<in> bs"
    "P a = Some x \<Longrightarrow> P a' = Some x' \<Longrightarrow> e_data x = Some b \<Longrightarrow> e_data x' = Some b \<Longrightarrow> a = a'"
  using assms unfolding owned_def by (metis)+

lemma ownedI:
  assumes "\<And>a x. P a = Some x \<Longrightarrow> a \<notin> pend \<Longrightarrow> if a \<in> set xs then \<not> removed x else removed x \<and> 0 < refcount x"
    "\<And>a x b. P a = Some x \<Longrightarrow> e_data x = Some b \<Longrightarrow> b \<in> bs"
    "\<And>a a' x x' b. P a = Some x \<Longrightarrow> P a' = Some x' \<Longrightarrow> e_data x = Some b \<Longrightarrow> e_data x' = Some b \<Longrightarrow> a = a'"
  shows "owned P bs xs pend"
  using assms unfolding owned_def by blast

lemma owned_cong: "set xs = set xs' \<Longrightarrow> owned P bs xs pend = owned P bs xs' pend"
  by (simp only: owned_def)

lemma payload_free: "payload (es(a := None)) = (payload es)(a := None)"
  by (auto simp: payload_def fun_eq_iff)

text \<open>Freeing a removed, unreferenced entry: its payload is live, so nothing is freed twice.\<close>

lemma entry_maybe_free_ok:
  assumes own: "owned (payload (entries c)) (blocks c) xs pend" and a: "payload (entries c) a = Some x"
    and r: "removed x"
  shows "entry_maybe_free c a = Some (c\<lparr>
    entries := (if refcount x = 0 then (entries c)(a := None) else entries c),
    blocks := (if refcount x = 0 then blocks c - set_option (e_data x) else blocks c)\<rparr>)"
proof -
  from a obtain y where y: "entries c a = Some y" "x = strip y" by (rule payload_SomeE)
  show ?thesis
    using y r ownedD(3) [OF own a]
    by (auto simp: entry_maybe_free_def entry_free_def free_block_def split: option.splits)
qed

lemma owned_drop:
  assumes own: "owned P B (ys @ [a]) pend" and x: "P a = Some x" and new: "a \<notin> set ys" "a \<notin> pend"
  shows "owned (drop_entries P [a]) (B - freed_blocks P [a]) ys pend"
proof (rule ownedI)
  fix b y assume b: "drop_entries P [a] b = Some y" "b \<notin> pend"
  show "if b \<in> set ys then \<not> removed y else removed y \<and> 0 < refcount y"
  proof (cases "b = a")
    case True
    with b(1) x new(1) show ?thesis by (auto simp: drop_entries_def dropped_def split: if_splits)
  next
    case False
    with b(1) have "P b = Some y" by (simp add: drop_entries_def)
    with False b(2) show ?thesis using ownedD(1,2) [OF own, of b y] by auto
  qed
next
  fix b y q assume b: "drop_entries P [a] b = Some y" "e_data y = Some q"
  then have "q \<in> B" "refcount x = 0 \<Longrightarrow> e_data x \<noteq> Some q"
    using ownedD(3) [OF own] ownedD(4) [OF own x, of b _ q] x by (auto simp: drop_entries_def dropped_def split: if_splits)
  then show "q \<in> B - freed_blocks P [a]" using x by (auto simp: freed_blocks_def)
next
  fix b b' y y' q
  assume "drop_entries P [a] b = Some y" "drop_entries P [a] b' = Some y'" "e_data y = Some q" "e_data y' = Some q"
  then show "b = b'" using ownedD(4) [OF own] x by (auto simp: drop_entries_def dropped_def split: if_splits)
qed

lemma evict_lru_ok:
  assumes inv: "lru_inv c (ys @ [a]) pend"
  shows "\<exists>c'. evict_lru c = Some c' \<and> lru_inv c' ys pend \<and>
    payload (entries c') = drop_entries (payload (entries c)) [a] \<and>
    blocks c' = blocks c - freed_blocks (payload (entries c)) [a] \<and>
    max_size c' = max_size c \<and> max_entries c' = max_entries c \<and>
    hits c' = hits c \<and> misses c' = misses c \<and> evictions c' = u64 (evictions c + 1) \<and>
    ht_capacity (table c') = ht_capacity (table c)"
proof -
  let ?P = "payload (entries c)"
  note inv' = lru_invD [OF inv]
  have d: "distinct (ys @ [a])" "tail c = Some a" using inv'(1) by (auto simp: ring_def)
  obtain x where x: "?P a = Some x" using ring_live [OF inv'(1), of a] by auto
  from entry_detach_ok [of c ys a "[]" pend x] inv x obtain c1 where
    c1: "entry_detach c a = Some c1" "ring c1 ys" "indexed (table c1) (payload (entries c1)) ys" "accounted c1 ys"
    and P1: "payload (entries c1) = ?P(a \<mapsto> x\<lparr>removed := True\<rparr>)" "blocks c1 = blocks c"
    and s1: "max_size c1 = max_size c" "max_entries c1 = max_entries c" "hits c1 = hits c"
      "misses c1 = misses c" "evictions c1 = evictions c" "ht_capacity (table c1) = ht_capacity (table c)" by auto
  have apend: "a \<notin> pend" using inv'(5) by auto
  have own1: "owned (payload (entries c1)) (blocks c1) ys (insert a pend)"
    using inv'(4) x unfolding P1 owned_def by (auto split: if_splits)
  let ?c2 = "c1\<lparr>evictions := u64 (evictions c1 + 1)\<rparr>"
  define c3 where c3: "c3 = ?c2\<lparr>entries := (if refcount x = 0 then (entries c1)(a := None) else entries c1),
    blocks := (if refcount x = 0 then blocks c1 - set_option (e_data x) else blocks c1)\<rparr>"
  have e: "evict_lru c = Some c3"
    using d(2) c1(1) entry_maybe_free_ok [of ?c2 ys "insert a pend" a "x\<lparr>removed := True\<rparr>"] own1 P1(1)
    by (simp add: evict_lru_def Let_def c3)
  have P3: "payload (entries c3) = drop_entries ?P [a]"
    using P1 x by (auto simp: c3 payload_free drop_entries_def dropped_def fun_eq_iff)
  have b3: "blocks c3 = blocks c - freed_blocks ?P [a]"
    using P1(2) x by (auto simp: c3 freed_blocks_def)
  have k3: "has_key (payload (entries c3)) b k = has_key (payload (entries c1)) b k"
    "esize (payload (entries c3)) b = esize (payload (entries c1)) b" if "b \<noteq> a" for b k
    using that unfolding P3 P1 by (simp_all add: has_key_def esize_def drop_entries_def)
  have "links (entries c3) None ys None" using c1(2) d(1) by (simp add: c3 ring_def)
  then have "ring c3 ys" using c1(2) by (simp add: c3 ring_def)
  moreover have "indexed (table c3) (payload (entries c3)) ys"
    using indexed_cong [OF c1(3), of ys "payload (entries c3)"] k3(1) d(1) by (force simp: c3)
  moreover have "map (esize (payload (entries c3))) ys = map (esize (payload (entries c1))) ys"
    using k3(2) d(1) by (intro map_cong refl) (metis distinct_append disjoint_iff list.set_intros(1))
  then have "accounted c3 ys"
    using c1(4) arg_cong [OF c3, of num_entries] arg_cong [OF c3, of current_size]
    unfolding accounted_def by (simp del: map_eq_conv)
  moreover have "owned (payload (entries c3)) (blocks c3) ys pend"
    unfolding P3 b3 using owned_drop [OF inv'(4) x _ apend] d(1) by simp
  ultimately have "lru_inv c3 ys pend" using inv'(5) by (auto simp: lru_inv_def)
  moreover have "max_size c3 = max_size c" "max_entries c3 = max_entries c" "hits c3 = hits c" "misses c3 = misses c"
    "evictions c3 = u64 (evictions c + 1)" "ht_capacity (table c3) = ht_capacity (table c)" using s1 by (simp_all add: c3)
  ultimately show ?thesis using e P3 b3 by blast
qed

section \<open>The cache as a recency list\<close>

text \<open>
  The specification: the cache is a list of keys with their payloads and sizes, most recently
  used first. A hit moves its item to the front, an insertion drops items from the back until
  the new one fits and puts it at the front.
\<close>

type_synonym item = "string \<times> block option \<times> nat"

definition total :: "item list \<Rightarrow> nat" where
  "total l = sum_list (map (snd \<circ> snd) l)"

definition is_over :: "nat \<Rightarrow> nat \<Rightarrow> nat \<Rightarrow> item list \<Rightarrow> bool" where
  "is_over me ms sz l \<longleftrightarrow> me \<le> length l \<or> ms < u64 (total l + sz)"

function spec_evict :: "nat \<Rightarrow> nat \<Rightarrow> nat \<Rightarrow> item list \<Rightarrow> item list" where
  "spec_evict me ms sz l = (if l \<noteq> [] \<and> is_over me ms sz l then spec_evict me ms sz (butlast l) else l)"
  by pat_completeness auto
termination by (relation "measure (\<lambda>(me, ms, sz, l). length l)") auto

declare spec_evict.simps [simp del]

definition spec_find :: "string \<Rightarrow> item list \<Rightarrow> item option" where
  "spec_find k l = List.find (\<lambda>i. fst i = cstr k) l"

definition spec_touch :: "string \<Rightarrow> item list \<Rightarrow> item list" where
  "spec_touch k l = (case spec_find k l of None \<Rightarrow> l | Some i \<Rightarrow> i # filter (\<lambda>j. fst j \<noteq> cstr k) l)"

definition spec_put :: "nat \<Rightarrow> nat \<Rightarrow> string \<Rightarrow> block option \<Rightarrow> nat \<Rightarrow> item list \<Rightarrow> item list" where
  "spec_put me ms k d sz l =
     (case spec_find k l of
        Some _ \<Rightarrow> (cstr k, d, sz) # filter (\<lambda>j. fst j \<noteq> cstr k) l
      | None \<Rightarrow> if ms < sz then l else (cstr k, d, sz) # spec_evict me ms sz l)"

definition item :: "(addr \<rightharpoonup> lru_entry) \<Rightarrow> addr \<Rightarrow> item" where
  "item P a = (case P a of Some x \<Rightarrow> (cstr (e_key x), e_data x, e_size x) | None \<Rightarrow> ([], None, 0))"

definition view :: "lru_cache \<Rightarrow> addr list \<Rightarrow> item list" where
  "view c xs = map (item (payload (entries c))) xs"

lemma total_items: "total (map (item P) xs) = sum_list (map (esize P) xs)"
  by (induction xs) (auto simp: total_def item_def esize_def split: option.splits)

lemma items_drop: "set ys \<inter> set zs = {} \<Longrightarrow> map (item (drop_entries P zs)) ys = map (item P) ys"
  by (auto simp: item_def drop_entries_def)

lemma items_upd: "a \<notin> set l \<Longrightarrow> map (item (P(a \<mapsto> x))) l = map (item P) l"
  by (auto simp: item_def)

lemma drop_entries_append: "drop_entries (drop_entries P [a]) zs = drop_entries P (zs @ [a])" if "a \<notin> set zs"
  using that by (auto simp: drop_entries_def fun_eq_iff)

lemma freed_blocks_append:
  "a \<notin> set zs \<Longrightarrow> freed_blocks P [a] \<union> freed_blocks (drop_entries P [a]) zs = freed_blocks P (zs @ [a])"
  by (auto simp: freed_blocks_def drop_entries_def)

lemma over_limit_view:
  assumes "lru_inv c xs pend"
  shows "over_limit c sz \<longleftrightarrow> is_over (max_entries c) (max_size c) sz (view c xs)"
  using lru_invD(3) [OF assms]
  by (simp add: over_limit_def is_over_def view_def accounted_def u64_add_mod total_items)

lemma evict_loop_ok:
  assumes "lru_inv c xs pend"
  shows "\<exists>c' ys zs. evict_loop sz c = Some c' \<and> xs = ys @ zs \<and> lru_inv c' ys pend \<and>
    map (item (payload (entries c))) ys = spec_evict (max_entries c) (max_size c) sz (view c xs) \<and>
    payload (entries c') = drop_entries (payload (entries c)) zs \<and>
    blocks c' = blocks c - freed_blocks (payload (entries c)) zs \<and>
    max_size c' = max_size c \<and> max_entries c' = max_entries c \<and>
    hits c' = hits c \<and> misses c' = misses c \<and> u64 (evictions c') = u64 (evictions c + length zs) \<and>
    ht_capacity (table c') = ht_capacity (table c)"
  using assms
proof (induction xs arbitrary: c rule: rev_induct)
  case Nil
  then have "tail c = None" by (auto simp: lru_inv_def ring_def)
  with Nil show ?case 
    by (subst evict_loop.simps, subst spec_evict.simps) (auto simp: view_def drop_entries_def freed_blocks_def)
next
  case (snoc a xs)
  show ?case
  proof (cases "over_limit c sz")
    case False
    then have "evict_loop sz c = Some c" by (subst evict_loop.simps) simp
    moreover have "spec_evict (max_entries c) (max_size c) sz (view c (xs @ [a])) = view c (xs @ [a])"
      using False over_limit_view [OF snoc.prems, of sz] by (subst spec_evict.simps) simp
    ultimately show ?thesis
      using snoc.prems by (intro exI [of _ c] exI [of _ "xs @ [a]"] exI [of _ "[]"])
        (auto simp: view_def drop_entries_def freed_blocks_def)
  next
    case True
    from snoc.prems have t: "tail c = Some a" and d: "a \<notin> set xs" by (auto simp: lru_inv_def ring_def)
    let ?P = "payload (entries c)"
    from evict_lru_ok [OF snoc.prems] obtain c1 where c1: "evict_lru c = Some c1" "lru_inv c1 xs pend"
      and P1: "payload (entries c1) = drop_entries ?P [a]" "blocks c1 = blocks c - freed_blocks ?P [a]"
      and s1: "max_size c1 = max_size c" "max_entries c1 = max_entries c" "hits c1 = hits c" "misses c1 = misses c"
        "evictions c1 = u64 (evictions c + 1)" "ht_capacity (table c1) = ht_capacity (table c)" by blast
    from snoc.IH [OF c1(2)] obtain c' ys zs where c': "evict_loop sz c1 = Some c'" "xs = ys @ zs" "lru_inv c' ys pend"
      and v': "map (item (payload (entries c1))) ys = spec_evict (max_entries c1) (max_size c1) sz (view c1 xs)"
      and P': "payload (entries c') = drop_entries (payload (entries c1)) zs"
        "blocks c' = blocks c1 - freed_blocks (payload (entries c1)) zs"
      and s': "max_size c' = max_size c1" "max_entries c' = max_entries c1" "hits c' = hits c1" "misses c' = misses c1"
        "u64 (evictions c') = u64 (evictions c1 + length zs)" "ht_capacity (table c') = ht_capacity (table c1)" by blast
    have az: "a \<notin> set zs" "a \<notin> set ys" using d c'(2) by auto
    have "evict_loop sz c = Some c'"
      using True t c1(1) c'(1) by (subst evict_loop.simps) simp
    moreover have "payload (entries c') = drop_entries ?P (zs @ [a])" using P' P1 drop_entries_append [OF az(1)] by simp
    moreover have "blocks c' = blocks c - freed_blocks ?P (zs @ [a])"
      using P'(2) P1 freed_blocks_append [OF az(1), of ?P] by auto
    moreover have "map (item ?P) ys = spec_evict (max_entries c) (max_size c) sz (view c (xs @ [a]))"
    proof -
      have "view c1 xs = butlast (view c (xs @ [a]))"
        using items_drop [of xs "[a]" ?P] d by (simp add: view_def P1)
      moreover have "map (item (payload (entries c1))) ys = map (item ?P) ys"
        using items_drop [of ys "[a]" ?P] az(2) by (simp add: P1)
      ultimately show ?thesis
        using v' s1 True over_limit_view [OF snoc.prems, of sz] by (subst spec_evict.simps) (auto simp: view_def simp del: map_eq_conv)
    qed
    moreover have "u64 (evictions c') = u64 (evictions c + length (zs @ [a]))"
      using s'(5) s1(5) by (simp add: u64_add_mod)
    ultimately show ?thesis using c' s' s1 by (intro exI [of _ c'] exI [of _ ys] exI [of _ "zs @ [a]"]) simp
  qed
qed

section \<open>Public operations keep the invariant\<close>

lemma lru_inv_counters [simp]:
  "lru_inv (c\<lparr>hits := h\<rparr>) xs pend = lru_inv c xs pend"
  "lru_inv (c\<lparr>misses := h\<rparr>) xs pend = lru_inv c xs pend"
  by (simp_all add: lru_inv_def ring_def accounted_def)

lemma lru_inv_move:
  assumes inv: "lru_inv c (ys @ a # zs) pend"
  shows "\<exists>es. list_move_front c a = Some (c\<lparr>entries := es, head := Some a, tail := lastp None (a # ys @ zs)\<rparr>) \<and>
    lru_inv (c\<lparr>entries := es, head := Some a, tail := lastp None (a # ys @ zs)\<rparr>) (a # ys @ zs) pend \<and>
    payload es = payload (entries c)"
proof -
  note inv' = lru_invD [OF inv]
  from list_move_front_ok [OF inv'(1)] obtain es where
    m: "list_move_front c a = Some (c\<lparr>entries := es, head := Some a, tail := lastp None (a # ys @ zs)\<rparr>)"
    "links es None (a # ys @ zs) None" "payload es = payload (entries c)" by blast
  let ?c = "c\<lparr>entries := es, head := Some a, tail := lastp None (a # ys @ zs)\<rparr>"
  have "ring ?c (a # ys @ zs)" using m inv'(1) by (auto simp: ring_def)
  moreover have "indexed (table ?c) (payload (entries ?c)) (a # ys @ zs)"
    using indexed_cong [OF inv'(2), of "a # ys @ zs" "payload (entries c)"] m(3) by (simp add: insert_commute)
  moreover have "accounted ?c (a # ys @ zs)" using inv'(3) m(3) by (simp add: accounted_def ac_simps)
  moreover have "owned (payload (entries ?c)) (blocks ?c) (a # ys @ zs) pend"
    using inv'(4) m(3) owned_cong [of "ys @ a # zs" "a # ys @ zs"] by simp
  ultimately have "lru_inv ?c (a # ys @ zs) pend" using inv'(5) by (auto simp: lru_inv_def)
  with m show ?thesis by blast
qed

lemma lru_inv_refcount:
  assumes inv: "lru_inv c xs pend" and a: "entries c a = Some x" and n: "a \<in> set xs \<or> a \<in> pend' \<or> 0 < n"
    and p: "pend \<subseteq> pend'" "set xs \<inter> pend' = {}"
  shows "lru_inv (c\<lparr>entries := (entries c)(a \<mapsto> x\<lparr>refcount := n\<rparr>)\<rparr>) xs pend'"
proof -
  note inv' = lru_invD [OF inv]
  let ?P' = "(payload (entries c))(a \<mapsto> strip x\<lparr>refcount := n\<rparr>)"
  have P: "payload (entries c) a = Some (strip x)" using a by simp
  have "ring (c\<lparr>entries := (entries c)(a \<mapsto> x\<lparr>refcount := n\<rparr>)\<rparr>) xs"
    using inv'(1) a by (simp add: ring_def links_upd_same)
  moreover have "indexed (table c) ?P' xs"
    by (rule indexed_cong [OF inv'(2)]) (use P in \<open>auto simp: has_key_def\<close>)
  moreover have "esize ?P' = esize (payload (entries c))" using P by (auto simp: esize_def fun_eq_iff)
  then have "accounted (c\<lparr>entries := (entries c)(a \<mapsto> x\<lparr>refcount := n\<rparr>)\<rparr>) xs"
    using inv'(3) by (simp add: accounted_def)
  moreover have "owned ?P' (blocks c) xs pend'"
  proof (rule ownedI)
    fix b y assume b: "?P' b = Some y" "b \<notin> pend'"
    have "b \<notin> pend" using b(2) p by blast
    then have "P b = Some z \<Longrightarrow> P = payload (entries c) \<Longrightarrow> if b \<in> set xs then \<not> removed z else removed z \<and> 0 < refcount z"
      for P z using ownedD(1,2) [OF inv'(4), of b z] by simp
    from this [OF _ refl, of "if b = a then strip x else y"] show "if b \<in> set xs then \<not> removed y else removed y \<and> 0 < refcount y"
      using n P b by (cases "b = a") (auto split: if_splits)
  next
    fix b y q assume "?P' b = Some y" "e_data y = Some q"
    then show "q \<in> blocks c" using ownedD(3) [OF inv'(4)] P by (cases "b = a") auto
  next
    fix b b' y y' q
    assume "?P' b = Some y" "?P' b' = Some y'" "e_data y = Some q" "e_data y' = Some q"
    then show "b = b'" using ownedD(4) [OF inv'(4)] P by (cases "b = a"; cases "b' = a") auto
  qed
  ultimately show ?thesis using p by (simp add: lru_inv_def)
qed

lemma lru_inv_free:
  assumes inv: "lru_inv c xs {a}" and a: "payload (entries c) a = Some x"
  shows "lru_inv (c\<lparr>entries := (entries c)(a := None), blocks := blocks c - set_option (e_data x)\<rparr>) xs {}"
proof -
  note inv' = lru_invD [OF inv]
  have ax: "a \<notin> set xs" using inv'(5) by auto
  let ?P = "(payload (entries c))(a := None)"
  have "indexed (table c) ?P xs" by (rule indexed_cong [OF inv'(2)]) (use ax in \<open>auto simp: has_key_def\<close>)
  moreover have "owned ?P (blocks c - set_option (e_data x)) xs {}"
    using inv'(4) a unfolding owned_def by (auto split: if_splits)
  ultimately show ?thesis
    using inv'(1,3) ax by (simp add: lru_inv_def ring_def accounted_def payload_free)
qed

lemma find_append_None: "List.find Q xs = None \<Longrightarrow> List.find Q (xs @ ys) = List.find Q ys"
  by (induction xs) (auto split: if_splits)

lemma lookup_view:
  assumes inv: "lru_inv c xs pend"
  shows "ht_lookup (table c) k = None \<longleftrightarrow> spec_find k (view c xs) = None"
    and "ht_lookup (table c) k = Some a \<Longrightarrow> \<exists>ys zs. xs = ys @ a # zs \<and>
      spec_find k (view c xs) = Some (item (payload (entries c)) a) \<and> fst (item (payload (entries c)) a) = cstr k \<and>
      filter (\<lambda>j. fst j \<noteq> cstr k) (view c xs) = map (item (payload (entries c))) (ys @ zs)"
proof -
  let ?P = "payload (entries c)"
  note inv' = lru_invD [OF inv]
  have key: "fst (item ?P b) = cstr k \<longleftrightarrow> has_key ?P b k" if "b \<in> set xs" for b
    using ring_live [OF inv'(1) that] by (auto simp: item_def has_key_def key_eq_def)
  show "ht_lookup (table c) k = None \<longleftrightarrow> spec_find k (view c xs) = None"
    unfolding indexed_lookup(3) [OF inv'(2)] using key by (auto simp: spec_find_def find_None_iff view_def)
  assume "ht_lookup (table c) k = Some a"
  then have a: "a \<in> set xs" "has_key ?P a k" using indexed_lookup(1) [OF inv'(2)] by blast+
  then obtain ys zs where xs: "xs = ys @ a # zs" by (meson split_list)
  have others: "\<not> has_key ?P b k" if "b \<in> set (ys @ zs)" for b
    using indexed_unique [OF inv'(2) a(1) _ a(2), of b] that xs inv'(1) by (auto simp: ring_def)
  have keys: "fst (item ?P b) \<noteq> cstr k" if "b \<in> set (ys @ zs)" for b using that key [of b] others xs by auto
  have "filter (\<lambda>j. fst j \<noteq> cstr k) (map (item ?P) (ys @ zs)) = map (item ?P) (ys @ zs)"
    using keys by (subst filter_id_conv) auto
  moreover have "spec_find k (map (item ?P) ys) = None" using keys by (auto simp: spec_find_def find_None_iff)
  then have "spec_find k (view c xs) = Some (item ?P a)"
    using key [OF a(1)] a(2) xs by (auto simp: spec_find_def view_def find_append_None)
  ultimately show "\<exists>ys zs. xs = ys @ a # zs \<and>
      spec_find k (view c xs) = Some (item (payload (entries c)) a) \<and> fst (item (payload (entries c)) a) = cstr k \<and>
      filter (\<lambda>j. fst j \<noteq> cstr k) (view c xs) = map (item (payload (entries c))) (ys @ zs)"
    using xs key [OF a(1)] a(2) by (intro exI [of _ ys] exI [of _ zs]) (simp add: view_def)
qed

lemma item_refcount [simp]: "item (P(a \<mapsto> x\<lparr>refcount := n\<rparr>)) = item (P(a \<mapsto> x))"
  by (auto simp: item_def fun_eq_iff)

lemma lru_get_ok:
  assumes inv: "lru_inv c xs {}"
  shows "\<exists>c' xs' r. lru_cache_get c k = Some (c', r) \<and> lru_inv c' xs' {} \<and>
    view c' xs' = spec_touch k (view c xs) \<and> (r = None \<longleftrightarrow> spec_find k (view c xs) = None) \<and>
    blocks c' = blocks c \<and> max_size c' = max_size c \<and> max_entries c' = max_entries c \<and>
    evictions c' = evictions c \<and> table c' = table c \<and>
    (case r of
       None \<Rightarrow> hits c' = hits c \<and> misses c' = u64 (misses c + 1) \<and> payload (entries c') = payload (entries c)
     | Some a \<Rightarrow> hits c' = u64 (hits c + 1) \<and> misses c' = misses c \<and> (\<exists>x. payload (entries c) a = Some x \<and>
         spec_find k (view c xs) = Some (cstr k, e_data x, e_size x) \<and>
         payload (entries c') = (payload (entries c))(a \<mapsto> x\<lparr>refcount := u32 (refcount x + 1)\<rparr>)))"
proof (cases "ht_lookup (table c) k")
  case None
  then have "spec_find k (view c xs) = None" using lookup_view(1) [OF inv] by blast
  with None inv show ?thesis
    by (intro exI [of _ "c\<lparr>misses := u64 (misses c + 1)\<rparr>"] exI [of _ xs] exI [of _ None])
      (simp add: lru_cache_get_def view_def spec_touch_def)
next
  case (Some a)
  let ?P = "payload (entries c)"
  from lookup_view(2) [OF inv Some] obtain ys zs where xs: "xs = ys @ a # zs"
    and f: "spec_find k (view c xs) = Some (item ?P a)" "fst (item ?P a) = cstr k"
    "filter (\<lambda>j. fst j \<noteq> cstr k) (view c xs) = map (item ?P) (ys @ zs)" by blast
  obtain y where y: "entries c a = Some y" using ring_live [OF lru_invD(1) [OF inv], of a] xs by auto
  let ?y = "y\<lparr>refcount := u32 (refcount y + 1)\<rparr>"
  let ?c1 = "c\<lparr>entries := (entries c)(a \<mapsto> ?y)\<rparr>"
  have "lru_inv ?c1 (ys @ a # zs) {}" using lru_inv_refcount [OF inv y, of "{}"] xs by simp
  from lru_inv_move [OF this] obtain es where
    m: "list_move_front ?c1 a = Some (?c1\<lparr>entries := es, head := Some a, tail := lastp None (a # ys @ zs)\<rparr>)"
      "lru_inv (?c1\<lparr>entries := es, head := Some a, tail := lastp None (a # ys @ zs)\<rparr>) (a # ys @ zs) {}"
      "payload es = payload (entries ?c1)" by blast
  let ?c2 = "?c1\<lparr>entries := es, head := Some a, tail := lastp None (a # ys @ zs)\<rparr>"
  let ?c = "?c2\<lparr>hits := u64 (hits c + 1)\<rparr>"
  have P: "payload es = ?P(a \<mapsto> (strip y)\<lparr>refcount := u32 (refcount y + 1)\<rparr>)" using m(3) by simp
  have "item (payload es) = item ?P" using P y by (simp add: fun_upd_idem)
  then have "view ?c (a # ys @ zs) = spec_touch k (view c xs)"
    using f by (simp add: view_def spec_touch_def)
  moreover have "lru_cache_get c k = Some (?c, Some a)"
    using Some y m(1) by (simp add: lru_cache_get_def upd_entry_def)
  moreover have "item ?P a = (cstr k, e_data y, e_size y)" using f(2) y by (simp add: item_def)
  ultimately show ?thesis
    using m(2) P f(1) y by (intro exI [of _ ?c] exI [of _ "a # ys @ zs"] exI [of _ "Some a"]) simp
qed

lemma lru_release_ok:
  assumes inv: "lru_inv c xs {}" and a: "payload (entries c) a = Some x"
  defines "n \<equiv> refcount x - 1"
  shows "\<exists>c'. lru_cache_release c (Some a) = Some c' \<and> lru_inv c' xs {} \<and> view c' xs = view c xs \<and>
    payload (entries c') = (payload (entries c))(a := if removed x \<and> n = 0 then None else Some (x\<lparr>refcount := n\<rparr>)) \<and>
    blocks c' = (if removed x \<and> n = 0 then blocks c - set_option (e_data x) else blocks c)"
proof -
  let ?P = "payload (entries c)"
  from a obtain y where y: "entries c a = Some y" "x = strip y" by (rule payload_SomeE)
  note inv' = lru_invD [OF inv]
  let ?c1 = "c\<lparr>entries := (entries c)(a \<mapsto> y\<lparr>refcount := n\<rparr>)\<rparr>"
  have c1: "(if 0 < refcount y then upd_entry c a (\<lambda>y. y\<lparr>refcount := refcount y - 1\<rparr>) else Some c) = Some ?c1"
    using y by (auto simp: upd_entry_def n_def fun_upd_idem)
  have P1: "payload (entries ?c1) = ?P(a \<mapsto> x\<lparr>refcount := n\<rparr>)" using y by simp
  have items: "item (payload (entries ?c1)) = item ?P" using P1 a by (simp add: fun_upd_idem)
  show ?thesis
  proof (cases "removed x \<and> n = 0")
    case False
    then have "a \<in> set xs \<or> 0 < n" using ownedD(2) [OF inv'(4) a] by (cases "a \<in> set xs") (auto simp: n_def)
    then have "lru_inv ?c1 xs {}" using lru_inv_refcount [OF inv y(1), of "{}" n] by simp
    moreover have "lru_cache_release c (Some a) = Some ?c1"
      using y(1) c1 False y(2) by (auto simp: lru_cache_release_def entry_maybe_free_def)
    ultimately show ?thesis using False P1 items by (intro exI [of _ ?c1]) (auto simp: view_def)
  next
    case True
    then have ax: "a \<notin> set xs" using ownedD(1) [OF inv'(4) a] by auto
    have inv1: "lru_inv ?c1 xs {a}" using lru_inv_refcount [OF inv y(1), of "{a}" n] ax by simp
    let ?c = "?c1\<lparr>entries := (entries ?c1)(a := None), blocks := blocks ?c1 - set_option (e_data (x\<lparr>refcount := n\<rparr>))\<rparr>"
    have inv2: "lru_inv ?c xs {}" using P1 by (intro lru_inv_free [OF inv1]) simp
    have "entry_maybe_free ?c1 a = Some ?c"
      using entry_maybe_free_ok [OF lru_invD(4) [OF inv1], of a "x\<lparr>refcount := n\<rparr>"] y True by simp
    then have "lru_cache_release c (Some a) = Some ?c"
      using y(1) c1 by (simp add: lru_cache_release_def)
    moreover have "view ?c xs = view c xs" using ax by (auto simp: view_def item_def payload_free)
    ultimately show ?thesis using inv2 True by (intro exI [of _ ?c]) (simp add: payload_free)
  qed
qed

text \<open>What \<open>lru_cache_put\<close> may be given: a live payload that no entry owns, or \<open>NULL\<close>.\<close>

definition fresh_data :: "lru_cache \<Rightarrow> block option \<Rightarrow> bool" where
  "fresh_data c d \<longleftrightarrow> (\<forall>b. d = Some b \<longrightarrow> b \<in> blocks c \<and>
     (\<forall>a x. payload (entries c) a = Some x \<longrightarrow> e_data x \<noteq> Some b))"

definition fresh_node :: "lru_cache \<Rightarrow> addr option \<Rightarrow> bool" where
  "fresh_node c node \<longleftrightarrow> (\<forall>e. node = Some e \<longrightarrow> entries c e = None)"

lemma fresh_nodeD: "fresh_node c node \<Longrightarrow> node = Some e \<Longrightarrow> entries c e = None"
  by (simp add: fresh_node_def)

lemma fresh_dataD:
  "fresh_data c d \<Longrightarrow> d = Some b \<Longrightarrow> b \<in> blocks c"
  "fresh_data c d \<Longrightarrow> d = Some b \<Longrightarrow> payload (entries c) a = Some x \<Longrightarrow> e_data x \<noteq> Some b"
  by (auto simp: fresh_data_def)

lemma free_fresh: "fresh_data c d \<Longrightarrow> free_block c d = Some (c\<lparr>blocks := blocks c - set_option d\<rparr>)"
  by (auto simp: fresh_data_def free_block_def split: option.splits)

lemma lru_inv_free_data:
  assumes "lru_inv c xs pend" "fresh_data c d"
  shows "lru_inv (c\<lparr>blocks := blocks c - set_option d\<rparr>) xs pend"
proof -
  note inv' = lru_invD [OF assms(1)]
  have "owned (payload (entries c)) (blocks c - set_option d) xs pend"
  proof (rule ownedI)
    fix a x assume "payload (entries c) a = Some x" "a \<notin> pend"
    then show "if a \<in> set xs then \<not> removed x else removed x \<and> 0 < refcount x" using ownedD(1,2) [OF inv'(4)] by simp
  next
    fix a x b assume "payload (entries c) a = Some x" "e_data x = Some b"
    then show "b \<in> blocks c - set_option d" using ownedD(3) [OF inv'(4)] fresh_dataD(2) [OF assms(2)] by fastforce
  qed (use ownedD(4) [OF inv'(4)] in blast)
  with inv' show ?thesis by (simp add: lru_inv_def ring_def accounted_def)
qed

text \<open>Replacing the payload of a listed entry.\<close>

lemma lru_inv_replace:
  assumes inv: "lru_inv c (ys @ a # zs) {}" and y: "entries c a = Some y" and d: "fresh_data c d"
  shows "lru_inv (c\<lparr>blocks := blocks c - set_option (e_data y),
      entries := (entries c)(a \<mapsto> y\<lparr>e_data := d, e_size := sz\<rparr>),
      current_size := u64 (u64_sub (current_size c) (e_size y) + sz)\<rparr>) (ys @ a # zs) {}"
    (is "lru_inv ?c (ys @ a # zs) {}")
proof -
  note inv' = lru_invD [OF inv]
  let ?P = "payload (entries c)"
  let ?x = "(strip y)\<lparr>e_data := d, e_size := sz\<rparr>"
  have ad: "a \<notin> set ys" "a \<notin> set zs" using inv'(1) by (auto simp: ring_def)
  have Pa: "?P a = Some (strip y)" using y by simp
  have P': "payload (entries ?c) = ?P(a \<mapsto> ?x)" by simp
  have "ring ?c (ys @ a # zs)" using inv'(1) y by (simp add: ring_def links_upd_same)
  moreover have "indexed (table c) (?P(a \<mapsto> ?x)) (ys @ a # zs)"
    by (rule indexed_cong [OF inv'(2)]) (use Pa in \<open>auto simp: has_key_def\<close>)
  moreover have "accounted ?c (ys @ a # zs)"
  proof -
    have "u64_sub (current_size c) (e_size y) = u64 (sum_list (map (esize ?P) (ys @ zs)))"
      using inv'(3) u64_sub_add_mod [of "sum_list (map (esize ?P) (ys @ zs))" "e_size y"] Pa
      by (simp add: accounted_def esize_def [of _ a] ac_simps)
    then show ?thesis
      using inv'(3) ad unfolding accounted_def P' by (simp add: u64_add_mod_right esize_def [of _ a] ac_simps)
  qed
  moreover have "owned (?P(a \<mapsto> ?x)) (blocks c - set_option (e_data y)) (ys @ a # zs) {}"
  proof (rule ownedI)
    fix b z assume "(?P(a \<mapsto> ?x)) b = Some z" "b \<notin> {}"
    then show "if b \<in> set (ys @ a # zs) then \<not> removed z else removed z \<and> 0 < refcount z"
      using ownedD(1,2) [OF inv'(4), of b] ownedD(1) [OF inv'(4) Pa] by (cases "b = a") auto
  next
    fix b z q assume z: "(?P(a \<mapsto> ?x)) b = Some z" "e_data z = Some q"
    show "q \<in> blocks c - set_option (e_data y)"
    proof (cases "b = a")
      case True
      with z have "d = Some q" by auto
      with fresh_dataD(1) [OF d this] fresh_dataD(2) [OF d this Pa] show ?thesis by auto
    next
      case False
      with z have "?P b = Some z" by simp
      with ownedD(3) [OF inv'(4) this z(2)] ownedD(4) [OF inv'(4) Pa this _ z(2)] False show ?thesis by auto
    qed
  next
    fix b b' z z' q
    assume "(?P(a \<mapsto> ?x)) b = Some z" "(?P(a \<mapsto> ?x)) b' = Some z'" "e_data z = Some q" "e_data z' = Some q"
    then show "b = b'"
      using ownedD(4) [OF inv'(4), of b z b' z' q] fresh_dataD(2) [OF d, of q b z] fresh_dataD(2) [OF d, of q b' z']
      by (cases "b = a"; cases "b' = a") auto
  qed
  ultimately show ?thesis unfolding lru_inv_def P' by simp
qed

lemma lru_put_overwrite:
  assumes inv: "lru_inv c xs {}" and d: "fresh_data c d" and old: "ht_lookup (table c) k = Some a"
  shows "\<exists>c' xs'. lru_cache_put node dup grow c k d sz = Some (c', True) \<and> lru_inv c' xs' {} \<and>
    view c' xs' = spec_put (max_entries c) (max_size c) k d sz (view c xs) \<and>
    (\<exists>x. payload (entries c) a = Some x \<and> payload (entries c') = (payload (entries c))(a \<mapsto> x\<lparr>e_data := d, e_size := sz\<rparr>) \<and>
      blocks c' = blocks c - set_option (e_data x)) \<and>
    max_size c' = max_size c \<and> max_entries c' = max_entries c"
proof -
  let ?P = "payload (entries c)"
  from lookup_view(2) [OF inv old] obtain ys zs where xs: "xs = ys @ a # zs"
    and f: "spec_find k (view c xs) = Some (item ?P a)" "fst (item ?P a) = cstr k"
    "filter (\<lambda>j. fst j \<noteq> cstr k) (view c xs) = map (item ?P) (ys @ zs)" by blast
  have ad: "a \<notin> set ys" "a \<notin> set zs" using lru_invD(1) [OF inv] xs by (auto simp: ring_def)
  obtain y where y: "entries c a = Some y" using ring_live [OF lru_invD(1) [OF inv], of a] xs by auto
  let ?c1 = "c\<lparr>blocks := blocks c - set_option (e_data y),
      entries := (entries c)(a \<mapsto> y\<lparr>e_data := d, e_size := sz\<rparr>),
      current_size := u64 (u64_sub (current_size c) (e_size y) + sz)\<rparr>"
  have "lru_inv ?c1 (ys @ a # zs) {}" using lru_inv_replace [OF _ y d] inv xs by simp
  from lru_inv_move [OF this] obtain es where
    m: "list_move_front ?c1 a = Some (?c1\<lparr>entries := es, head := Some a, tail := lastp None (a # ys @ zs)\<rparr>)"
    "lru_inv (?c1\<lparr>entries := es, head := Some a, tail := lastp None (a # ys @ zs)\<rparr>) (a # ys @ zs) {}"
    "payload es = payload (entries ?c1)" by blast
  let ?c2 = "?c1\<lparr>entries := es, head := Some a, tail := lastp None (a # ys @ zs)\<rparr>"
  have live: "e_data y = Some b \<Longrightarrow> b \<in> blocks c" for b
    using ownedD(3) [OF lru_invD(4) [OF inv], of a "strip y"] y by simp
  have "lru_cache_put node dup grow c k d sz = Some (?c2, True)"
    using old y m(1) live
    by (cases "e_data y") (simp_all add: lru_cache_put_def upd_entry_def free_block_def Let_def)
  moreover have P: "payload es = ?P(a \<mapsto> (strip y)\<lparr>e_data := d, e_size := sz\<rparr>)" using m(3) by simp
  have "map (item (payload es)) (ys @ zs) = map (item ?P) (ys @ zs)" using ad P by (auto simp: item_def)
  moreover have "item (payload es) a = (cstr k, d, sz)" using P f(2) y by (simp add: item_def)
  ultimately have "view ?c2 (a # ys @ zs) = spec_put (max_entries c) (max_size c) k d sz (view c xs)"
    using f by (simp add: view_def spec_put_def)
  with \<open>lru_cache_put node dup grow c k d sz = Some (?c2, True)\<close> m(2) P y show ?thesis
    by (intro exI [of _ ?c2] exI [of _ "a # ys @ zs"]) simp
qed

text \<open>A freshly allocated entry is pending until it is linked.\<close>

definition new_entry :: "string \<Rightarrow> block option \<Rightarrow> nat \<Rightarrow> lru_entry" where
  "new_entry k d sz = \<lparr>e_data = d, e_size = sz, e_key = cstr k, refcount = 0, removed = False,
     prev = None, next = None\<rparr>"

lemma new_entry_strip [simp]: "strip (new_entry k d sz) = new_entry k d sz"
  by (simp add: strip_def new_entry_def)

lemma payload_None: "payload es a = None \<longleftrightarrow> es a = None"
  by (simp add: payload_def)

lemma lru_inv_alloc:
  assumes inv: "lru_inv c xs {}" and e: "entries c e = None" and d: "fresh_data c d"
  shows "lru_inv (c\<lparr>entries := (entries c)(e \<mapsto> new_entry k d sz)\<rparr>) xs {e}"
proof -
  note inv' = lru_invD [OF inv]
  let ?P = "payload (entries c)"
  have ex: "e \<notin> set xs" using ring_live [OF inv'(1)] e by fastforce
  have Pe: "?P e = None" using e by (simp add: payload_None)
  let ?P' = "?P(e \<mapsto> new_entry k d sz)"
  have "indexed (table c) ?P' xs"
    by (rule indexed_cong [OF inv'(2)]) (use ex in \<open>auto simp: has_key_def\<close>)
  moreover have "owned ?P' (blocks c) xs {e}"
  proof (rule ownedI)
    fix b z assume "?P' b = Some z" "b \<notin> {e}"
    then show "if b \<in> set xs then \<not> removed z else removed z \<and> 0 < refcount z"
      using ownedD(1,2) [OF inv'(4), of b z] by simp
  next
    fix b z q assume "?P' b = Some z" "e_data z = Some q"
    then show "q \<in> blocks c"
      using ownedD(3) [OF inv'(4), of b z q] fresh_dataD(1) [OF d, of q] by (auto simp: new_entry_def split: if_splits)
  next
    fix b b' z z' q
    assume "?P' b = Some z" "?P' b' = Some z'" "e_data z = Some q" "e_data z' = Some q"
    then show "b = b'"
      using ownedD(4) [OF inv'(4), of b z b' z' q] fresh_dataD(2) [OF d, of q b z] fresh_dataD(2) [OF d, of q b' z']
      by (cases "b = e"; cases "b' = e") (auto simp: new_entry_def)
  qed
  ultimately show ?thesis
    using inv'(1,3) ex by (simp add: lru_inv_def ring_def accounted_def)
qed

text \<open>Linking the pending entry under a key that is not listed.\<close>

lemma lru_inv_link:
  assumes inv: "lru_inv c ys {e}" and e: "payload (entries c) e = Some (new_entry k d sz)"
    and absent: "ht_lookup (table c) (cstr k) = None" and ins: "ht_insert grow (table c) (cstr k) (Some e) = (t, True)"
  defines "c1 \<equiv> c\<lparr>table := t, num_entries := u64 (num_entries c + 1), current_size := u64 (current_size c + sz)\<rparr>"
  shows "\<exists>c'. list_push_front c1 e = Some c' \<and> lru_inv c' (e # ys) {} \<and> payload (entries c') = payload (entries c) \<and>
    blocks c' = blocks c \<and> max_size c' = max_size c \<and> max_entries c' = max_entries c \<and> evictions c' = evictions c"
proof -
  note inv' = lru_invD [OF inv]
  let ?P = "payload (entries c)"
  from e obtain y where y: "entries c e = Some y" by (rule payload_SomeE)
  have ey: "e \<notin> set ys" using inv'(5) by auto
  have "ring c1 ys" using inv'(1) by (simp add: c1_def ring_def)
  moreover have "entries c1 e = Some y" using y by (simp add: c1_def)
  ultimately obtain es where
    f: "list_push_front c1 e = Some (c1\<lparr>entries := es, head := Some e, tail := lastp None (e # ys)\<rparr>)"
    "links es None (e # ys) None" "payload es = payload (entries c1)"
    using list_push_front_ok [of c1 ys e y] ey by blast
  let ?c = "c1\<lparr>entries := es, head := Some e, tail := lastp None (e # ys)\<rparr>"
  have P: "payload es = ?P" using f(3) by (simp add: c1_def)
  have "ring ?c (e # ys)" using f(2) inv'(1) ey by (simp add: ring_def)
  moreover have "indexed t ?P (e # ys)"
    by (rule indexed_insert [OF inv'(2) absent ins ey]) (use e in \<open>auto simp: has_key_def new_entry_def\<close>)
  moreover have "accounted ?c (e # ys)"
    using inv'(3) e accounted_u64 [OF inv'(2)] P
    by (simp add: accounted_def c1_def u64_add_mod_right esize_def [of _ e] new_entry_def ac_simps)
  moreover have "owned ?P (blocks c) (e # ys) {}"
  proof (rule ownedI)
    fix b z assume "?P b = Some z" "b \<notin> {}"
    then show "if b \<in> set (e # ys) then \<not> removed z else removed z \<and> 0 < refcount z"
      using ownedD(1,2) [OF inv'(4), of b z] e by (cases "b = e") (auto simp: new_entry_def)
  qed (use ownedD(3,4) [OF inv'(4)] in blast)+
  ultimately have "lru_inv ?c (e # ys) {}" using P by (simp add: lru_inv_def c1_def)
  with f(1) P show ?thesis by (intro exI [of _ ?c]) (simp add: c1_def)
qed

lemma key_eq_cstr [simp]: "key_eq (cstr k) k' = key_eq k k'" "key_eq k (cstr k') = key_eq k k'"
  by (simp_all add: key_eq_def)

lemma spec_find_cstr [simp]: "spec_find (cstr k) l = spec_find k l"
  by (simp add: spec_find_def)

lemma spec_evict_prefix: "prefix (spec_evict me ms sz l) l"
proof (induction me ms sz l rule: spec_evict.induct)
  case (1 me ms sz l)
  then show ?case by (subst spec_evict.simps) (auto intro: prefix_order.trans prefixeq_butlast)
qed

lemma spec_find_prefix: "spec_find k l = None \<Longrightarrow> prefix l' l \<Longrightarrow> spec_find k l' = None"
  by (auto simp: spec_find_def find_None_iff prefix_def)

lemma free_block_fresh_drop:
  assumes "fresh_data c d" "blocks c' = blocks c - freed_blocks (payload (entries c)) zs"
  shows "free_block c' d = Some (c'\<lparr>blocks := blocks c' - set_option d\<rparr>)"
  using assms by (auto simp: fresh_data_def free_block_def freed_blocks_def split: option.splits)

text \<open>Every way a \<open>put\<close> of a new key can end.\<close>

text \<open>Making room for a new entry, which is allocated and not yet linked.\<close>

lemma put_makes_room:
  assumes inv: "lru_inv c xs {}" and d: "fresh_data c d" and absent: "ht_lookup (table c) k = None" and e: "entries c e = None"
  obtains c1 ys zs where "evict_loop sz (c\<lparr>entries := (entries c)(e \<mapsto> new_entry k d sz)\<rparr>) = Some c1" "xs = ys @ zs" "lru_inv c1 ys {e}"
    "map (item (payload (entries c))) ys = spec_evict (max_entries c) (max_size c) sz (view c xs)"
    "payload (entries c1) = (drop_entries (payload (entries c)) zs)(e \<mapsto> new_entry k d sz)"
    "blocks c1 = blocks c - freed_blocks (payload (entries c)) zs"
    "max_size c1 = max_size c" "max_entries c1 = max_entries c"
    "u64 (evictions c1) = u64 (evictions c + length zs)" "ht_capacity (table c1) = ht_capacity (table c)"
    "ht_lookup (table c1) (cstr k) = None" "e \<notin> set ys" "e \<notin> set zs"
proof -
  let ?P = "payload (entries c)" and ?c0 = "c\<lparr>entries := (entries c)(e \<mapsto> new_entry k d sz)\<rparr>"
  have inv0: "lru_inv ?c0 xs {e}" by (rule lru_inv_alloc [OF inv e d])
  have ex: "e \<notin> set xs" using lru_invD(5) [OF inv0] by auto
  have P0: "payload (entries ?c0) = ?P(e \<mapsto> new_entry k d sz)" by simp
  from evict_loop_ok [OF inv0, of sz] obtain c1 ys zs where
    c1: "evict_loop sz ?c0 = Some c1" "xs = ys @ zs" "lru_inv c1 ys {e}"
    and v1: "map (item (payload (entries ?c0))) ys = spec_evict (max_entries c) (max_size c) sz (view ?c0 xs)"
    and P1: "payload (entries c1) = drop_entries (?P(e \<mapsto> new_entry k d sz)) zs"
      "blocks c1 = blocks c - freed_blocks (?P(e \<mapsto> new_entry k d sz)) zs"
    and s1: "max_size c1 = max_size c" "max_entries c1 = max_entries c"
      "u64 (evictions c1) = u64 (evictions c + length zs)" "ht_capacity (table c1) = ht_capacity (table c)"
    by auto
  have ez: "e \<notin> set ys" "e \<notin> set zs" using ex c1(2) by auto
  have P1': "payload (entries c1) = (drop_entries ?P zs)(e \<mapsto> new_entry k d sz)"
    using P1(1) ez by (auto simp: drop_entries_def fun_eq_iff)
  have b1: "blocks c1 = blocks c - freed_blocks ?P zs" using P1(2) ez by (force simp: freed_blocks_def)
  have v: "map (item ?P) ys = spec_evict (max_entries c) (max_size c) sz (view c xs)"
    using v1 items_upd [OF ez(1), of ?P] items_upd [OF ex, of ?P] unfolding view_def P0 by simp
  have "view c1 ys = map (item ?P) ys"
    using items_drop [of ys zs ?P] items_upd [OF ez(1)] lru_invD(1) [OF inv] c1(2) by (simp add: view_def P1' ring_def del: map_eq_conv)
  then have "spec_find k (view c1 ys) = None"
    using v spec_find_prefix [OF _ spec_evict_prefix] lookup_view(1) [OF inv] absent by metis
  then have "ht_lookup (table c1) (cstr k) = None"
    using lookup_view(1) [OF c1(3), of "cstr k"] by simp
  then show ?thesis by (rule that [OF c1 v P1' b1 s1 _ ez])
qed

text \<open>
  The three ways an insertion of an absent key ends: refused at the start, stored, or given up after
  evictions because the index could not grow.
\<close>

lemma lru_put_new:
  assumes inv: "lru_inv c xs {}" and d: "fresh_data c d" and absent: "ht_lookup (table c) k = None"
    and node: "fresh_node c node"
  obtains (refused) c' where "max_size c < sz \<or> node = None \<or> \<not> dup" "lru_cache_put node dup grow c k d sz = Some (c', False)"
      "lru_inv c' xs {}" "payload (entries c') = payload (entries c)" "blocks c' = blocks c - set_option d"
      "max_size c' = max_size c" "max_entries c' = max_entries c"
  | (stored) e c' ys zs where "node = Some e" "dup" "sz \<le> max_size c" "lru_cache_put node dup grow c k d sz = Some (c', True)"
      "xs = ys @ zs" "map (item (payload (entries c))) ys = spec_evict (max_entries c) (max_size c) sz (view c xs)"
      "lru_inv c' (e # ys) {}" "payload (entries c') = (drop_entries (payload (entries c)) zs)(e \<mapsto> new_entry k d sz)" "e \<notin> set ys"
      "blocks c' = blocks c - freed_blocks (payload (entries c)) zs" "max_size c' = max_size c" "max_entries c' = max_entries c"
  | (ungrown) e c' ys zs where "node = Some e" "dup" "sz \<le> max_size c" "lru_cache_put node dup grow c k d sz = Some (c', False)"
      "xs = ys @ zs" "map (item (payload (entries c))) ys = spec_evict (max_entries c) (max_size c) sz (view c xs)"
      "\<not> (grow \<and> ht_capacity (table c) * 48 < U64)" "lru_inv c' ys {}" "payload (entries c') = drop_entries (payload (entries c)) zs"
      "blocks c' = blocks c - freed_blocks (payload (entries c)) zs - set_option d" "max_size c' = max_size c" "max_entries c' = max_entries c"
proof (cases "max_size c < sz \<or> node = None \<or> \<not> dup")
  case True
  let ?c = "c\<lparr>blocks := blocks c - set_option d\<rparr>"
  have "lru_cache_put node dup grow c k d sz = Some (?c, False)"
    using True absent free_fresh [OF d] by (auto simp: lru_cache_put_def split: option.splits)
  from refused [OF True this] lru_inv_free_data [OF inv d] show ?thesis by simp
next
  case False
  then obtain e where n: "node = Some e" "dup" "sz \<le> max_size c" by auto
  let ?P = "payload (entries c)"
  have e: "entries c e = None" "?P e = None" using fresh_nodeD [OF node] n by (auto simp: payload_None)
  obtain c1 ys zs where c1: "evict_loop sz (c\<lparr>entries := (entries c)(e \<mapsto> new_entry k d sz)\<rparr>) = Some c1" "xs = ys @ zs" "lru_inv c1 ys {e}"
    and v: "map (item ?P) ys = spec_evict (max_entries c) (max_size c) sz (view c xs)"
    and P1: "payload (entries c1) = (drop_entries ?P zs)(e \<mapsto> new_entry k d sz)" and b1: "blocks c1 = blocks c - freed_blocks ?P zs"
    and s1: "max_size c1 = max_size c" "max_entries c1 = max_entries c" "ht_capacity (table c1) = ht_capacity (table c)"
    and absent1: "ht_lookup (table c1) (cstr k) = None" and ez: "e \<notin> set ys" "e \<notin> set zs"
    using put_makes_room [OF inv d absent e(1)] by metis
  have wf1: "ht_wf (table c1)" using lru_invD(2) [OF c1(3)] by (simp add: indexed_def)
  have Pe: "payload (entries c1) e = Some (new_entry k d sz)" using P1 by simp
  have put: "lru_cache_put node dup grow c k d sz = (case ht_insert grow (table c1) (cstr k) (Some e) of
      (t, False) \<Rightarrow> do { c \<leftarrow> free_block (c1\<lparr>table := t, entries := (entries c1)(e := None)\<rparr>) d; Some (c, False) }
    | (t, True) \<Rightarrow> do { c \<leftarrow> list_push_front (c1\<lparr>table := t, num_entries := u64 (num_entries c1 + 1),
          current_size := u64 (current_size c1 + sz)\<rparr>) e; Some (c, True) })"
    using n absent c1(1) by (simp add: lru_cache_put_def Let_def new_entry_def split: prod.split bool.split)
  obtain t b where ins: "ht_insert grow (table c1) (cstr k) (Some e) = (t, b)" by fastforce
  show ?thesis
  proof (cases b)
    case True
    with ins have "ht_insert grow (table c1) (cstr k) (Some e) = (t, True)" by simp
    from lru_inv_link [OF c1(3) Pe absent1 this] obtain c' where
      c': "list_push_front (c1\<lparr>table := t, num_entries := u64 (num_entries c1 + 1), current_size := u64 (current_size c1 + sz)\<rparr>) e = Some c'"
      "lru_inv c' (e # ys) {}" "payload (entries c') = payload (entries c1)" "blocks c' = blocks c1"
      "max_size c' = max_size c1" "max_entries c' = max_entries c1" by blast
    have "lru_cache_put node dup grow c k d sz = Some (c', True)" using put ins True c'(1) by simp
    from stored [OF n this c1(2) v] show ?thesis using c' s1 P1 b1 ez by simp
  next
    case False
    with ins have ins: "ht_insert grow (table c1) (cstr k) (Some e) = (t, False)" by simp
    note no = ht_insert_False [OF wf1 ins]
    let ?c2 = "c1\<lparr>entries := (entries c1)(e := None), blocks := blocks c1 - set_option d\<rparr>"
    have inv2: "lru_inv ?c2 ys {}" using lru_inv_free [OF c1(3) Pe] by (simp add: new_entry_def)
    have "free_block (c1\<lparr>table := t, entries := (entries c1)(e := None)\<rparr>) d = Some ?c2"
      using free_block_fresh_drop [OF d, of "c1\<lparr>table := t, entries := (entries c1)(e := None)\<rparr>" zs] b1 no(1) by simp
    then have run: "lru_cache_put node dup grow c k d sz = Some (?c2, False)" using put ins by simp
    have P2: "payload (entries ?c2) = drop_entries ?P zs"
      using P1 e(2) ez by (simp add: payload_free) (simp add: drop_entries_def fun_eq_iff)
    have "\<not> (grow \<and> ht_capacity (table c) * 48 < U64)"
      using no(3) s1(3) by (auto simp: calloc_slots_def ht_capacity_def split: if_splits)
    from ungrown [OF n run c1(2) v this inv2 P2] show ?thesis using s1 b1 by simp
  qed
qed

text \<open>The recency list as the pointers give it: follow \<open>next\<close> from \<open>head\<close>.\<close>

fun walk :: "nat \<Rightarrow> (addr \<rightharpoonup> lru_entry) \<Rightarrow> addr option \<Rightarrow> addr list" where
  "walk 0 es h = []"
| "walk (Suc n) es h =
     (case h of None \<Rightarrow> [] | Some a \<Rightarrow> a # walk n es (case es a of Some x \<Rightarrow> next x | None \<Rightarrow> None))"

definition lru_list :: "lru_cache \<Rightarrow> addr list" where
  "lru_list c = walk (num_entries c) (entries c) (head c)"

definition recency :: "lru_cache \<Rightarrow> item list" where
  "recency c = view c (lru_list c)"

lemma walk_links: "links es p xs None \<Longrightarrow> walk (length xs) es (first xs None) = xs"
  by (induction xs arbitrary: p) auto

lemma lru_list_inv: "lru_inv c xs pend \<Longrightarrow> lru_list c = xs"
  by (auto simp: lru_inv_def accounted_def ring_def lru_list_def intro: walk_links)

lemma recency_inv: "lru_inv c xs pend \<Longrightarrow> recency c = view c xs"
  by (simp add: recency_def lru_list_inv)

lemma lru_wf_inv: "lru_wf c \<longleftrightarrow> lru_inv c (lru_list c) {}"
  unfolding lru_wf_def using lru_list_inv by auto

lemma lru_wfI: "lru_inv c xs {} \<Longrightarrow> lru_wf c"
  by (auto simp: lru_wf_def)

lemma lru_entries_recency: "lru_wf c \<Longrightarrow> lru_cache_entries c = length (recency c)"
  by (simp add: lru_wf_inv lru_inv_def accounted_def lru_cache_entries_def recency_def view_def)

lemma lru_size_recency: "lru_wf c \<Longrightarrow> lru_cache_size c = u64 (total (recency c))"
  by (simp add: lru_wf_inv lru_inv_def accounted_def lru_cache_size_def recency_def view_def total_items)

text \<open>The keys of the recency list are distinct.\<close>

lemma recency_distinct:
  assumes "lru_wf c"
  shows "distinct (map fst (recency c))"
proof -
  let ?P = "payload (entries c)"
  have inv: "lru_inv c (lru_list c) {}" using assms by (simp add: lru_wf_inv)
  have "distinct (lru_list c)" using inv by (simp add: lru_inv_def ring_def)
  moreover have "inj_on (fst \<circ> item ?P) (set (lru_list c))"
  proof (rule inj_onI)
    fix a b assume a: "a \<in> set (lru_list c)" and b: "b \<in> set (lru_list c)" and e: "(fst \<circ> item ?P) a = (fst \<circ> item ?P) b"
    obtain x y where "?P a = Some x" "?P b = Some y"
      using ring_live [OF lru_invD(1) [OF inv] a] ring_live [OF lru_invD(1) [OF inv] b] by auto
    with e indexed_unique [OF lru_invD(2) [OF inv] a b, of "e_key x"] show "a = b"
      by (auto simp: has_key_def item_def key_eq_def)
  qed
  ultimately show ?thesis by (simp add: recency_def view_def distinct_map)
qed

section \<open>Eviction keeps the longest prefix that leaves room\<close>

lemma spec_evict_fits: "spec_evict me ms sz l = [] \<or> \<not> is_over me ms sz (spec_evict me ms sz l)"
proof (induction me ms sz l rule: spec_evict.induct)
  case (1 me ms sz l)
  then show ?case by (subst (1 2) spec_evict.simps) auto
qed

lemma total_append: "total (xs @ ys) = total xs + total ys"
  by (simp add: total_def)

lemma spec_evict_longest:
  assumes "prefix p l" "\<not> is_over me ms sz p"
  shows "prefix p (spec_evict me ms sz l)"
  using assms
proof (induction me ms sz l rule: spec_evict.induct)
  case (1 me ms sz l)
  show ?case
  proof (cases "l \<noteq> [] \<and> is_over me ms sz l")
    case True
    with 1 have "prefix p (butlast l)"
      by (metis append_butlast_last_id prefix_snoc)
    with 1 True show ?thesis by (subst spec_evict.simps) simp
  next
    case False
    with 1 show ?thesis by (subst spec_evict.simps) auto
  qed
qed

section \<open>Sessions: concurrent readers\<close>

text \<open>
  The calls of all threads in the order they take the mutex, with the number of borrowed
  references to each entry that the callers still hold. \<open>Alloc\<close> is a caller that allocates
  a payload before it hands it to \<open>put\<close>.
\<close>

type_synonym session = "lru_cache \<times> (addr \<Rightarrow> nat)"

inductive lru_step :: "session \<Rightarrow> session \<Rightarrow> bool" where
  Alloc: "b \<notin> blocks c \<Longrightarrow> lru_step (c, bw) (c\<lparr>blocks := insert b (blocks c)\<rparr>, bw)"
| Hit: "lru_cache_get c k = Some (c', Some a) \<Longrightarrow> bw a + 1 < U32 \<Longrightarrow> lru_step (c, bw) (c', bw(a := bw a + 1))"
| Miss: "lru_cache_get c k = Some (c', None) \<Longrightarrow> lru_step (c, bw) (c', bw)"
| Release: "0 < bw a \<Longrightarrow> lru_cache_release c (Some a) = Some c' \<Longrightarrow> lru_step (c, bw) (c', bw(a := bw a - 1))"
| Put: "fresh_data c d \<Longrightarrow> fresh_node c node \<Longrightarrow>
    lru_cache_put node dup grow c k d sz = Some (c', ok) \<Longrightarrow> lru_step (c, bw) (c', bw)"

definition lru_start :: "session \<Rightarrow> bool" where
  "lru_start s \<longleftrightarrow> (\<exists>ms me blks. lru_cache_init True True ms me Map.empty blks = Some (Some (fst s))) \<and> snd s = (\<lambda>_. 0)"

text \<open>Every reference that is held is counted in its entry, and no entry is freed before.\<close>

definition borrows_ok :: "session \<Rightarrow> bool" where
  "borrows_ok s \<longleftrightarrow> lru_wf (fst s) \<and>
     (\<forall>a. snd s a = (case payload (entries (fst s)) a of Some x \<Rightarrow> refcount x | None \<Rightarrow> 0))"

lemma lru_init_wf:
  assumes "lru_cache_init ok True ms me Map.empty blks = Some (Some c)"
  shows "lru_wf c" "recency c = []" "entries c = Map.empty" "max_size c = ms" "max_entries c = me" "blocks c = blks"
proof -
  have c: "c = \<lparr>table = empty_table key_hash key_eq 16, head = None, tail = None, current_size = 0, max_size = ms,
     num_entries = 0, max_entries = me, hits = 0, misses = 0, evictions = 0, entries = Map.empty, blocks = blks\<rparr>"
    using assms unfolding lru_cache_init_def ht_init_def next_power_of_two_def
    by (auto simp: next_power_loop.simps calloc_slots_def empty_table_def split: if_splits option.splits)
  have wf: "ht_wf (empty_table key_hash key_eq 16 :: (string, addr) hash_table)"
    "ht_entry (empty_table key_hash key_eq 16 :: (string, addr) hash_table) k = None" for k
    using empty_table_wf [OF lru_keys.key_contract_axioms, of 4] by simp_all
  then have "lru_inv c [] {}"
    unfolding lru_inv_def c
    by (simp add: ring_def indexed_def accounted_def owned_def payload_def ht_size_def)
      (simp add: empty_table_def)
  then show "lru_wf c" "recency c = []" by (auto simp: lru_wf_def recency_inv view_def)
  show "entries c = Map.empty" "max_size c = ms" "max_entries c = me" "blocks c = blks" using c by simp_all
qed

lemma put_cases:
  assumes wf: "lru_wf c" and d: "fresh_data c d" and node: "fresh_node c node"
  obtains (overwrite) c' a x where "lru_cache_put node dup grow c k d sz = Some (c', True)" "lru_wf c'"
      "recency c' = spec_put (max_entries c) (max_size c) k d sz (recency c)" "spec_find k (recency c) \<noteq> None"
      "ht_lookup (table c) k = Some a" "payload (entries c) a = Some x"
      "payload (entries c') = (payload (entries c))(a \<mapsto> x\<lparr>e_data := d, e_size := sz\<rparr>)"
      "blocks c' = blocks c - set_option (e_data x)" "max_size c' = max_size c" "max_entries c' = max_entries c"
  | (refused) c' where "lru_cache_put node dup grow c k d sz = Some (c', False)" "lru_wf c'"
      "recency c' = recency c" "spec_find k (recency c) = None" "max_size c < sz \<or> node = None \<or> \<not> dup"
      "payload (entries c') = payload (entries c)" "blocks c' = blocks c - set_option d"
      "max_size c' = max_size c" "max_entries c' = max_entries c"
  | (stored) c' e zs where "lru_cache_put node dup grow c k d sz = Some (c', True)" "lru_wf c'"
      "recency c' = spec_put (max_entries c) (max_size c) k d sz (recency c)" "spec_find k (recency c) = None"
      "sz \<le> max_size c" "node = Some e" "dup" "set zs \<subseteq> set (lru_list c)"
      "payload (entries c') = (drop_entries (payload (entries c)) zs)(e \<mapsto> new_entry k d sz)"
      "blocks c' = blocks c - freed_blocks (payload (entries c)) zs"
      "max_size c' = max_size c" "max_entries c' = max_entries c"
  | (ungrown) c' zs where "lru_cache_put node dup grow c k d sz = Some (c', False)" "lru_wf c'"
      "recency c' = spec_evict (max_entries c) (max_size c) sz (recency c)" "spec_find k (recency c) = None"
      "\<not> (grow \<and> ht_capacity (table c) * 48 < U64)" "\<not> (max_size c < sz \<or> node = None \<or> \<not> dup)" "set zs \<subseteq> set (lru_list c)"
      "payload (entries c') = drop_entries (payload (entries c)) zs"
      "blocks c' = blocks c - freed_blocks (payload (entries c)) zs - set_option d"
      "max_size c' = max_size c" "max_entries c' = max_entries c"
proof -
  let ?P = "payload (entries c)"
  have inv: "lru_inv c (lru_list c) {}" using wf by (simp add: lru_wf_inv)
  note rec = recency_inv [OF inv]
  show ?thesis
  proof (cases "ht_lookup (table c) k")
    case (Some a)
    from lru_put_overwrite [OF inv d Some, of node dup grow sz] obtain c' xs' x where
      "lru_cache_put node dup grow c k d sz = Some (c', True)" and i: "lru_inv c' xs' {}"
      "view c' xs' = spec_put (max_entries c) (max_size c) k d sz (view c (lru_list c))"
      and "?P a = Some x" "payload (entries c') = ?P(a \<mapsto> x\<lparr>e_data := d, e_size := sz\<rparr>)"
      "blocks c' = blocks c - set_option (e_data x)" "max_size c' = max_size c" "max_entries c' = max_entries c" by blast
    with Some lookup_view(1) [OF inv, of k] rec recency_inv [OF i(1)] lru_wfI [OF i(1)] show ?thesis
      by (intro overwrite [of c' a x]) auto
  next
    case None
    then have f: "spec_find k (recency c) = None" using lookup_view(1) [OF inv, of k] rec by simp
    note ring = lru_invD(1) [OF inv] and put_cases_refused = refused and put_cases_stored = stored and put_cases_ungrown = ungrown
    show ?thesis
      using inv d None node
    proof (cases rule: lru_put_new [where dup = dup and grow = grow and sz = sz])
      case (refused c')
      then have "recency c' = recency c" using rec recency_inv [OF refused(3)] by (simp add: view_def)
      with refused f show ?thesis by (intro put_cases_refused [of c']) (auto simp: lru_wfI)
    next
      case (stored e c' ys zs)
      have "map (item (payload (entries c'))) ys = map (item ?P) ys"
        using items_upd [OF stored(9)] items_drop [of ys zs] stored(5,8) ring by (simp add: ring_def del: map_eq_conv)
      then have "recency c' = spec_put (max_entries c) (max_size c) k d sz (recency c)"
        using f stored(3,6,8) rec unfolding recency_inv [OF stored(7)]
        by (simp add: view_def spec_put_def item_def [of _ e] new_entry_def del: map_eq_conv)
      with stored f show ?thesis by (intro put_cases_stored [of c' e zs]) (auto simp: lru_wfI)
    next
      case (ungrown e c' ys zs)
      have "recency c' = spec_evict (max_entries c) (max_size c) sz (recency c)"
        using ungrown(6,9) items_drop [of ys zs] ungrown(5) ring rec unfolding recency_inv [OF ungrown(8)]
        by (simp add: view_def ring_def del: map_eq_conv)
      with ungrown f show ?thesis by (intro put_cases_ungrown [of c' zs]) (auto simp: lru_wfI)
    qed
  qed
qed

definition refs :: "lru_cache \<Rightarrow> addr \<Rightarrow> nat" where
  "refs c a = (case payload (entries c) a of Some x \<Rightarrow> refcount x | None \<Rightarrow> 0)"

lemma borrows_ok_refs: "borrows_ok (c, bw) \<longleftrightarrow> lru_wf c \<and> bw = refs c"
  by (auto simp: borrows_ok_def refs_def fun_eq_iff)

lemma refs_drop: "(case drop_entries P zs a of Some x \<Rightarrow> refcount x | None \<Rightarrow> 0) = (case P a of Some x \<Rightarrow> refcount x | None \<Rightarrow> 0)"
  by (auto simp: drop_entries_def dropped_def split: option.splits)

lemma borrows_alloc:
  assumes "lru_wf c"
  shows "lru_wf (c\<lparr>blocks := insert b (blocks c)\<rparr>)"
proof -
  have inv: "lru_inv c (lru_list c) {}" using assms by (simp add: lru_wf_inv)
  have "owned (payload (entries c)) (insert b (blocks c)) (lru_list c) {}"
    using lru_invD(4) [OF inv] unfolding owned_def by (meson insertCI)
  with lru_invD [OF inv] show ?thesis
    by (intro lru_wfI [of _ "lru_list c"]) (simp add: lru_inv_def ring_def accounted_def)
qed

lemma get_cases:
  assumes "lru_wf c"
  obtains (hit) c' a x where "lru_cache_get c k = Some (c', Some a)" "lru_wf c'" "recency c' = spec_touch k (recency c)"
      "spec_find k (recency c) = Some (cstr k, e_data x, e_size x)" "payload (entries c) a = Some x"
      "payload (entries c') = (payload (entries c))(a \<mapsto> x\<lparr>refcount := u32 (refcount x + 1)\<rparr>)"
      "blocks c' = blocks c" "hits c' = u64 (hits c + 1)" "misses c' = misses c" "evictions c' = evictions c"
      "max_size c' = max_size c" "max_entries c' = max_entries c" "table c' = table c"
  | (miss) c' where "lru_cache_get c k = Some (c', None)" "lru_wf c'" "recency c' = recency c"
      "spec_find k (recency c) = None" "payload (entries c') = payload (entries c)" "blocks c' = blocks c"
      "hits c' = hits c" "misses c' = u64 (misses c + 1)" "evictions c' = evictions c"
      "max_size c' = max_size c" "max_entries c' = max_entries c"
proof -
  have inv: "lru_inv c (lru_list c) {}" using assms by (simp add: lru_wf_inv)
  from lru_get_ok [OF inv, of k, folded recency_def] obtain c' xs' r where g: "lru_cache_get c k = Some (c', r)" "lru_inv c' xs' {}"
    "view c' xs' = spec_touch k (recency c)" "r = None \<longleftrightarrow> spec_find k (recency c) = None" "blocks c' = blocks c"
    "max_size c' = max_size c" "max_entries c' = max_entries c" "evictions c' = evictions c" "table c' = table c"
    "case r of
       None \<Rightarrow> hits c' = hits c \<and> misses c' = u64 (misses c + 1) \<and> payload (entries c') = payload (entries c)
     | Some a \<Rightarrow> hits c' = u64 (hits c + 1) \<and> misses c' = misses c \<and> (\<exists>x. payload (entries c) a = Some x \<and>
         spec_find k (recency c) = Some (cstr k, e_data x, e_size x) \<and>
         payload (entries c') = (payload (entries c))(a \<mapsto> x\<lparr>refcount := u32 (refcount x + 1)\<rparr>))"
    by (elim exE conjE) rule
  note wf = lru_wfI [OF g(2)] recency_inv [OF g(2)]
  show ?thesis
  proof (cases r)
    case None
    with g wf show ?thesis by (intro miss [of c']) (auto simp: spec_touch_def)
  next
    case (Some a)
    with g wf show ?thesis by (auto intro!: hit [of c' a])
  qed
qed

lemma release_wf:
  assumes "lru_wf c" "payload (entries c) a = Some x"
  shows "\<exists>c'. lru_cache_release c (Some a) = Some c' \<and> lru_wf c' \<and> recency c' = recency c \<and>
    payload (entries c') = (payload (entries c))(a := if removed x \<and> refcount x - 1 = 0 then None
      else Some (x\<lparr>refcount := refcount x - 1\<rparr>)) \<and>
    blocks c' = (if removed x \<and> refcount x - 1 = 0 then blocks c - set_option (e_data x) else blocks c)"
proof -
  have "lru_inv c (lru_list c) {}" using assms by (simp add: lru_wf_inv)
  from lru_release_ok [OF this assms(2)] obtain c' where c': "lru_cache_release c (Some a) = Some c'"
    "lru_inv c' (lru_list c) {}" "view c' (lru_list c) = recency c"
    "payload (entries c') = (payload (entries c))(a := if removed x \<and> refcount x - 1 = 0 then None
      else Some (x\<lparr>refcount := refcount x - 1\<rparr>))"
    "blocks c' = (if removed x \<and> refcount x - 1 = 0 then blocks c - set_option (e_data x) else blocks c)"
    unfolding recency_def by blast
  with lru_wfI [OF c'(2)] recency_inv [OF c'(2)] show ?thesis by (intro exI [of _ c']) simp
qed

lemma borrows_put:
  assumes wf: "lru_wf c" and d: "fresh_data c d" and node: "fresh_node c node"
    and put: "lru_cache_put node dup grow c k d sz = Some (c', ok)"
  shows "lru_wf c'" "refs c' = refs c"
proof -
  have "lru_wf c' \<and> refs c' = refs c"
    using wf d node
  proof (cases rule: put_cases [where dup = dup and grow = grow and k = k and sz = sz])
    case (stored c1 e zs)
    then have "refs c e = 0" using fresh_nodeD [OF node] by (simp add: refs_def payload_def)
    with stored put show ?thesis by (auto simp: refs_def fun_eq_iff refs_drop new_entry_def)
  qed (use put in \<open>auto simp: refs_def fun_eq_iff refs_drop\<close>)
  then show "lru_wf c'" "refs c' = refs c" by simp_all
qed

interpretation lru: invariant_system lru_start lru_step borrows_ok
proof
  fix s assume "lru_start s"
  then show "borrows_ok s"
    using lru_init_wf(1,3) by (cases s) (auto simp: lru_start_def borrows_ok_refs refs_def payload_def)
next
  fix s t assume "borrows_ok s" "lru_step s t"
  from this(2,1) show "borrows_ok t"
  proof cases
    case (Alloc b c bw)
    then show ?thesis using \<open>borrows_ok s\<close> by (auto simp: borrows_ok_refs borrows_alloc refs_def)
  next
    case (Hit c k c' a bw)
    then have wf: "lru_wf c" "bw = refs c" using \<open>borrows_ok s\<close> by (auto simp: borrows_ok_refs)
    from get_cases [OF wf(1), of k] Hit wf(2) show ?thesis
      by cases (auto simp: borrows_ok_refs refs_def fun_eq_iff)
  next
    case (Miss c k c' bw)
    then have wf: "lru_wf c" "bw = refs c" using \<open>borrows_ok s\<close> by (auto simp: borrows_ok_refs)
    from get_cases [OF wf(1), of k] Miss wf(2) show ?thesis
      by cases (auto simp: borrows_ok_refs refs_def)
  next
    case (Release bw a c c')
    then have wf: "lru_wf c" "bw = refs c" using \<open>borrows_ok s\<close> by (auto simp: borrows_ok_refs)
    with Release obtain x where "payload (entries c) a = Some x" by (auto simp: refs_def split: option.splits)
    from release_wf [OF wf(1) this] Release wf(2) this show ?thesis
      by (auto simp: borrows_ok_refs refs_def fun_eq_iff)
  next
    case (Put c d node dup grow k sz c' ok bw)
    then have wf: "lru_wf c" "bw = refs c" using \<open>borrows_ok s\<close> by (auto simp: borrows_ok_refs)
    from borrows_put [OF wf(1) Put(3,4,5)] Put wf(2) show ?thesis by (auto simp: borrows_ok_refs)
  qed
qed

section \<open>Properties\<close>

definition lru_empty :: "nat \<Rightarrow> nat \<Rightarrow> block set \<Rightarrow> lru_cache" where
  "lru_empty ms me blks = \<lparr>table = empty_table key_hash key_eq 16, head = None, tail = None,
     current_size = 0, max_size = ms, num_entries = 0, max_entries = me, hits = 0, misses = 0,
     evictions = 0, entries = Map.empty, blocks = blks\<rparr>"

lemma lru_init_empty: "lru_cache_init True True ms me Map.empty blks = Some (Some (lru_empty ms me blks))"
  by (simp add: lru_cache_init_def ht_init_def next_power_of_two_def next_power_loop.simps
      calloc_slots_def empty_table_def lru_empty_def)

lemmas lru_empty_wf = lru_init_wf [OF lru_init_empty]



text \<open>C17. A lookup on a well-formed cache returns and keeps it well-formed. It hits exactly when
  the key is listed; then it hands out the entry of that key with its payload and size and its
  reference count raised, moves it to the front of the recency list, leaves the order of all
  other items alone and counts one hit. A miss changes nothing but the miss counter.\<close>

theorem lru_cache_get_spec:
  assumes "lru_wf c"
  shows "\<exists>c' r. lru_cache_get c k = Some (c', r) \<and> lru_wf c' \<and> recency c' = spec_touch k (recency c) \<and>
    blocks c' = blocks c \<and> evictions c' = evictions c \<and>
    (case r of
       None \<Rightarrow> spec_find k (recency c) = None \<and> hits c' = hits c \<and> misses c' = u64 (misses c + 1)
     | Some a \<Rightarrow> (\<exists>x y. entries c a = Some x \<and> entries c' a = Some y \<and>
         spec_find k (recency c) = Some (cstr k, e_data y, e_size y) \<and>
         refcount y = u32 (refcount x + 1) \<and> hits c' = u64 (hits c + 1) \<and> misses c' = misses c))"
proof (cases rule: get_cases [OF assms, of k])
  case (1 c' a x)
  from 1(5) obtain y where y: "entries c a = Some y" "x = strip y" by (rule payload_SomeE)
  have "payload (entries c') a = Some (x\<lparr>refcount := u32 (refcount x + 1)\<rparr>)" using 1(6) by simp
  then obtain z where z: "entries c' a = Some z" "x\<lparr>refcount := u32 (refcount x + 1)\<rparr> = strip z" by (rule payload_SomeE)
  have "e_data z = e_data x" "e_size z = e_size x" "refcount z = u32 (refcount x + 1)"
    using arg_cong [OF z(2), of e_data] arg_cong [OF z(2), of e_size] arg_cong [OF z(2), of refcount] by simp_all
  with 1 y z(1) show ?thesis by (intro exI [of _ c'] exI [of _ "Some a"]) simp
next
  case (2 c')
  then show ?thesis by (intro exI [of _ c'] exI [of _ None]) (simp add: spec_touch_def)
qed

theorem lru_cache_get_spec_witness:
  "lru_wf (lru_empty 100 2 {}) \<and> (\<exists>c'. lru_cache_get (lru_empty 100 2 {}) ''/x'' = Some (c', None) \<and> misses c' = 1)"
  using lru_cache_get_spec [OF lru_empty_wf(1), of 100 2 "{}" "''/x''"] lru_empty_wf(1,2) [of 100 2 "{}"]
  by (auto simp: spec_find_def lru_empty_def split: option.splits)

text \<open>A concrete cache with one item, for the instances below.\<close>

lemma one_item:
  "\<exists>c. lru_cache_put (Some 1) True True (lru_empty 100 2 {5, 6}) ''/a'' (Some 5) 10 = Some (c, True) \<and> lru_wf c \<and>
     recency c = [(''/a'', Some 5, 10)] \<and> fresh_data c (Some 6) \<and> fresh_node c (Some 2) \<and>
     max_size c = 100 \<and> max_entries c = 2"
proof -
  let ?c = "lru_empty 100 2 {5, 6}"
  have "lru_wf ?c" "fresh_data ?c (Some 5)" "fresh_node ?c (Some 1)"
    using lru_empty_wf(1) by (simp_all add: fresh_data_def fresh_node_def lru_empty_def payload_def)
  then show ?thesis
  proof (cases rule: put_cases [where dup = True and grow = True and k = "''/a''" and sz = 10])
    case (stored c e zs)
    have l: "lru_list ?c = []" by (simp add: lru_list_def lru_empty_def)
    with stored have z: "zs = []" "e = 1" by auto
    have "spec_evict 2 100 10 [] = []" by (subst spec_evict.simps) simp
    then have "recency c = [(''/a'', Some 5, 10)]"
      using stored(3) lru_empty_wf(2) [of 100 2 "{5, 6}"]
      by (simp add: spec_put_def spec_find_def lru_empty_def NUL_def)
    moreover have p: "payload (entries c) = [1 \<mapsto> new_entry ''/a'' (Some 5) 10]" "blocks c = {5, 6}"
      using stored(9,10) z by (simp_all add: drop_entries_def freed_blocks_def lru_empty_def payload_def)
    moreover have "entries c 2 = None" using p(1) payload_None [of "entries c" 2] by simp
    ultimately show ?thesis
      using stored(1,2,11,12) by (auto simp: fresh_data_def fresh_node_def new_entry_def lru_empty_def)
  qed (auto simp: lru_empty_def ht_capacity_def empty_table_def lru_empty_wf(2) [unfolded lru_empty_def empty_table_def] spec_find_def)
qed

definition no_room :: "lru_cache \<Rightarrow> nat \<Rightarrow> addr option \<Rightarrow> bool \<Rightarrow> bool" where
  "no_room c sz node dup \<longleftrightarrow> max_size c < sz \<or> node = None \<or> \<not> dup"

text \<open>C16. An insertion of a caller-owned payload into a well-formed cache returns, keeps the cache
  well-formed and acts on the recency list as specified. An existing key always succeeds; a new
  key fails when its payload alone exceeds the byte limit or memory for the entry is missing,
  and then the list is unchanged; with memory for the table to grow it otherwise succeeds.
  Whenever it fails the payload has been freed.\<close>

theorem lru_cache_put_spec:
  assumes "lru_wf c" "fresh_data c d" "fresh_node c node"
  shows "\<exists>c' ok. lru_cache_put node dup grow c k d sz = Some (c', ok) \<and> lru_wf c' \<and>
    (ok \<longrightarrow> recency c' = spec_put (max_entries c) (max_size c) k d sz (recency c)) \<and>
    (\<not> ok \<longrightarrow> set_option d \<inter> blocks c' = {} \<and>
       recency c' = (if no_room c sz node dup then recency c else spec_evict (max_entries c) (max_size c) sz (recency c))) \<and>
    (spec_find k (recency c) \<noteq> None \<longrightarrow> ok) \<and>
    (spec_find k (recency c) = None \<longrightarrow> no_room c sz node dup \<longrightarrow> \<not> ok) \<and>
    (\<not> no_room c sz node dup \<longrightarrow> grow \<longrightarrow> ht_capacity (table c) * 48 < U64 \<longrightarrow> ok)"
  using assms(1-3)
proof (cases rule: put_cases [where dup = dup and grow = grow and k = k and sz = sz])
  case (overwrite c' a x)
  then show ?thesis by (intro exI [of _ c'] exI [of _ True]) auto
next
  case (refused c')
  then show ?thesis by (intro exI [of _ c'] exI [of _ False]) (auto simp: no_room_def)
next
  case (stored c' e zs)
  then show ?thesis by (intro exI [of _ c'] exI [of _ True]) (simp add: no_room_def)
next
  case (ungrown c' zs)
  have "\<not> no_room c sz node dup"
    using ungrown(6) by (simp add: no_room_def)
  then show ?thesis using ungrown by (intro exI [of _ c'] exI [of _ False]) auto
qed

theorem lru_cache_put_spec_witness:
  "\<exists>c'. lru_cache_put (Some 1) True True (lru_empty 100 2 {5}) ''/a'' (Some 5) 10 = Some (c', True) \<and>
     recency c' = [(''/a'', Some 5, 10)] \<and> lru_wf c'"
proof -
  have f: "fresh_data (lru_empty 100 2 {5}) (Some 5)" "fresh_node (lru_empty 100 2 {5}) (Some 1)"
    by (simp_all add: fresh_data_def fresh_node_def lru_empty_def payload_def)
  have e: "spec_evict 2 100 10 [] = []" by (subst spec_evict.simps) simp
  have "ht_capacity (table (lru_empty 100 2 {5})) * 48 < U64" "max_size (lru_empty 100 2 {5}) = 100"
    "max_entries (lru_empty 100 2 {5}) = 2"
    by (simp_all add: ht_capacity_def lru_empty_def empty_table_def)
  moreover have "cstr ''/a'' = ''/a''" by (simp add: NUL_def)
  ultimately show ?thesis
    using lru_cache_put_spec [OF lru_empty_wf(1) f, where sz = 10 and dup = True and grow = True and k = "''/a''"] lru_empty_wf(2) [of 100 2 "{5}"] e
    by (auto simp: spec_put_def spec_find_def no_room_def)
qed



text \<open>Overwriting a key ignores the byte limit: the insertion succeeds for every size, evicts
  nothing, and the cache then accounts for all other payloads plus the new one, however far
  that is above \<open>max_size\<close>.\<close>

theorem lru_overwrite_unchecked:
  assumes "lru_wf c" "fresh_data c d" "fresh_node c node" "spec_find k (recency c) \<noteq> None"
  shows "\<exists>c'. lru_cache_put node dup grow c k d sz = Some (c', True) \<and> lru_wf c' \<and>
    recency c' = (cstr k, d, sz) # filter (\<lambda>i. fst i \<noteq> cstr k) (recency c) \<and>
    lru_cache_size c' = u64 (total (filter (\<lambda>i. fst i \<noteq> cstr k) (recency c)) + sz)"
  using assms(1-3)
proof (cases rule: put_cases [where dup = dup and grow = grow and k = k and sz = sz])
  case (overwrite c' a x)
  then have rec: "recency c' = (cstr k, d, sz) # filter (\<lambda>i. fst i \<noteq> cstr k) (recency c)"
    by (auto simp: spec_put_def)
  with overwrite(1,2) show ?thesis
    by (intro exI [of _ c']) (simp add: lru_size_recency total_def add.commute)
qed (use assms(4) in simp_all)

theorem lru_overwrite_unchecked_witness:
  "\<exists>c c'. lru_cache_put (Some 1) True True (lru_empty 100 2 {5, 6}) ''/a'' (Some 5) 10 = Some (c, True) \<and> max_size c = 100 \<and>
     lru_cache_put (Some 2) True True c ''/a'' (Some 6) 5000 = Some (c', True) \<and> lru_cache_size c' = 5000"
proof -
  obtain c where c: "lru_cache_put (Some 1) True True (lru_empty 100 2 {5, 6}) ''/a'' (Some 5) 10 = Some (c, True)"
    "lru_wf c" "recency c = [(''/a'', Some 5, 10)]" "fresh_data c (Some 6)" "fresh_node c (Some 2)" "max_size c = 100"
    using one_item by blast
  have "spec_find ''/a'' (recency c) \<noteq> None" using c(3) by (simp add: spec_find_def NUL_def)
  from lru_overwrite_unchecked [OF c(2,4,5) this, of True True 5000] c show ?thesis
    by (auto simp: total_def NUL_def)
qed

text \<open>C39. A reader's payload does not survive an overwrite of its key: between \<open>lru_cache_get\<close>
  and \<open>lru_cache_release\<close>, a \<open>put\<close> on the same key frees the buffer the reader was handed,
  although its reference is still counted.\<close>

theorem lru_overwrite_frees_borrowed:
  assumes "lru_wf c" "lru_cache_get c k = Some (c1, Some a)" "fresh_data c1 d" "fresh_node c1 node"
  shows "\<exists>x c2 y. entries c1 a = Some x \<and> lru_cache_put node dup grow c1 k d sz = Some (c2, True) \<and>
    entries c2 a = Some y \<and> refcount y = refcount x \<and> set_option (e_data x) \<inter> blocks c2 = {}"
proof -
  from get_cases [OF assms(1), of k] obtain x where wf: "lru_wf c1" "recency c1 = spec_touch k (recency c)"
    and x: "spec_find k (recency c) = Some (cstr k, e_data x, e_size x)" "payload (entries c1) a = Some (x\<lparr>refcount := u32 (refcount x + 1)\<rparr>)"
    and t: "table c1 = table c"
    by cases (use assms(2) in auto)
  from x(2) obtain z where z: "entries c1 a = Some z" by (rule payload_SomeE)
  have inv: "lru_inv c1 (lru_list c1) {}" using wf(1) by (simp add: lru_wf_inv)
  have found: "spec_find k (recency c1) \<noteq> None"
    using x(1) wf(2) by (simp add: spec_touch_def) (simp add: spec_find_def)
  have look: "ht_lookup (table c1) k = Some a"
    using assms(2) t by (auto simp: lru_cache_get_def bind_eq_Some_conv split: option.splits)
  show ?thesis
    using wf(1) assms(3,4)
  proof (cases rule: put_cases [where dup = dup and grow = grow and k = k and sz = sz])
    case (overwrite c2 b y)
    then have "b = a" using look by simp
    with overwrite z have y: "y = strip z" "payload (entries c2) a = Some (y\<lparr>e_data := d, e_size := sz\<rparr>)" by auto
    from y(2) obtain w where w: "entries c2 a = Some w" "y\<lparr>e_data := d, e_size := sz\<rparr> = strip w" by (rule payload_SomeE)
    have "refcount w = refcount z" using arg_cong [OF w(2), of refcount] y(1) by simp
    with overwrite w(1) z y(1) show ?thesis by (intro exI [of _ z] exI [of _ c2] exI [of _ w]) auto
  qed (use found in simp_all)
qed

theorem lru_overwrite_frees_borrowed_witness:
  "\<exists>c c1 a c2 x. lru_cache_put (Some 1) True True (lru_empty 100 2 {5, 6}) ''/a'' (Some 5) 10 = Some (c, True) \<and>
     lru_cache_get c ''/a'' = Some (c1, Some a) \<and> entries c1 a = Some x \<and> e_data x = Some 5 \<and>
     lru_cache_put None True True c1 ''/a'' (Some 6) 20 = Some (c2, True) \<and> 5 \<notin> blocks c2"
proof -
  obtain c where c: "lru_cache_put (Some 1) True True (lru_empty 100 2 {5, 6}) ''/a'' (Some 5) 10 = Some (c, True)"
    "lru_wf c" "recency c = [(''/a'', Some 5, 10)]" "fresh_data c (Some 6)" using one_item by blast
  have f: "spec_find ''/a'' (recency c) = Some (''/a'', Some 5, 10)" using c(3) by (simp add: spec_find_def NUL_def)
  from get_cases [OF c(2), of "''/a''"] obtain c1 a x where g: "lru_cache_get c ''/a'' = Some (c1, Some a)"
    "e_data x = Some 5" "payload (entries c) a = Some x" "blocks c1 = blocks c"
    "payload (entries c1) = (payload (entries c))(a \<mapsto> x\<lparr>refcount := u32 (refcount x + 1)\<rparr>)"
    by cases (use f in auto)
  have "fresh_data c1 (Some 6)"
    using c(4) g(2,3,4,5) by (auto simp: fresh_data_def)
  from lru_overwrite_frees_borrowed [OF c(2) g(1) this, of None True True 20] obtain y c2 where
    y: "entries c1 a = Some y" "lru_cache_put None True True c1 ''/a'' (Some 6) 20 = Some (c2, True)"
    "set_option (e_data y) \<inter> blocks c2 = {}" by (auto simp: fresh_node_def)
  have "payload (entries c1) a = Some (strip y)" by (simp add: payload_def y(1))
  with g(2,5) have "strip y = x\<lparr>refcount := u32 (refcount x + 1)\<rparr>" by simp
  from arg_cong [OF this, of e_data] g(2) have "e_data y = Some 5" by simp
  with c(1) g(1) y show ?thesis by auto
qed

subsection \<open>Destruction\<close>

lemma destroy_loop_ok:
  assumes "links (entries c) p xs None" "distinct xs"
    "\<And>a x b. a \<in> set xs \<Longrightarrow> entries c a = Some x \<Longrightarrow> e_data x = Some b \<Longrightarrow> b \<in> blocks c"
    "\<And>a a' x x' b. entries c a = Some x \<Longrightarrow> entries c a' = Some x' \<Longrightarrow> e_data x = Some b \<Longrightarrow> e_data x' = Some b \<Longrightarrow> a = a'"
  shows "destroy_loop c (first xs None) = Some (c\<lparr>entries := entries c |` (- set xs),
    blocks := blocks c - {b. \<exists>a \<in> set xs. \<exists>x. entries c a = Some x \<and> e_data x = Some b}\<rparr>)"
  using assms
proof (induction xs arbitrary: c p)
  case Nil
  have "entries c |` (- set []) = entries c" by (simp add: restrict_map_def)
  then show ?case by (subst destroy_loop.simps) simp
next
  case (Cons a xs)
  then obtain x where x: "entries c a = Some x" "next x = first xs None" "links (entries c) (Some a) xs None" "a \<notin> set xs"
    by auto
  let ?c = "c\<lparr>entries := (entries c)(a := None), blocks := blocks c - set_option (e_data x)\<rparr>"
  have f: "entry_free c a = Some ?c"
    using x(1) Cons.prems(3) [of a x] by (auto simp: entry_free_def free_block_def split: option.splits)
  have "destroy_loop ?c (first xs None) = Some (?c\<lparr>entries := entries ?c |` (- set xs),
    blocks := blocks ?c - {b. \<exists>a \<in> set xs. \<exists>x. entries ?c a = Some x \<and> e_data x = Some b}\<rparr>)"
  proof (rule Cons.IH [of _ "Some a"])
    show "links (entries ?c) (Some a) xs None" using x(3,4) by simp
    fix b y q assume b: "b \<in> set xs" "entries ?c b = Some y" "e_data y = Some q"
    then have "b \<noteq> a" "entries c b = Some y" using x(4) by (auto split: if_splits)
    with b Cons.prems(3) [of b y q] Cons.prems(4) [of a x b y q] x(1) show "q \<in> blocks ?c" by auto
  qed (use Cons.prems(2) Cons.prems(4) in \<open>auto split: if_splits\<close>)
  moreover have "((entries c)(a := None)) |` (- set xs) = entries c |` (- set (a # xs))"
    by (auto simp: restrict_map_def fun_eq_iff)
  moreover have "blocks ?c - {b. \<exists>a \<in> set xs. \<exists>x. entries ?c a = Some x \<and> e_data x = Some b} =
      blocks c - {b. \<exists>a \<in> set (a # xs). \<exists>x. entries c a = Some x \<and> e_data x = Some b}"
    using x(1,4) by (auto split: if_splits)
  ultimately have "destroy_loop ?c (first xs None) = Some (c\<lparr>entries := entries c |` (- set (a # xs)),
    blocks := blocks c - {b. \<exists>a \<in> set (a # xs). \<exists>x. entries c a = Some x \<and> e_data x = Some b}\<rparr>)" by simp
  with x f show ?case by (subst destroy_loop.simps) simp
qed

text \<open>C34. Destroying a cache that nobody holds a reference to returns: every entry is freed exactly
  once, every payload the cache owned is freed and no other block is, and the table is gone.\<close>

theorem lru_cache_destroy_spec:
  assumes "lru_wf c" "\<forall>a x. entries c a = Some x \<longrightarrow> refcount x = 0"
  shows "\<exists>c'. lru_cache_destroy c = Some c' \<and> entries c' = Map.empty \<and> head c' = None \<and> tail c' = None \<and>
    blocks c' = blocks c - {b. \<exists>a x. entries c a = Some x \<and> e_data x = Some b} \<and>
    lru_cache_entries c' = 0 \<and> lru_cache_size c' = 0 \<and> slots (table c') = []"
proof -
  let ?xs = "lru_list c"
  have inv: "lru_inv c ?xs {}" using assms(1) by (simp add: lru_wf_inv)
  note own = lru_invD(4) [OF inv]
  have all: "a \<in> set ?xs" if "entries c a = Some x" for a x
    using ownedD(2) [OF own, of a "strip x"] assms(2) that by (cases "a \<in> set ?xs") auto
  have r: "links (entries c) None ?xs None" "distinct ?xs" "head c = first ?xs None"
    using lru_invD(1) [OF inv] by (simp_all add: ring_def)
  have "destroy_loop c (first ?xs None) = Some (c\<lparr>entries := entries c |` (- set ?xs),
    blocks := blocks c - {b. \<exists>a \<in> set ?xs. \<exists>x. entries c a = Some x \<and> e_data x = Some b}\<rparr>)"
  proof (rule destroy_loop_ok [OF r(1,2)])
    fix a x b assume "entries c a = Some x" "e_data x = Some b"
    then show "b \<in> blocks c" using ownedD(3) [OF own, of a "strip x" b] by simp
  next
    fix a a' x x' b assume "entries c a = Some x" "entries c a' = Some x'" "e_data x = Some b" "e_data x' = Some b"
    then show "a = a'" using ownedD(4) [OF own, of a "strip x" a' "strip x'" b] by simp
  qed
  moreover have "entries c |` (- set ?xs) = Map.empty"
    using all by (auto simp: restrict_map_def fun_eq_iff) (metis not_None_eq)
  moreover have "{b. \<exists>a \<in> set ?xs. \<exists>x. entries c a = Some x \<and> e_data x = Some b} =
      {b. \<exists>a x. entries c a = Some x \<and> e_data x = Some b}" using all by blast
  ultimately show ?thesis
    using r(3) by (simp add: lru_cache_destroy_def lru_cache_entries_def lru_cache_size_def ht_destroy_def)
qed

theorem lru_cache_destroy_spec_witness:
  "\<exists>c'. lru_cache_destroy (lru_empty 100 2 {5}) = Some c' \<and> blocks c' = {5} \<and> entries c' = Map.empty"
  using lru_cache_destroy_spec [OF lru_empty_wf(1), of 100 2 "{5}"] by (auto simp: lru_empty_def)

end
