(* ===== verification/Http_Parser.thy ===== *)
theory Http_Parser
  imports Httpd_Prelude
begin

text \<open>
  \<^verbatim>\<open>src/src/http_parser.c\<close>: the incremental request parser, byte by byte. The request
  struct is owned by the caller and passed beside the parser, so that what
  \<open>http_parser_init\<close> resets and what it leaves alone is visible. Every array write carries
  the array's bound; a write outside the bound is undefined behaviour and gives \<open>None\<close>.
  Otherwise a step returns the status, the parser and the request.
\<close>

section \<open>Data\<close>

abbreviation MAX_HEADERS :: nat where "MAX_HEADERS \<equiv> 64"
abbreviation HEADER_SIZE :: nat where "HEADER_SIZE \<equiv> 256"
abbreviation BUFFER_SIZE :: nat where "BUFFER_SIZE \<equiv> 8192"
abbreviation MAX_PATH :: nat where "MAX_PATH \<equiv> 4096"
abbreviation ver :: nat where "ver \<equiv> 16"
abbreviation METHOD_SIZE :: nat where "METHOD_SIZE \<equiv> 16"

abbreviation SP :: char where "SP \<equiv> CHR '' ''"
abbreviation TAB :: char where "TAB \<equiv> CHR 0x09"
abbreviation CR :: char where "CR \<equiv> CHR 0x0D"
abbreviation LF :: char where "LF \<equiv> CHR 0x0A"
abbreviation COLON :: char where "COLON \<equiv> CHR '':''"

datatype http_method = HTTP_GET | HTTP_HEAD | HTTP_POST | HTTP_UNSUPPORTED

record http_request =
  req_method :: http_method
  path :: carray
  query_string :: carray
  version :: carray
  headers :: "nat \<Rightarrow> carray"
  num_headers :: nat
  req_keep_alive :: bool
  parsed :: bool

datatype http_parse_status = HTTP_PARSE_INCOMPLETE | HTTP_PARSE_DONE | HTTP_PARSE_ERROR

datatype parser_state =
  P_METHOD | P_PATH | P_QUERY | P_VERSION | P_VERSION_CR | P_HEADER_NAME | P_HEADER_NAME_CR
| P_HEADER_VALUE | P_HEADER_VALUE_CR | P_DONE

record http_parser =
  p_state :: parser_state
  path_pos :: nat
  query_pos :: nat
  version_pos :: nat
  method_tmp :: carray
  method_len :: nat
  name_len :: nat
  value_pos :: nat
  value_len :: nat
  host_seen :: bool
  p_done :: bool

type_synonym feed_result = "(http_parse_status \<times> http_parser \<times> http_request) option"

text \<open>\<open>memset(req, 0, sizeof(*req))\<close>; \<open>HTTP_GET\<close> is the enumerator 0.\<close>

definition zero_request :: http_request where
  "zero_request = \<lparr>req_method = HTTP_GET, path = zeros, query_string = zeros, version = zeros,
     headers = (\<lambda>_. zeros), num_headers = 0, req_keep_alive = False, parsed = False\<rparr>"

section \<open>Operations\<close>

definition method_from_token :: "string \<Rightarrow> http_method" where
  "method_from_token tok =
     (if tok = ''GET'' then HTTP_GET
      else if tok = ''HEAD'' then HTTP_HEAD
      else if tok = ''POST'' then HTTP_POST
      else HTTP_UNSUPPORTED)"

definition header_str :: "http_request \<Rightarrow> nat \<Rightarrow> string" where
  "header_str r i = array_str HEADER_SIZE (headers r i) 0"

definition version_str :: "http_request \<Rightarrow> string" where
  "version_str r = array_str ver (version r) 0"

definition path_str :: "http_request \<Rightarrow> string" where
  "path_str r = array_str MAX_PATH (path r) 0"

definition query_str :: "http_request \<Rightarrow> string" where
  "query_str r = array_str MAX_PATH (query_string r) 0"

text \<open>One iteration of the loop over the headers in \<open>parser_finalize\<close>.\<close>

definition connection_override :: "string \<Rightarrow> bool \<Rightarrow> bool" where
  "connection_override h keep_alive =
     (if strncaseeq 11 h ''connection:'' then
        if strcasestr h ''close'' then False
        else if strcasestr h ''keep-alive'' then True
        else keep_alive
      else keep_alive)"

definition parser_finalize :: "http_request \<Rightarrow> http_request" where
  "parser_finalize r =
     (let r1 = r\<lparr>parsed := True, req_keep_alive := (version_str r = ''HTTP/1.1'')\<rparr>
      in r1\<lparr>req_keep_alive :=
             fold (\<lambda>i. connection_override (header_str r1 i)) [0..<num_headers r1] (req_keep_alive r1)\<rparr>)"

definition http_parser_init :: http_parser where
  "http_parser_init = \<lparr>p_state = P_METHOD, path_pos = 0, query_pos = 0, version_pos = 0,
     method_tmp = zeros, method_len = 0, name_len = 0, value_pos = 0, value_len = 0,
     host_seen = False, p_done = False\<rparr>"

definition set_path :: "http_request \<Rightarrow> nat \<Rightarrow> char \<Rightarrow> http_request option" where
  "set_path r i c = map_option (\<lambda>a. r\<lparr>path := a\<rparr>) (array_set MAX_PATH (path r) i c)"

definition set_query :: "http_request \<Rightarrow> nat \<Rightarrow> char \<Rightarrow> http_request option" where
  "set_query r i c = map_option (\<lambda>a. r\<lparr>query_string := a\<rparr>) (array_set MAX_PATH (query_string r) i c)"

definition set_version :: "http_request \<Rightarrow> nat \<Rightarrow> char \<Rightarrow> http_request option" where
  "set_version r i c = map_option (\<lambda>a. r\<lparr>version := a\<rparr>) (array_set ver (version r) i c)"

text \<open>\<open>req->headers[req->num_headers][i] = c\<close>: both indices must be inside the array.\<close>

definition set_header :: "http_request \<Rightarrow> nat \<Rightarrow> char \<Rightarrow> http_request option" where
  "set_header r i c =
     (if num_headers r < MAX_HEADERS then
        map_option (\<lambda>a. r\<lparr>headers := (headers r)(num_headers r := a)\<rparr>)
          (array_set HEADER_SIZE (headers r (num_headers r)) i c)
      else None)"

definition step_method :: "http_parser \<Rightarrow> http_request \<Rightarrow> char \<Rightarrow> feed_result" where
  "step_method p r c =
     (if c = SP \<or> c = TAB then
        if method_len p = 0 then Some (HTTP_PARSE_ERROR, p, r)
        else do {
          tmp \<leftarrow> array_set METHOD_SIZE (method_tmp p) (method_len p) NUL;
          Some (HTTP_PARSE_INCOMPLETE,
            p\<lparr>method_tmp := tmp, p_state := P_PATH, path_pos := 0\<rparr>,
            r\<lparr>req_method := method_from_token (array_str METHOD_SIZE tmp 0)\<rparr>)
        }
      else if c = CR \<or> c = LF then Some (HTTP_PARSE_ERROR, p, r)
      else if method_len p < METHOD_SIZE - 1 then do {
        tmp \<leftarrow> array_set METHOD_SIZE (method_tmp p) (method_len p) c;
        Some (HTTP_PARSE_INCOMPLETE, p\<lparr>method_tmp := tmp, method_len := method_len p + 1\<rparr>, r)
      }
      else Some (HTTP_PARSE_ERROR, p, r))"

definition step_path :: "http_parser \<Rightarrow> http_request \<Rightarrow> char \<Rightarrow> feed_result" where
  "step_path p r c =
     (if c = SP \<or> c = TAB then
        if path_pos p = 0 then Some (HTTP_PARSE_ERROR, p, r)
        else do {
          r \<leftarrow> set_path r (path_pos p) NUL;
          Some (HTTP_PARSE_INCOMPLETE, p\<lparr>p_state := P_VERSION, version_pos := 0\<rparr>, r)
        }
      else if c = CHR ''?'' then do {
        r \<leftarrow> set_path r (path_pos p) NUL;
        Some (HTTP_PARSE_INCOMPLETE, p\<lparr>p_state := P_QUERY, query_pos := 0\<rparr>, r)
      }
      else if c = CR \<or> c = LF then Some (HTTP_PARSE_ERROR, p, r)
      else if path_pos p < MAX_PATH - 1 then do {
        r \<leftarrow> set_path r (path_pos p) c;
        Some (HTTP_PARSE_INCOMPLETE, p\<lparr>path_pos := path_pos p + 1\<rparr>, r)
      }
      else Some (HTTP_PARSE_ERROR, p, r))"

definition step_query :: "http_parser \<Rightarrow> http_request \<Rightarrow> char \<Rightarrow> feed_result" where
  "step_query p r c =
     (if c = SP \<or> c = TAB then do {
        r \<leftarrow> set_query r (query_pos p) NUL;
        Some (HTTP_PARSE_INCOMPLETE, p\<lparr>p_state := P_VERSION, version_pos := 0\<rparr>, r)
      }
      else if c = CR \<or> c = LF then Some (HTTP_PARSE_ERROR, p, r)
      else if query_pos p < MAX_PATH - 1 then do {
        r \<leftarrow> set_query r (query_pos p) c;
        Some (HTTP_PARSE_INCOMPLETE, p\<lparr>query_pos := query_pos p + 1\<rparr>, r)
      }
      else Some (HTTP_PARSE_ERROR, p, r))"

definition end_version :: "http_parser \<Rightarrow> http_request \<Rightarrow> feed_result" where
  "end_version p r = do {
     r \<leftarrow> set_version r (version_pos p) NUL;
     Some (HTTP_PARSE_INCOMPLETE, p\<lparr>p_state := P_HEADER_NAME, name_len := 0\<rparr>, r)
   }"

definition step_version :: "http_parser \<Rightarrow> http_request \<Rightarrow> char \<Rightarrow> feed_result" where
  "step_version p r c =
     (if c = CR then Some (HTTP_PARSE_INCOMPLETE, p\<lparr>p_state := P_VERSION_CR\<rparr>, r)
      else if c = LF then end_version p r
      else if version_pos p < ver - 1 then do {
        r \<leftarrow> set_version r (version_pos p) c;
        Some (HTTP_PARSE_INCOMPLETE, p\<lparr>version_pos := version_pos p + 1\<rparr>, r)
      }
      else Some (HTTP_PARSE_ERROR, p, r))"

definition step_version_cr :: "http_parser \<Rightarrow> http_request \<Rightarrow> char \<Rightarrow> feed_result" where
  "step_version_cr p r c =
     (if c = LF then end_version p r else Some (HTTP_PARSE_ERROR, p, r))"

definition finish :: "http_parser \<Rightarrow> http_request \<Rightarrow> feed_result" where
  "finish p r =
     Some (HTTP_PARSE_DONE, p\<lparr>p_done := True, p_state := P_DONE\<rparr>, parser_finalize r)"

definition step_header_name :: "http_parser \<Rightarrow> http_request \<Rightarrow> char \<Rightarrow> feed_result" where
  "step_header_name p r c =
     (if c = CR then
        if name_len p = 0 then Some (HTTP_PARSE_INCOMPLETE, p\<lparr>p_state := P_HEADER_NAME_CR\<rparr>, r)
        else Some (HTTP_PARSE_ERROR, p, r)
      else if c = LF then
        if name_len p = 0 then finish p r else Some (HTTP_PARSE_ERROR, p, r)
      else if c = COLON then
        if name_len p = 0 then Some (HTTP_PARSE_ERROR, p, r)
        else
          (let p1 = (if strncaseeq 4 (header_str r (num_headers r)) ''host'' \<and> name_len p = 4
                     then p\<lparr>host_seen := True\<rparr> else p)
           in do {
             r \<leftarrow> set_header r (name_len p) COLON;
             r \<leftarrow> set_header r (name_len p + 1) SP;
             Some (HTTP_PARSE_INCOMPLETE,
               p1\<lparr>value_pos := name_len p + 2, value_len := 0, p_state := P_HEADER_VALUE\<rparr>, r)
           })
      else if name_len p < 255 then do {
        r \<leftarrow> set_header r (name_len p) c;
        Some (HTTP_PARSE_INCOMPLETE, p\<lparr>name_len := name_len p + 1\<rparr>, r)
      }
      else Some (HTTP_PARSE_ERROR, p, r))"

definition step_header_name_cr :: "http_parser \<Rightarrow> http_request \<Rightarrow> char \<Rightarrow> feed_result" where
  "step_header_name_cr p r c =
     (if c = LF then
        if \<not> host_seen p \<and> version_str r = ''HTTP/1.1'' then Some (HTTP_PARSE_ERROR, p, r)
        else finish p r
      else Some (HTTP_PARSE_ERROR, p, r))"

definition end_header :: "http_parser \<Rightarrow> http_request \<Rightarrow> feed_result" where
  "end_header p r = do {
     r \<leftarrow> set_header r (value_pos p + value_len p) NUL;
     Some (HTTP_PARSE_INCOMPLETE, p\<lparr>p_state := P_HEADER_NAME, name_len := 0\<rparr>,
       r\<lparr>num_headers := num_headers r + 1\<rparr>)
   }"

definition step_header_value :: "http_parser \<Rightarrow> http_request \<Rightarrow> char \<Rightarrow> feed_result" where
  "step_header_value p r c =
     (if c = CR then Some (HTTP_PARSE_INCOMPLETE, p\<lparr>p_state := P_HEADER_VALUE_CR\<rparr>, r)
      else if c = LF then end_header p r
      else if value_len p = 0 \<and> (c = SP \<or> c = TAB) then Some (HTTP_PARSE_INCOMPLETE, p, r)
      else if value_pos p + value_len p < 255 then do {
        r \<leftarrow> set_header r (value_pos p + value_len p) c;
        Some (HTTP_PARSE_INCOMPLETE, p\<lparr>value_len := value_len p + 1\<rparr>, r)
      }
      else Some (HTTP_PARSE_ERROR, p, r))"

definition step_header_value_cr :: "http_parser \<Rightarrow> http_request \<Rightarrow> char \<Rightarrow> feed_result" where
  "step_header_value_cr p r c =
     (if c = LF then end_header p r else Some (HTTP_PARSE_ERROR, p, r))"

text \<open>The \<open>switch\<close> of \<open>http_parser_feed\<close>.\<close>

definition parser_step :: "http_parser \<Rightarrow> http_request \<Rightarrow> char \<Rightarrow> feed_result" where
  "parser_step p r c =
     (case p_state p of
        P_METHOD \<Rightarrow> step_method p r c
      | P_PATH \<Rightarrow> step_path p r c
      | P_QUERY \<Rightarrow> step_query p r c
      | P_VERSION \<Rightarrow> step_version p r c
      | P_VERSION_CR \<Rightarrow> step_version_cr p r c
      | P_HEADER_NAME \<Rightarrow> step_header_name p r c
      | P_HEADER_NAME_CR \<Rightarrow> step_header_name_cr p r c
      | P_HEADER_VALUE \<Rightarrow> step_header_value p r c
      | P_HEADER_VALUE_CR \<Rightarrow> step_header_value_cr p r c
      | P_DONE \<Rightarrow> Some (HTTP_PARSE_DONE, p, r))"

fun feed_loop :: "http_parser \<Rightarrow> http_request \<Rightarrow> string \<Rightarrow> feed_result" where
  "feed_loop p r [] = Some (HTTP_PARSE_INCOMPLETE, p, r)"
| "feed_loop p r (c # cs) =
     (case parser_step p r c of
        None \<Rightarrow> None
      | Some (st, p', r') \<Rightarrow>
          if st = HTTP_PARSE_INCOMPLETE then feed_loop p' r' cs else Some (st, p', r'))"

definition http_parser_feed :: "http_parser \<Rightarrow> http_request \<Rightarrow> string \<Rightarrow> feed_result" where
  "http_parser_feed p r buf =
     (if p_done p then Some (HTTP_PARSE_DONE, p, r) else feed_loop p r buf)"

text \<open>
  \<open>http_parse_request\<close> feeds the bytes \<open>read_buf[0..read_len)\<close> of a client and gives the request. The
  parser stops at the byte that decides the request, but it is given the whole range, so a length
  beyond the buffer is out of bounds.
\<close>

record client_info =
  client_fd :: int
  client_ip :: string
  client_port :: int
  read_buf :: carray
  read_len :: nat
  client_keep_alive :: bool
  last_active :: int

definition http_parse_request :: "client_info \<Rightarrow> http_request option" where
  "http_parse_request client =
     (if BUFFER_SIZE < read_len client then None
      else do {
        (st, p, r) \<leftarrow> http_parser_feed http_parser_init zero_request (map (read_buf client) [0..<read_len client]);
        Some (r\<lparr>parsed := (st = HTTP_PARSE_DONE)\<rparr>)
      })"

definition http_method_str :: "http_method \<Rightarrow> string" where
  "http_method_str m =
     (case m of HTTP_GET \<Rightarrow> ''GET'' | HTTP_HEAD \<Rightarrow> ''HEAD'' | HTTP_POST \<Rightarrow> ''POST''
      | HTTP_UNSUPPORTED \<Rightarrow> ''UNSUPPORTED'')"

section \<open>Feeding in pieces\<close>

text \<open>
  The interface of an incremental parser: a step per byte, a status that asks for more, and
  a feed function over chunks. The consequence is that the cut of the input into chunks does
  not matter.
\<close>

locale chunked_parser =
  fixes step :: "'s \<Rightarrow> char \<Rightarrow> ('st \<times> 's) option"
    and feed :: "'s \<Rightarrow> string \<Rightarrow> ('st \<times> 's) option"
    and more :: 'st
    and finished :: "'s \<Rightarrow> bool"
  assumes feed_Nil: "\<not> finished s \<Longrightarrow> feed s [] = Some (more, s)"
    and feed_Cons: "\<not> finished s \<Longrightarrow> feed s (c # cs) =
      (case step s c of None \<Rightarrow> None | Some (st, s') \<Rightarrow> if st = more then feed s' cs else Some (st, s'))"
    and step_more: "\<not> finished s \<Longrightarrow> step s c = Some (more, s') \<Longrightarrow> \<not> finished s'"
    and feed_finished: "finished s \<Longrightarrow> \<exists>st. st \<noteq> more \<and> (\<forall>cs. feed s cs = Some (st, s))"
begin

lemma feed_append:
  "feed s (xs @ ys) =
     (case feed s xs of None \<Rightarrow> None | Some (st, s') \<Rightarrow> if st = more then feed s' ys else Some (st, s'))"
proof (cases "finished s")
  case True
  then show ?thesis using feed_finished by fastforce
next
  case False
  then show ?thesis
  proof (induction xs arbitrary: s)
    case Nil
    then show ?case by (simp add: feed_Nil)
  next
    case (Cons c xs)
    show ?case
    proof (cases "step s c")
      case None
      with Cons.prems show ?thesis by (simp add: feed_Cons)
    next
      case (Some r)
      obtain st s' where r: "r = (st, s')" by fastforce
      with Some Cons show ?thesis using step_more [of s c s'] by (simp add: feed_Cons)
    qed
  qed
qed

text \<open>A whole list of chunks, fed one after the other.\<close>

lemma feed_concat_more:
  assumes "feed s (concat (xs # xss)) = Some (more, s')"
  shows "\<exists>s1. feed s xs = Some (more, s1) \<and> feed s1 (concat xss) = Some (more, s')"
  using assms by (auto simp: feed_append split: option.splits if_splits)

end

section \<open>The parser's invariant\<close>

text \<open>The cursors stay inside their arrays; \<open>done\<close> and the final state go together.\<close>

definition parser_wf :: "http_parser \<Rightarrow> bool" where
  "parser_wf p \<longleftrightarrow>
     method_len p \<le> 15 \<and> path_pos p \<le> 4095 \<and> query_pos p \<le> 4095 \<and> version_pos p \<le> 15 \<and>
     name_len p \<le> 255 \<and>
     (p_state p \<in> {P_HEADER_VALUE, P_HEADER_VALUE_CR} \<longrightarrow>
        value_pos p = name_len p + 2 \<and> 0 < name_len p \<and> (value_len p = 0 \<or> value_pos p + value_len p \<le> 255)) \<and>
     (p_state p \<in> {P_PATH, P_QUERY, P_VERSION, P_VERSION_CR} \<longrightarrow> 0 < method_len p) \<and>
     (p_done p \<longleftrightarrow> p_state p = P_DONE)"

lemmas step_defs = step_method_def step_path_def step_query_def step_version_def step_version_cr_def
  step_header_name_def step_header_name_cr_def step_header_value_def step_header_value_cr_def
  end_version_def end_header_def finish_def Let_def

lemmas set_defs = set_path_def set_query_def set_version_def set_header_def array_set_def

lemma parser_init_wf: "parser_wf http_parser_init"
  by (simp add: parser_wf_def http_parser_init_def)

lemma bind_Some_iff: "Option.bind x f = Some y \<longleftrightarrow> (\<exists>z. x = Some z \<and> f z = Some y)"
  by (cases x) auto

lemma parser_step_wf:
  assumes "parser_wf p" "parser_step p r c = Some (st, p', r')"
  shows "parser_wf p'"
proof (cases "p_state p")
  case P_METHOD
  with assms show ?thesis
    by (auto simp: parser_wf_def parser_step_def step_method_def set_defs split: if_splits)
next
  case P_PATH
  with assms show ?thesis
    by (auto simp: parser_wf_def parser_step_def step_path_def set_defs split: if_splits)
next
  case P_QUERY
  with assms show ?thesis
    by (auto simp: parser_wf_def parser_step_def step_query_def set_defs split: if_splits)
next
  case P_VERSION
  with assms show ?thesis
    by (auto simp: parser_wf_def parser_step_def step_version_def end_version_def set_defs split: if_splits)
next
  case P_VERSION_CR
  with assms show ?thesis
    by (auto simp: parser_wf_def parser_step_def step_version_cr_def end_version_def set_defs split: if_splits)
next
  case P_HEADER_NAME
  with assms show ?thesis
    by (auto simp: parser_wf_def parser_step_def step_header_name_def finish_def Let_def set_defs
        split: if_splits)
next
  case P_HEADER_NAME_CR
  with assms show ?thesis
    by (auto simp: parser_wf_def parser_step_def step_header_name_cr_def finish_def split: if_splits)
next
  case P_HEADER_VALUE
  with assms show ?thesis
    by (auto simp: parser_wf_def parser_step_def step_header_value_def end_header_def set_defs
        split: if_splits)
next
  case P_HEADER_VALUE_CR
  with assms show ?thesis
    by (auto simp: parser_wf_def parser_step_def step_header_value_cr_def end_header_def set_defs
        split: if_splits)
next
  case P_DONE
  with assms show ?thesis by (simp add: parser_step_def)
qed

lemma parser_step_more:
  assumes "parser_step p r c = Some (HTTP_PARSE_INCOMPLETE, p', r')"
  shows "p_done p' = p_done p"
  using assms
  by (cases "p_state p") (auto simp: parser_step_def step_defs set_defs split: if_splits)

lemma parser_step_status:
  assumes "parser_wf p" "\<not> p_done p" "parser_step p r c = Some (st, p', r')"
  shows "p_done p' \<longleftrightarrow> st = HTTP_PARSE_DONE"
  using assms
  by (cases "p_state p")
    (auto simp: parser_wf_def parser_step_def step_defs set_defs split: if_splits)

interpretation hp: chunked_parser
  "\<lambda>(p, r) c. parser_step p r c"
  "\<lambda>(p, r) cs. http_parser_feed p r cs"
  HTTP_PARSE_INCOMPLETE
  "\<lambda>(p, r). p_done p"
proof (unfold_locales, goal_cases)
  case (1 s)
  then show ?case by (cases s) (simp add: http_parser_feed_def)
next
  case (2 s c cs)
  then show ?case
    by (auto simp: http_parser_feed_def dest: parser_step_more split: option.splits prod.splits)
next
  case (3 s c s')
  then show ?case by (auto dest: parser_step_more split: prod.splits)
next
  case (4 s)
  then show ?case by (auto simp: http_parser_feed_def split: prod.splits)
qed

section \<open>Out-of-bounds writes\<close>

text \<open>The request-line states, which never touch the header array.\<close>

definition pre_header :: "http_parser \<Rightarrow> bool" where
  "pre_header p \<longleftrightarrow> p_state p \<in> {P_METHOD, P_PATH, P_QUERY, P_VERSION, P_VERSION_CR}"

lemma parser_step_fault:
  assumes "parser_wf p" "parser_step p r c = None"
  shows "p_state p \<in> {P_HEADER_NAME, P_HEADER_VALUE, P_HEADER_VALUE_CR}"
    "MAX_HEADERS \<le> num_headers r \<or> 254 \<le> name_len p"
    "p_state p = P_HEADER_NAME \<Longrightarrow> 254 \<le> name_len p \<Longrightarrow> num_headers r < MAX_HEADERS \<Longrightarrow> c = COLON"
proof -
  have "p_state p \<in> {P_HEADER_NAME, P_HEADER_VALUE, P_HEADER_VALUE_CR} \<and>
    (MAX_HEADERS \<le> num_headers r \<or> 254 \<le> name_len p) \<and>
    (p_state p = P_HEADER_NAME \<longrightarrow> 254 \<le> name_len p \<longrightarrow> num_headers r < MAX_HEADERS \<longrightarrow> c = COLON)"
  proof (cases "p_state p")
    case P_HEADER_NAME
    with assms show ?thesis
      by (auto simp: parser_wf_def parser_step_def step_header_name_def finish_def Let_def set_defs
          split: if_splits)
  next
    case P_HEADER_VALUE
    with assms show ?thesis
      by (auto simp: parser_wf_def parser_step_def step_header_value_def end_header_def set_defs
          split: if_splits)
  next
    case P_HEADER_VALUE_CR
    with assms show ?thesis
      by (auto simp: parser_wf_def parser_step_def step_header_value_cr_def end_header_def set_defs
          split: if_splits)
  qed (use assms in \<open>auto simp: parser_wf_def parser_step_def step_method_def step_path_def step_query_def
    step_version_def step_version_cr_def step_header_name_cr_def end_version_def finish_def set_defs
    split: if_splits\<close>)
  then show "p_state p \<in> {P_HEADER_NAME, P_HEADER_VALUE, P_HEADER_VALUE_CR}"
    "MAX_HEADERS \<le> num_headers r \<or> 254 \<le> name_len p"
    "p_state p = P_HEADER_NAME \<Longrightarrow> 254 \<le> name_len p \<Longrightarrow> num_headers r < MAX_HEADERS \<Longrightarrow> c = COLON"
    by blast+
qed

lemma feed_loop_fault:
  assumes "parser_wf p" "feed_loop p r cs = None"
  shows "\<exists>pre c post p' r'. cs = pre @ c # post \<and>
    feed_loop p r pre = Some (HTTP_PARSE_INCOMPLETE, p', r') \<and> parser_wf p' \<and> parser_step p' r' c = None"
  using assms
proof (induction cs arbitrary: p r)
  case Nil
  then show ?case by simp
next
  case (Cons c cs)
  show ?case
  proof (cases "parser_step p r c")
    case None
    with Cons.prems show ?thesis by (intro exI [of _ "[]"]) auto
  next
    case (Some x)
    then obtain p' r' where st: "parser_step p r c = Some (HTTP_PARSE_INCOMPLETE, p', r')"
      "feed_loop p' r' cs = None"
      using Cons.prems by (cases x) (auto split: if_splits)
    from Cons.IH [OF parser_step_wf [OF Cons.prems(1) st(1)] st(2)] obtain pre c' post p2 r2 where
      "cs = pre @ c' # post" "feed_loop p' r' pre = Some (HTTP_PARSE_INCOMPLETE, p2, r2)"
      "parser_wf p2" "parser_step p2 r2 c' = None" by blast
    with st show ?thesis by (intro exI [of _ "c # pre"]) auto
  qed
qed

text \<open>Limits on the input: how many bytes of each line come before its first colon.\<close>

fun short_names :: "nat option \<Rightarrow> string \<Rightarrow> bool" where
  "short_names k [] = True"
| "short_names k (c # cs) =
     (if c = LF then short_names (Some 0) cs
      else case k of
        None \<Rightarrow> short_names None cs
      | Some n \<Rightarrow> if c = COLON then n \<le> 253 \<and> short_names None cs else short_names (Some (Suc n)) cs)"

text \<open>How the limits still open relate to the parser's position.\<close>

definition within_limits :: "http_parser \<Rightarrow> http_request \<Rightarrow> nat option \<Rightarrow> string \<Rightarrow> bool" where
  "within_limits p r k cs \<longleftrightarrow>
     num_headers r + count_list cs LF \<le> 63 + (if pre_header p then 1 else 0) \<and> short_names k cs \<and>
     (p_state p = P_HEADER_NAME \<longrightarrow> (\<exists>n. k = Some n \<and> name_len p \<le> n)) \<and>
     (p_state p \<in> {P_HEADER_VALUE, P_HEADER_VALUE_CR} \<longrightarrow> name_len p \<le> 253)"

lemma header_name_more:
  assumes "p_state p = P_HEADER_NAME" "parser_step p r c = Some (HTTP_PARSE_INCOMPLETE, p', r')"
  shows "num_headers r' = num_headers r" "c \<noteq> LF"
    "c = CR \<and> p_state p' = P_HEADER_NAME_CR \<or>
     c = COLON \<and> p_state p' = P_HEADER_VALUE \<and> name_len p' = name_len p \<or>
     c \<noteq> CR \<and> c \<noteq> COLON \<and> p_state p' = P_HEADER_NAME \<and> name_len p' = Suc (name_len p)"
  using assms
  by (auto simp: parser_step_def step_header_name_def finish_def Let_def set_defs split: if_splits)

text \<open>Every other state: where it can lead, and when it can count a header.\<close>

definition step_summary :: "http_parser \<Rightarrow> http_request \<Rightarrow> char \<Rightarrow> http_parser \<Rightarrow> http_request \<Rightarrow> bool" where
  "step_summary p r c p' r' \<longleftrightarrow>
     (if pre_header p then num_headers r' = num_headers r \<and> (pre_header p' \<or> c = LF)
      else \<not> pre_header p' \<and> num_headers r' = num_headers r + (if c = LF then 1 else 0)) \<and>
     (p_state p' = P_HEADER_NAME \<longrightarrow> c = LF \<and> name_len p' = 0) \<and>
     (p_state p' \<in> {P_HEADER_VALUE, P_HEADER_VALUE_CR} \<longrightarrow>
        p_state p \<in> {P_HEADER_VALUE, P_HEADER_VALUE_CR} \<and> name_len p' = name_len p)"

lemma other_more:
  assumes "p_state p \<noteq> P_HEADER_NAME" "parser_step p r c = Some (HTTP_PARSE_INCOMPLETE, p', r')"
  shows "step_summary p r c p' r'"
proof (cases "p_state p")
  case P_METHOD
  with assms show ?thesis
    by (auto simp: step_summary_def parser_step_def step_method_def array_set_def pre_header_def split: if_splits)
next
  case P_PATH
  with assms show ?thesis
    by (auto simp: step_summary_def parser_step_def step_path_def set_path_def array_set_def pre_header_def
        split: if_splits)
next
  case P_QUERY
  with assms show ?thesis
    by (auto simp: step_summary_def parser_step_def step_query_def set_query_def array_set_def pre_header_def
        split: if_splits)
next
  case P_VERSION
  with assms show ?thesis
    by (auto simp: step_summary_def parser_step_def step_version_def end_version_def set_version_def
        array_set_def pre_header_def split: if_splits)
next
  case P_VERSION_CR
  with assms show ?thesis
    by (auto simp: step_summary_def parser_step_def step_version_cr_def end_version_def set_version_def
        array_set_def pre_header_def split: if_splits)
next
  case P_HEADER_VALUE
  with assms show ?thesis
    by (auto simp: step_summary_def parser_step_def step_header_value_def end_header_def set_header_def
        array_set_def pre_header_def split: if_splits)
next
  case P_HEADER_VALUE_CR
  with assms show ?thesis
    by (auto simp: step_summary_def parser_step_def step_header_value_cr_def end_header_def set_header_def
        array_set_def pre_header_def split: if_splits)
qed (use assms in \<open>auto simp: parser_step_def step_header_name_cr_def finish_def split: if_splits\<close>)

lemma within_limits_step:
  assumes lim: "within_limits p r k (c # cs)"
    and step: "parser_step p r c = Some (HTTP_PARSE_INCOMPLETE, p', r')"
  shows "\<exists>k'. within_limits p' r' k' cs"
proof (cases "p_state p = P_HEADER_NAME")
  case True
  note more = header_name_more [OF True step]
  from True lim obtain n where n: "k = Some n" "name_len p \<le> n" by (auto simp: within_limits_def)
  define k' where "k' = (if c = COLON then None else Some (Suc n))"
  have "num_headers r' + count_list cs LF \<le> 63"
    using lim True more(1,2) by (auto simp: within_limits_def pre_header_def)
  moreover have "c = COLON \<Longrightarrow> n \<le> 253" "short_names k' cs"
    using lim n more(2) by (simp_all add: within_limits_def k'_def)
  ultimately have "within_limits p' r' k' cs"
    using more(3) n by (auto simp: within_limits_def k'_def)
  then show ?thesis ..
next
  case False
  note sum = other_more [OF False step]
  have "\<exists>k'. short_names k' cs \<and> (c = LF \<longrightarrow> k' = Some 0)"
    using lim by (auto simp: within_limits_def split: if_splits option.splits)
  then obtain k' where k': "short_names k' cs" "c = LF \<longrightarrow> k' = Some 0" by blast
  have "num_headers r' + count_list cs LF \<le> 63 + (if pre_header p' then 1 else 0)"
    using lim sum by (auto simp: within_limits_def step_summary_def split: if_splits)
  moreover have "p_state p' = P_HEADER_NAME \<longrightarrow> (\<exists>n. k' = Some n \<and> name_len p' \<le> n)"
    using sum k' by (auto simp: step_summary_def)
  moreover have "p_state p' \<in> {P_HEADER_VALUE, P_HEADER_VALUE_CR} \<longrightarrow> name_len p' \<le> 253"
    using sum lim unfolding step_summary_def within_limits_def by metis
  ultimately show ?thesis using k'(1) by (auto simp: within_limits_def)
qed

lemma within_limits_no_fault:
  assumes wf: "parser_wf p" and lim: "within_limits p r k (c # cs)"
  shows "parser_step p r c \<noteq> None"
proof
  assume fault: "parser_step p r c = None"
  note cause = parser_step_fault [OF wf fault]
  from cause(1) have "num_headers r < MAX_HEADERS" using lim by (auto simp: within_limits_def pre_header_def)
  with cause have name: "254 \<le> name_len p" by simp
  with cause(1) lim have "p_state p = P_HEADER_NAME" by (auto simp: within_limits_def)
  with cause(3) name lim \<open>num_headers r < MAX_HEADERS\<close> show False
    by (auto simp: within_limits_def split: if_splits)
qed

lemma feed_loop_safe:
  assumes "parser_wf p" "within_limits p r k cs"
  shows "\<exists>st p' r'. feed_loop p r cs = Some (st, p', r') \<and> parser_wf p'"
  using assms
proof (induction cs arbitrary: p r k)
  case Nil
  then show ?case by simp
next
  case (Cons c cs)
  obtain st p' r' where step: "parser_step p r c = Some (st, p', r')"
    using within_limits_no_fault [OF Cons.prems] by (cases "parser_step p r c") auto
  show ?case
  proof (cases "st = HTTP_PARSE_INCOMPLETE")
    case True
    with step obtain k' where "within_limits p' r' k' cs"
      using within_limits_step [OF Cons.prems(2)] by blast
    with Cons.IH [OF parser_step_wf [OF Cons.prems(1) step]] step True show ?thesis by simp
  next
    case False
    with step parser_step_wf [OF Cons.prems(1) step] show ?thesis by simp
  qed
qed

section \<open>Reading whole tokens\<close>

text \<open>Consecutive writes from index \<open>k\<close> on.\<close>

fun write_at :: "carray \<Rightarrow> nat \<Rightarrow> string \<Rightarrow> carray" where
  "write_at a k [] = a"
| "write_at a k (c # cs) = write_at (a(k := c)) (Suc k) cs"

lemma write_at_append: "write_at a k (xs @ ys) = write_at (write_at a k xs) (k + length xs) ys"
  by (induction xs arbitrary: a k) auto

lemma write_at_prefix: "map (write_at a k s) [0..<k + length s] = map a [0..<k] @ s"
proof (induction s arbitrary: a k)
  case Nil
  then show ?case by simp
next
  case (Cons c s)
  have "map (write_at a k (c # s)) [0..<Suc k + length s] = map (a(k := c)) [0..<Suc k] @ s"
    using Cons.IH by (simp only: write_at.simps)
  also have "map (a(k := c)) [0..<Suc k] = map a [0..<k] @ [c]" by (rule map_upd_snoc) simp
  finally show ?case by (simp only: append_assoc append_Cons append_Nil length_Cons add_Suc add_Suc_right)
qed

lemma array_str_write:
  assumes "length s < n"
  shows "array_str n ((write_at a 0 s)(length s := NUL)) 0 = cstr s"
proof (rule array_str_terminated)
  show "map ((write_at a 0 s)(length s := NUL)) [0..<length s] = s"
    using write_at_prefix [of a 0 s] by simp
qed (use assms in simp_all)

lemma array_str_write_at:
  assumes "length s \<le> n" "NUL \<notin> set s"
  shows "take (length s) (array_str n (write_at a 0 s) 0) = s"
proof -
  have "[0..<n] = [0..<length s] @ [length s..<n]"
    using assms(1) upt_add_eq_append [of 0 "length s" "n - length s"] by simp
  then have "map (write_at a 0 s) [0..<n] = s @ map (write_at a 0 s) [length s..<n]"
    using write_at_prefix [of a 0 s] by simp
  moreover have "takeWhile (\<lambda>c. c \<noteq> NUL) (s @ t) = s @ takeWhile (\<lambda>c. c \<noteq> NUL) t" for t
    using assms(2) by (induction s) auto
  ultimately show ?thesis by (simp add: array_str_takeWhile)
qed

definition token_ok :: "char set \<Rightarrow> string \<Rightarrow> bool" where
  "token_ok bad s \<longleftrightarrow> set s \<inter> bad = {} \<and> NUL \<notin> set s"

lemma token_ok_Cons [simp]:
  "token_ok bad (c # s) \<longleftrightarrow> c \<notin> bad \<and> c \<noteq> NUL \<and> token_ok bad s" "token_ok bad []"
  by (auto simp: token_ok_def)

lemma feed_method_bytes:
  "p_state p = P_METHOD \<Longrightarrow> token_ok {SP, TAB, CR, LF} s \<Longrightarrow> method_len p + length s \<le> 15 \<Longrightarrow>
   feed_loop p r (s @ rest) =
     feed_loop (p\<lparr>method_tmp := write_at (method_tmp p) (method_len p) s, method_len := method_len p + length s\<rparr>) r rest"
  by (induction s arbitrary: p) (auto simp: parser_step_def step_method_def array_set_def)

lemma feed_path_bytes:
  "p_state p = P_PATH \<Longrightarrow> token_ok {SP, TAB, CR, LF, CHR ''?''} s \<Longrightarrow> path_pos p + length s \<le> 4095 \<Longrightarrow>
   feed_loop p r (s @ rest) =
     feed_loop (p\<lparr>path_pos := path_pos p + length s\<rparr>) (r\<lparr>path := write_at (path r) (path_pos p) s\<rparr>) rest"
  by (induction s arbitrary: p r) (auto simp: parser_step_def step_path_def set_path_def array_set_def)

lemma feed_query_bytes:
  "p_state p = P_QUERY \<Longrightarrow> token_ok {SP, TAB, CR, LF} s \<Longrightarrow> query_pos p + length s \<le> 4095 \<Longrightarrow>
   feed_loop p r (s @ rest) =
     feed_loop (p\<lparr>query_pos := query_pos p + length s\<rparr>)
       (r\<lparr>query_string := write_at (query_string r) (query_pos p) s\<rparr>) rest"
  by (induction s arbitrary: p r) (auto simp: parser_step_def step_query_def set_query_def array_set_def)

lemma feed_version_bytes:
  "p_state p = P_VERSION \<Longrightarrow> token_ok {CR, LF} s \<Longrightarrow> version_pos p + length s \<le> 15 \<Longrightarrow>
   feed_loop p r (s @ rest) =
     feed_loop (p\<lparr>version_pos := version_pos p + length s\<rparr>)
       (r\<lparr>version := write_at (version r) (version_pos p) s\<rparr>) rest"
  by (induction s arbitrary: p r) (auto simp: parser_step_def step_version_def set_version_def array_set_def)

definition write_row :: "http_request \<Rightarrow> nat \<Rightarrow> string \<Rightarrow> http_request" where
  "write_row r k s = r\<lparr>headers := (headers r)(num_headers r := write_at (headers r (num_headers r)) k s)\<rparr>"

lemma write_row_Nil [simp]: "write_row r k [] = r"
  by (simp add: write_row_def)

lemma write_row_Cons:
  "num_headers r < MAX_HEADERS \<Longrightarrow> k < HEADER_SIZE \<Longrightarrow> set_header r k c = Some (write_row r k [c])"
  "write_row (write_row r k [c]) (Suc k) s = write_row r k (c # s)"
  by (simp_all add: set_header_def array_set_def write_row_def)

lemma write_row_num [simp]: "num_headers (write_row r k s) = num_headers r"
  by (simp add: write_row_def)

lemma feed_name_bytes:
  "p_state p = P_HEADER_NAME \<Longrightarrow> token_ok {CR, LF, COLON} s \<Longrightarrow> name_len p + length s \<le> 255 \<Longrightarrow>
   num_headers r < MAX_HEADERS \<Longrightarrow>
   feed_loop p r (s @ rest) = feed_loop (p\<lparr>name_len := name_len p + length s\<rparr>) (write_row r (name_len p) s) rest"
proof (induction s arbitrary: p r)
  case (Cons c s)
  then show ?case
    using Cons.IH [of "p\<lparr>name_len := Suc (name_len p)\<rparr>" "write_row r (name_len p) [c]"]
    by (simp add: parser_step_def step_header_name_def write_row_Cons)
qed simp

lemma feed_value_bytes:
  "p_state p = P_HEADER_VALUE \<Longrightarrow> token_ok {CR, LF} s \<Longrightarrow> value_pos p + value_len p + length s \<le> 255 \<Longrightarrow>
   num_headers r < MAX_HEADERS \<Longrightarrow> (value_len p = 0 \<longrightarrow> s = [] \<or> hd s \<notin> {SP, TAB}) \<Longrightarrow>
   feed_loop p r (s @ rest) =
     feed_loop (p\<lparr>value_len := value_len p + length s\<rparr>) (write_row r (value_pos p + value_len p) s) rest"
proof (induction s arbitrary: p r)
  case (Cons c s)
  then show ?case
    using Cons.IH [of "p\<lparr>value_len := Suc (value_len p)\<rparr>" "write_row r (value_pos p + value_len p) [c]"]
    by (auto simp: parser_step_def step_header_value_def write_row_Cons)
qed simp

section \<open>Reading a whole request\<close>

type_synonym header = "string \<times> string"

abbreviation CRLF :: string where "CRLF \<equiv> [CR, LF]"

definition header_text :: "header \<Rightarrow> string" where
  "header_text h = fst h @ '': '' @ snd h"

definition render_headers :: "header list \<Rightarrow> string" where
  "render_headers hs = concat (map (\<lambda>h. header_text h @ CRLF) hs)"

definition render_line :: "string \<Rightarrow> string \<Rightarrow> string option \<Rightarrow> string \<Rightarrow> string" where
  "render_line m pa q v =
     m @ [SP] @ pa @ (case q of None \<Rightarrow> [] | Some q \<Rightarrow> CHR ''?'' # q) @ [SP] @ v @ CRLF"

definition header_ok :: "header \<Rightarrow> bool" where
  "header_ok h \<longleftrightarrow> fst h \<noteq> [] \<and> token_ok {CR, LF, COLON} (fst h) \<and> token_ok {CR, LF} (snd h) \<and>
     (snd h = [] \<or> hd (snd h) \<notin> {SP, TAB}) \<and> length (header_text h) \<le> 255"

definition is_host :: "header \<Rightarrow> bool" where
  "is_host h \<longleftrightarrow> map tolower (fst h) = ''host''"

definition line_ok :: "string \<Rightarrow> string \<Rightarrow> string option \<Rightarrow> string \<Rightarrow> bool" where
  "line_ok m pa q v \<longleftrightarrow>
     m \<noteq> [] \<and> token_ok {SP, TAB, CR, LF} m \<and> length m \<le> 15 \<and>
     pa \<noteq> [] \<and> token_ok {SP, TAB, CR, LF, CHR ''?''} pa \<and> length pa \<le> 4095 \<and>
     (case q of None \<Rightarrow> True | Some q \<Rightarrow> token_ok {SP, TAB, CR, LF} q \<and> length q \<le> 4095) \<and>
     token_ok {CR, LF} v \<and> length v \<le> 15"

text \<open>The fields of the request line, which header lines leave alone.\<close>

definition same_line :: "http_request \<Rightarrow> http_request \<Rightarrow> bool" where
  "same_line r r' \<longleftrightarrow> req_method r' = req_method r \<and> path r' = path r \<and>
     query_string r' = query_string r \<and> version r' = version r"

lemma same_line_refl [simp]: "same_line r r"
  by (simp add: same_line_def)

lemma same_line_trans: "same_line a b \<Longrightarrow> same_line b c \<Longrightarrow> same_line a c"
  by (simp add: same_line_def)

lemma host_check:
  assumes "token_ok bad s" "length s \<le> 255"
  shows "(strncaseeq 4 (array_str 256 (write_at a 0 s) 0) ''host'' \<and> length s = 4) \<longleftrightarrow> map tolower s = ''host''"
proof (cases "length s = 4")
  case True
  have "NUL \<notin> set s" using assms by (simp add: token_ok_def)
  then have "take 4 (array_str 256 (write_at a 0 s) 0) = s"
    using array_str_write_at [of s 256 a] True by simp
  moreover have "NUL \<notin> set (array_str 256 (write_at a 0 s) 0)"
    by (auto simp: array_str_takeWhile dest: set_takeWhileD)
  moreover have "map tolower (take 4 (cstr ''host'')) = ''host''" by code_simp
  ultimately show ?thesis using True by (simp add: strncaseeq_def)
next
  case False
  have "length (map tolower s) \<noteq> length ''host''" using False by simp
  then have "map tolower s \<noteq> ''host''" by metis
  with False show ?thesis by simp
qed

lemma feed_header_line:
  assumes p: "p_state p = P_HEADER_NAME" "name_len p = 0" "\<not> p_done p"
    and n: "num_headers r < MAX_HEADERS" and h: "header_ok h"
  shows "\<exists>p' r'. feed_loop p r (header_text h @ CRLF @ rest) = feed_loop p' r' rest \<and>
    p_state p' = P_HEADER_NAME \<and> name_len p' = 0 \<and> \<not> p_done p' \<and>
    host_seen p' = (host_seen p \<or> is_host h) \<and> num_headers r' = num_headers r + 1 \<and>
    header_str r' (num_headers r) = header_text h \<and>
    (\<forall>i. i \<noteq> num_headers r \<longrightarrow> headers r' i = headers r i) \<and> same_line r r'"
proof -
  obtain name val where hd: "h = (name, val)" by fastforce
  let ?k = "length name"
  have ok: "name \<noteq> []" "token_ok {CR, LF, COLON} name" "token_ok {CR, LF} val"
    "val = [] \<or> hd val \<notin> {SP, TAB}" "?k + 2 + length val \<le> 255"
    using h by (simp_all add: hd header_ok_def header_text_def)
  define p1 where "p1 = p\<lparr>name_len := ?k\<rparr>"
  define r1 where "r1 = write_row r 0 name"
  define p2 where "p2 = (if strncaseeq 4 (header_str r1 (num_headers r1)) ''host'' \<and> name_len p1 = 4
      then p1\<lparr>host_seen := True\<rparr> else p1)\<lparr>value_pos := ?k + 2, value_len := 0, p_state := P_HEADER_VALUE\<rparr>"
  define r2 where "r2 = write_row r 0 (name @ '': '')"
  define r3 where "r3 = write_row r 0 (name @ '': '' @ val)"
  define r4 where "r4 = write_row r 0 (name @ '': '' @ val @ [NUL])"
  define p4 where "p4 = p2\<lparr>value_len := length val, p_state := P_HEADER_NAME, name_len := 0\<rparr>"
  have row: "write_row (write_row r 0 xs) (length xs) ys = write_row r 0 (xs @ ys)" for xs ys
    by (simp add: write_row_def write_at_append)
  have colon: "parser_step p1 r1 COLON = Some (HTTP_PARSE_INCOMPLETE, p2, r2)"
    using p ok(1,5) n row [of name "'':''"] row [of "name @ '':''" "'' ''"]
    by (simp add: parser_step_def step_header_name_def p1_def r1_def p2_def r2_def write_row_Cons Let_def)
  have space: "parser_step p2 r2 SP = Some (HTTP_PARSE_INCOMPLETE, p2, r2)"
    by (simp add: parser_step_def step_header_value_def p2_def)
  have vals: "feed_loop p2 r2 (val @ rest') = feed_loop (p2\<lparr>value_len := length val\<rparr>) r3 rest'" for rest'
    using feed_value_bytes [of p2 val r2 rest'] ok n row [of "name @ '': ''" val]
    by (simp add: p2_def r2_def r3_def)
  have crlf: "feed_loop (p2\<lparr>value_len := length val\<rparr>) r3 (CR # LF # rest) =
      feed_loop p4 (r4\<lparr>num_headers := num_headers r + 1\<rparr>) rest"
    using ok(5) n row [of "name @ '': '' @ val" "[NUL]"]
    by (simp add: parser_step_def step_header_value_def step_header_value_cr_def end_header_def
        p2_def p4_def r3_def r4_def write_row_Cons)
  have feed: "feed_loop p r (header_text h @ CRLF @ rest) = feed_loop p4 (r4\<lparr>num_headers := num_headers r + 1\<rparr>) rest"
    using feed_name_bytes [OF p(1) ok(2), of r "COLON # SP # val @ CR # LF # rest"] ok p n crlf
    by (simp add: hd header_text_def p1_def [symmetric] r1_def [symmetric] colon space vals)
  have host: "host_seen p4 = (host_seen p \<or> is_host h)"
    using host_check [OF ok(2), of "headers r (num_headers r)"] ok(5)
    by (auto simp: p4_def p2_def p1_def r1_def write_row_def header_str_def is_host_def hd)
  have "headers r4 (num_headers r) = (write_at (headers r (num_headers r)) 0 (header_text h))(length (header_text h) := NUL)"
    using write_at_append [of "headers r (num_headers r)" 0 "header_text h" "[NUL]"]
    by (simp add: r4_def write_row_def hd header_text_def)
  then have "header_str (r4\<lparr>num_headers := num_headers r + 1\<rparr>) (num_headers r) = header_text h"
    using array_str_write [of "header_text h" 256] ok
    by (auto simp: header_str_def header_text_def hd token_ok_def NUL_def)
  with feed host p show ?thesis
    by (intro exI [of _ p4] exI [of _ "r4\<lparr>num_headers := num_headers r + 1\<rparr>"])
      (auto simp: p4_def p2_def p1_def r4_def write_row_def same_line_def)
qed

lemma feed_headers:
  assumes "p_state p = P_HEADER_NAME" "name_len p = 0" "\<not> p_done p"
    "num_headers r + length hs \<le> MAX_HEADERS" "list_all header_ok hs"
  shows "\<exists>p' r'. feed_loop p r (render_headers hs @ rest) = feed_loop p' r' rest \<and>
    p_state p' = P_HEADER_NAME \<and> name_len p' = 0 \<and> \<not> p_done p' \<and>
    host_seen p' = (host_seen p \<or> list_ex is_host hs) \<and> num_headers r' = num_headers r + length hs \<and>
    (\<forall>i < length hs. header_str r' (num_headers r + i) = header_text (hs ! i)) \<and>
    (\<forall>i < num_headers r. headers r' i = headers r i) \<and> same_line r r'"
  using assms
proof (induction hs arbitrary: p r)
  case Nil
  then show ?case by (intro exI [of _ p] exI [of _ r]) (simp add: render_headers_def)
next
  case (Cons h hs)
  obtain p1 r1 where one: "feed_loop p r (header_text h @ CRLF @ render_headers hs @ rest) = feed_loop p1 r1 (render_headers hs @ rest)"
    "p_state p1 = P_HEADER_NAME" "name_len p1 = 0" "\<not> p_done p1"
    "host_seen p1 = (host_seen p \<or> is_host h)" "num_headers r1 = num_headers r + 1"
    "header_str r1 (num_headers r) = header_text h" "\<forall>i. i \<noteq> num_headers r \<longrightarrow> headers r1 i = headers r i"
    "same_line r r1"
    using feed_header_line [of p r h "render_headers hs @ rest"] Cons.prems by auto
  have le: "num_headers r1 + length hs \<le> MAX_HEADERS" using Cons.prems(4) one(6) by simp
  obtain p2 r2 where two: "feed_loop p1 r1 (render_headers hs @ rest) = feed_loop p2 r2 rest"
    "p_state p2 = P_HEADER_NAME" "name_len p2 = 0" "\<not> p_done p2"
    "host_seen p2 = (host_seen p1 \<or> list_ex is_host hs)" "num_headers r2 = num_headers r1 + length hs"
    "\<forall>i < length hs. header_str r2 (num_headers r1 + i) = header_text (hs ! i)"
    "\<forall>i < num_headers r1. headers r2 i = headers r1 i" "same_line r1 r2"
    using Cons.IH [OF one(2-4) le] Cons.prems(5) by auto
  have "header_str r2 (num_headers r + i) = header_text ((h # hs) ! i)" if "i < length (h # hs)" for i
    using that one(6,7) two(7,8) by (cases i) (auto simp: header_str_def)
  moreover have "feed_loop p r (render_headers (h # hs) @ rest) = feed_loop p2 r2 rest"
    using one(1) two(1) by (simp add: render_headers_def)
  ultimately show ?case
    using one two same_line_trans [OF one(9) two(9)]
    by (intro exI [of _ p2] exI [of _ r2]) auto
qed

lemma feed_request_line:
  assumes ok: "line_ok m pa q v"
  shows "\<exists>p' r'. feed_loop http_parser_init r (render_line m pa q v @ rest) = feed_loop p' r' rest \<and>
    p_state p' = P_HEADER_NAME \<and> name_len p' = 0 \<and> \<not> p_done p' \<and> \<not> host_seen p' \<and>
    num_headers r' = num_headers r \<and> headers r' = headers r \<and> req_method r' = method_from_token m \<and>
    path_str r' = pa \<and> query_str r' = (case q of None \<Rightarrow> query_str r | Some q \<Rightarrow> q) \<and> version_str r' = v"
proof -
  have m: "m \<noteq> []" "token_ok {SP, TAB, CR, LF} m" "length m \<le> 15"
    and pa: "pa \<noteq> []" "token_ok {SP, TAB, CR, LF, CHR ''?''} pa" "length pa \<le> 4095"
    and q: "\<And>s. q = Some s \<Longrightarrow> token_ok {SP, TAB, CR, LF} s \<and> length s \<le> 4095"
    and v: "token_ok {CR, LF} v" "length v \<le> 15"
    using ok by (auto simp: line_ok_def)
  have str: "array_str n ((write_at a 0 s)(length s := NUL)) 0 = s" if "token_ok bad s" "length s < n" for bad s n a
    using array_str_write [OF that(2)] that(1) by (simp add: token_ok_def)
  define p1 where "p1 = http_parser_init\<lparr>method_tmp := (write_at zeros 0 m)(length m := NUL), method_len := length m,
      p_state := P_PATH\<rparr>"
  define r1 where "r1 = r\<lparr>req_method := method_from_token m\<rparr>"
  have meth: "feed_loop http_parser_init r (m @ SP # rest') = feed_loop p1 r1 rest'" for rest'
    using feed_method_bytes [of http_parser_init m r "SP # rest'"] m str [OF m(2), of 16]
    by (simp add: http_parser_init_def parser_step_def step_method_def array_set_def p1_def r1_def)
  define r2 where "r2 = r1\<lparr>path := (write_at (path r) 0 pa)(length pa := NUL)\<rparr>"
  define r3 where "r3 = (case q of None \<Rightarrow> r2
    | Some s \<Rightarrow> r2\<lparr>query_string := (write_at (query_string r) 0 s)(length s := NUL)\<rparr>)"
  define p3 where "p3 = (case q of None \<Rightarrow> p1\<lparr>path_pos := length pa, p_state := P_VERSION\<rparr>
    | Some s \<Rightarrow> p1\<lparr>path_pos := length pa, query_pos := length s, p_state := P_VERSION\<rparr>)"
  have target: "feed_loop p1 r1 (pa @ (case q of None \<Rightarrow> [] | Some s \<Rightarrow> CHR ''?'' # s) @ SP # rest') = feed_loop p3 r3 rest'"
    for rest'
  proof (cases q)
    case None
    then show ?thesis
      using feed_path_bytes [of p1 pa r1 "SP # rest'"] pa
      by (simp add: p1_def http_parser_init_def r1_def parser_step_def step_path_def set_path_def array_set_def
          p3_def r3_def r2_def)
  next
    case (Some s)
    then show ?thesis
      using feed_path_bytes [of p1 pa r1 "CHR ''?'' # s @ SP # rest'"] pa q [OF Some]
        feed_query_bytes [of "p1\<lparr>path_pos := length pa, p_state := P_QUERY\<rparr>" s r2 "SP # rest'"]
      by (simp add: p1_def http_parser_init_def r1_def parser_step_def step_path_def step_query_def set_path_def
          set_query_def array_set_def p3_def r3_def r2_def)
  qed
  define r4 where "r4 = r3\<lparr>version := (write_at (version r) 0 v)(length v := NUL)\<rparr>"
  define p4 where "p4 = p3\<lparr>version_pos := length v, p_state := P_HEADER_NAME, name_len := 0\<rparr>"
  have "version_pos p3 = 0" "p_state p3 = P_VERSION" "version r3 = version r"
    by (simp_all add: p3_def p1_def http_parser_init_def r3_def r2_def r1_def split: option.splits)
  then have vers: "feed_loop p3 r3 (v @ CR # LF # rest) = feed_loop p4 r4 rest"
    using feed_version_bytes [of p3 v r3 "CR # LF # rest"] v
    by (simp add: parser_step_def step_version_def step_version_cr_def end_version_def set_version_def
        array_set_def p4_def r4_def)
  have feed: "feed_loop http_parser_init r (render_line m pa q v @ rest) = feed_loop p4 r4 rest"
    using meth [of "pa @ (case q of None \<Rightarrow> [] | Some s \<Rightarrow> CHR ''?'' # s) @ SP # v @ CR # LF # rest"]
      target [of "v @ CR # LF # rest"] vers
    by (simp add: render_line_def)
  show ?thesis
    using feed str [OF pa(2), of 4096] str [OF v(1), of 16] q str pa(3) v(2)
    by (intro exI [of _ p4] exI [of _ r4])
      (auto simp: p4_def p3_def p1_def http_parser_init_def r4_def r3_def r2_def r1_def path_str_def
        query_str_def version_str_def split: option.splits)
qed

text \<open>Both together: the parser stands at the line after the headers.\<close>

lemma feed_head:
  assumes "line_ok m pa q v" "list_all header_ok hs" "num_headers r + length hs \<le> MAX_HEADERS"
  shows "\<exists>p' r'. feed_loop http_parser_init r (render_line m pa q v @ render_headers hs @ rest) = feed_loop p' r' rest \<and>
    p_state p' = P_HEADER_NAME \<and> name_len p' = 0 \<and> \<not> p_done p' \<and> host_seen p' = list_ex is_host hs \<and>
    req_method r' = method_from_token m \<and> path_str r' = pa \<and>
    query_str r' = (case q of None \<Rightarrow> query_str r | Some q \<Rightarrow> q) \<and> version_str r' = v \<and>
    num_headers r' = num_headers r + length hs \<and>
    map (header_str r') [0..<num_headers r'] = map (header_str r) [0..<num_headers r] @ map header_text hs"
proof -
  obtain p1 r1 where one: "feed_loop http_parser_init r (render_line m pa q v @ render_headers hs @ rest) = feed_loop p1 r1 (render_headers hs @ rest)"
    "p_state p1 = P_HEADER_NAME" "name_len p1 = 0" "\<not> p_done p1" "\<not> host_seen p1" "num_headers r1 = num_headers r"
    "headers r1 = headers r" "req_method r1 = method_from_token m" "path_str r1 = pa"
    "query_str r1 = (case q of None \<Rightarrow> query_str r | Some q \<Rightarrow> q)" "version_str r1 = v"
    using feed_request_line [OF assms(1), of r "render_headers hs @ rest"] by blast
  obtain p2 r2 where two: "feed_loop p1 r1 (render_headers hs @ rest) = feed_loop p2 r2 rest"
    "p_state p2 = P_HEADER_NAME" "name_len p2 = 0" "\<not> p_done p2"
    "host_seen p2 = (host_seen p1 \<or> list_ex is_host hs)" "num_headers r2 = num_headers r1 + length hs"
    "\<forall>i < length hs. header_str r2 (num_headers r1 + i) = header_text (hs ! i)"
    "\<forall>i < num_headers r1. headers r2 i = headers r1 i" "same_line r1 r2"
    using feed_headers [OF one(2-4), of r1 hs rest] assms(2,3) one(6) by auto
  have "header_str r2 i = header_str r i" if "i < num_headers r" for i
    using that one(6,7) two(8) by (simp add: header_str_def)
  moreover have "header_str r2 i = header_text (hs ! (i - num_headers r))"
    if "num_headers r \<le> i" "i < num_headers r2" for i
    using that one(6) two(6) two(7) [rule_format, of "i - num_headers r"] by simp
  ultimately have "map (header_str r2) [0..<num_headers r2] = map (header_str r) [0..<num_headers r] @ map header_text hs"
    using one(6) two(6) by (intro list_eq_iff_nth_eq [THEN iffD2]) (auto simp: nth_append)
  then show ?thesis
    using one two by (intro exI [of _ p2] exI [of _ r2])
      (auto simp: same_line_def path_str_def query_str_def version_str_def)
qed

lemma finalize_keep_alive:
  "req_keep_alive (parser_finalize r) =
     fold connection_override (map (header_str r) [0..<num_headers r]) (version_str r = ''HTTP/1.1'')"
proof -
  have "header_str (r\<lparr>parsed := True, req_keep_alive := b\<rparr>) i = header_str r i" for i b
    by (simp add: header_str_def)
  then show ?thesis by (simp add: parser_finalize_def Let_def fold_map comp_def)
qed

lemma finalize_fields [simp]:
  "req_method (parser_finalize r) = req_method r" "path (parser_finalize r) = path r"
  "query_string (parser_finalize r) = query_string r" "version (parser_finalize r) = version r"
  "headers (parser_finalize r) = headers r" "num_headers (parser_finalize r) = num_headers r"
  "parsed (parser_finalize r)"
  by (simp_all add: parser_finalize_def Let_def)

lemma finalize_strs [simp]:
  "path_str (parser_finalize r) = path_str r" "query_str (parser_finalize r) = query_str r"
  "version_str (parser_finalize r) = version_str r" "header_str (parser_finalize r) = header_str r"
  by (simp_all add: path_str_def query_str_def version_str_def header_str_def fun_eq_iff)

lemma feed_loop_status:
  assumes "parser_wf p" "\<not> p_done p" "feed_loop p r cs = Some (st, p', r')"
  shows "parser_wf p' \<and> (p_done p' \<longleftrightarrow> st = HTTP_PARSE_DONE) \<and> (st = HTTP_PARSE_DONE \<longrightarrow> parsed r')"
  using assms
proof (induction cs arbitrary: p r)
  case (Cons c cs)
  from Cons.prems(3) obtain st1 p1 r1 where step: "parser_step p r c = Some (st1, p1, r1)"
    by (cases "parser_step p r c") auto
  note wf = parser_step_wf [OF Cons.prems(1) step] and st = parser_step_status [OF Cons.prems(1,2) step]
  have "st1 = HTTP_PARSE_DONE \<Longrightarrow> parsed r1"
    using step Cons.prems(1,2)
    by (cases "p_state p") (auto simp: parser_wf_def parser_step_def step_defs set_defs split: if_splits)
  with step wf st Cons show ?case by (auto split: if_splits)
qed simp

text \<open>With every header row in use, the next name byte is written outside the array.\<close>

lemma full_rows_fault:
  assumes "line_ok m pa q v" "list_all header_ok hs" "num_headers r + length hs = MAX_HEADERS"
    and "c \<notin> {CR, LF, COLON}"
  shows "http_parser_feed http_parser_init r (render_line m pa q v @ render_headers hs @ c # rest) = None"
proof -
  have le: "num_headers r + length hs \<le> MAX_HEADERS" using assms(3) by simp
  obtain p1 r1 where h: "feed_loop http_parser_init r (render_line m pa q v @ render_headers hs @ c # rest) = feed_loop p1 r1 (c # rest)"
    "p_state p1 = P_HEADER_NAME" "name_len p1 = 0" "num_headers r1 = num_headers r + length hs"
    using feed_head [OF assms(1,2) le, of "c # rest"] by metis
  have "parser_step p1 r1 c = None"
    using h assms(3,4) by (simp add: parser_step_def step_header_name_def set_header_def)
  with h show ?thesis by (simp add: http_parser_feed_def http_parser_init_def)
qed

definition plain_header :: header where
  "plain_header = (''A'', ''b'')"

lemma plain_headers_ok: "list_all header_ok (replicate n plain_header)"
  by (simp add: list_all_length plain_header_def header_ok_def token_ok_def header_text_def NUL_def)

lemma plain_line_ok: "line_ok ''GET'' ''/'' None ''HTTP/1.1''"
  by (simp add: line_ok_def token_ok_def NUL_def)

text \<open>The text of a well-formed request is accepted with its last byte and not before.\<close>

lemma feed_render:
  assumes "line_ok m pa q v" "list_all header_ok hs" "num_headers r + length hs \<le> MAX_HEADERS"
    and "v = ''HTTP/1.1'' \<longrightarrow> list_ex is_host hs"
  shows "\<exists>p' r'. http_parser_feed http_parser_init r (render_line m pa q v @ render_headers hs @ CRLF @ rest)
      = Some (HTTP_PARSE_DONE, p', parser_finalize r') \<and> p_done p' \<and>
    req_method r' = method_from_token m \<and> path_str r' = pa \<and>
    query_str r' = (case q of None \<Rightarrow> query_str r | Some q \<Rightarrow> q) \<and> version_str r' = v \<and>
    num_headers r' = num_headers r + length hs \<and>
    map (header_str r') [0..<num_headers r'] = map (header_str r) [0..<num_headers r] @ map header_text hs"
    "\<exists>p' r'. http_parser_feed http_parser_init r (render_line m pa q v @ render_headers hs @ [CR]) = Some (HTTP_PARSE_INCOMPLETE, p', r')"
proof -
  obtain p1 r1 where h: "feed_loop http_parser_init r (render_line m pa q v @ render_headers hs @ CR # LF # rest) = feed_loop p1 r1 (CR # LF # rest)"
    "p_state p1 = P_HEADER_NAME" "name_len p1 = 0" "host_seen p1 = list_ex is_host hs"
    "req_method r1 = method_from_token m" "path_str r1 = pa"
    "query_str r1 = (case q of None \<Rightarrow> query_str r | Some q \<Rightarrow> q)" "version_str r1 = v"
    "num_headers r1 = num_headers r + length hs"
    "map (header_str r1) [0..<num_headers r1] = map (header_str r) [0..<num_headers r] @ map header_text hs"
    using feed_head [OF assms(1-3), of "CR # LF # rest"] by metis
  have "feed_loop p1 r1 (CR # LF # rest) =
      Some (HTTP_PARSE_DONE, p1\<lparr>p_state := P_DONE, p_done := True\<rparr>, parser_finalize r1)"
    using h(2-4,8) assms(4) by (auto simp: parser_step_def step_header_name_def step_header_name_cr_def finish_def)
  with h show "\<exists>p' r'. http_parser_feed http_parser_init r (render_line m pa q v @ render_headers hs @ CRLF @ rest)
      = Some (HTTP_PARSE_DONE, p', parser_finalize r') \<and> p_done p' \<and>
    req_method r' = method_from_token m \<and> path_str r' = pa \<and>
    query_str r' = (case q of None \<Rightarrow> query_str r | Some q \<Rightarrow> q) \<and> version_str r' = v \<and>
    num_headers r' = num_headers r + length hs \<and>
    map (header_str r') [0..<num_headers r'] = map (header_str r) [0..<num_headers r] @ map header_text hs"
    by (intro exI [of _ "p1\<lparr>p_state := P_DONE, p_done := True\<rparr>"] exI [of _ r1])
      (simp add: http_parser_feed_def http_parser_init_def)
  obtain p2 r2 where "feed_loop http_parser_init r (render_line m pa q v @ render_headers hs @ [CR]) = feed_loop p2 r2 [CR]"
    "p_state p2 = P_HEADER_NAME" "name_len p2 = 0"
    using feed_head [OF assms(1-3), of "[CR]"] by metis
  then show "\<exists>p' r'. http_parser_feed http_parser_init r (render_line m pa q v @ render_headers hs @ [CR]) = Some (HTTP_PARSE_INCOMPLETE, p', r')"
    by (simp add: parser_step_def step_header_name_def http_parser_feed_def http_parser_init_def)
qed

section \<open>Properties\<close>

text \<open>C6. Round trip: the text of a well-formed request, with a Host header where the version is
  HTTP/1.1 and as many headers as the array still has rows for, parses to DONE whatever follows
  it. The request holds the method, path, query, version and headers that were written, after
  the headers it already held; persistence is the version's default, overridden by every
  Connection header in turn, old ones included.\<close>

theorem parse_render:
  assumes "line_ok m pa q v" "list_all header_ok hs" "num_headers r + length hs \<le> MAX_HEADERS"
    and "v = ''HTTP/1.1'' \<longrightarrow> list_ex is_host hs"
  shows "\<exists>p' r'. http_parser_feed http_parser_init r (render_line m pa q v @ render_headers hs @ CRLF @ rest)
      = Some (HTTP_PARSE_DONE, p', r') \<and>
    p_done p' \<and> parsed r' \<and> req_method r' = method_from_token m \<and> path_str r' = pa \<and>
    query_str r' = (case q of None \<Rightarrow> query_str r | Some q \<Rightarrow> q) \<and> version_str r' = v \<and>
    num_headers r' = num_headers r + length hs \<and>
    map (header_str r') [0..<num_headers r'] = map (header_str r) [0..<num_headers r] @ map header_text hs \<and>
    req_keep_alive r' = fold connection_override
      (map (header_str r) [0..<num_headers r] @ map header_text hs) (v = ''HTTP/1.1'')"
  using feed_render(1) [OF assms, of rest] by (force simp: finalize_keep_alive)

theorem parse_render_witness:
  "\<exists>p' r'. http_parser_feed http_parser_init zero_request
      (''GET /a?b HTTP/1.1'' @ CRLF @ ''Host: x'' @ CRLF @ CRLF) = Some (HTTP_PARSE_DONE, p', r') \<and>
    path_str r' = ''/a'' \<and> query_str r' = ''b'' \<and> req_method r' = HTTP_GET \<and> num_headers r' = 1"
proof -
  have ok: "line_ok ''GET'' ''/a'' (Some ''b'') ''HTTP/1.1''" "list_all header_ok [(''Host'', ''x'')]"
    by (simp_all add: line_ok_def header_ok_def token_ok_def header_text_def NUL_def)
  have host: "list_ex is_host [(''Host'', ''x'')]" by code_simp
  have "num_headers zero_request + length [(''Host'', ''x'')] \<le> MAX_HEADERS" by (simp add: zero_request_def)
  from parse_render [OF ok(1,2) this, of "[]"] host show ?thesis
    by (auto simp: render_line_def render_headers_def header_text_def method_from_token_def zero_request_def)
qed

text \<open>C15. The cut of the input into chunks does not matter: feeding two chunks at once is feeding
  the first and, where it asks for more, the second; a final status of the first chunk stands
  and the rest is not looked at.\<close>

theorem feed_in_pieces:
  "http_parser_feed p r (xs @ ys) =
     (case http_parser_feed p r xs of
        None \<Rightarrow> None
      | Some (st, p', r') \<Rightarrow>
          if st = HTTP_PARSE_INCOMPLETE then http_parser_feed p' r' ys else Some (st, p', r'))"
  using hp.feed_append [of "(p, r)" xs ys] by (auto split: option.splits prod.splits)

text \<open>C22. A request that names HTTP/1.1 and has no Host header is rejected when its header block
  ends with CR LF.\<close>

theorem missing_host_rejected:
  assumes "line_ok m pa q ''HTTP/1.1''" "list_all header_ok hs" "num_headers r + length hs \<le> MAX_HEADERS"
    and "\<not> list_ex is_host hs"
  shows "\<exists>p' r'. http_parser_feed http_parser_init r
      (render_line m pa q ''HTTP/1.1'' @ render_headers hs @ CRLF @ rest) = Some (HTTP_PARSE_ERROR, p', r') \<and> \<not> p_done p'"
proof -
  obtain p1 r1 where h: "feed_loop http_parser_init r (render_line m pa q ''HTTP/1.1'' @ render_headers hs @ CR # LF # rest) = feed_loop p1 r1 (CR # LF # rest)"
    "p_state p1 = P_HEADER_NAME" "name_len p1 = 0" "\<not> p_done p1" "host_seen p1 = list_ex is_host hs" "version_str r1 = ''HTTP/1.1''"
    using feed_head [OF assms(1-3), of "CR # LF # rest"] by metis
  have "feed_loop p1 r1 (CR # LF # rest) = Some (HTTP_PARSE_ERROR, p1\<lparr>p_state := P_HEADER_NAME_CR\<rparr>, r1)"
    using h assms(4) by (simp add: parser_step_def step_header_name_def step_header_name_cr_def)
  with h show ?thesis by (simp add: http_parser_feed_def http_parser_init_def)
qed

theorem missing_host_rejected_witness:
  "\<exists>p' r'. http_parser_feed http_parser_init zero_request (''GET / HTTP/1.1'' @ CRLF @ ''A: b'' @ CRLF @ CRLF)
     = Some (HTTP_PARSE_ERROR, p', r') \<and> \<not> p_done p'"
proof -
  have ok: "line_ok ''GET'' ''/'' None ''HTTP/1.1''" "list_all header_ok [(''A'', ''b'')]"
    "num_headers zero_request + length [(''A'', ''b'')] \<le> MAX_HEADERS"
    by (simp_all add: line_ok_def header_ok_def token_ok_def header_text_def NUL_def zero_request_def)
  have "\<not> list_ex is_host [(''A'', ''b'')]" by code_simp
  from missing_host_rejected [OF ok this, of "[]"] show ?thesis
    by (simp add: render_line_def render_headers_def header_text_def)
qed

text \<open>C38. The same request is accepted when the empty line that ends its header block is a bare LF:
  that branch finishes without looking at the version or at Host.\<close>

theorem bare_lf_skips_host:
  assumes "line_ok m pa q v" "list_all header_ok hs" "num_headers r + length hs \<le> MAX_HEADERS"
  shows "\<exists>p' r'. http_parser_feed http_parser_init r (render_line m pa q v @ render_headers hs @ LF # rest)
      = Some (HTTP_PARSE_DONE, p', r') \<and> parsed r' \<and> version_str r' = v \<and> path_str r' = pa \<and>
    map (header_str r') [0..<num_headers r'] = map (header_str r) [0..<num_headers r] @ map header_text hs"
proof -
  obtain p1 r1 where h: "feed_loop http_parser_init r (render_line m pa q v @ render_headers hs @ LF # rest) = feed_loop p1 r1 (LF # rest)"
    "p_state p1 = P_HEADER_NAME" "name_len p1 = 0" "path_str r1 = pa" "version_str r1 = v"
    "map (header_str r1) [0..<num_headers r1] = map (header_str r) [0..<num_headers r] @ map header_text hs"
    using feed_head [OF assms, of "LF # rest"] by metis
  have "feed_loop p1 r1 (LF # rest) =
      Some (HTTP_PARSE_DONE, p1\<lparr>p_state := P_DONE, p_done := True\<rparr>, parser_finalize r1)"
    using h(2,3) by (simp add: parser_step_def step_header_name_def finish_def)
  with h show ?thesis by (simp add: http_parser_feed_def http_parser_init_def)
qed

theorem bare_lf_skips_host_witness:
  "\<exists>p' r'. http_parser_feed http_parser_init zero_request (''GET / HTTP/1.1'' @ CRLF @ [LF])
     = Some (HTTP_PARSE_DONE, p', r') \<and> version_str r' = ''HTTP/1.1'' \<and> num_headers r' = 0"
proof -
  have ok: "line_ok ''GET'' ''/'' None ''HTTP/1.1''" "list_all header_ok []"
    "num_headers zero_request + length ([] :: header list) \<le> MAX_HEADERS"
    by (simp_all add: line_ok_def token_ok_def NUL_def zero_request_def)
  from bare_lf_skips_host [OF ok, of "[]"] show ?thesis
    by (auto simp: render_line_def render_headers_def zero_request_def)
qed

text \<open>C20. Memory safety: from a fresh parser, an input whose lines each have at most 253 bytes
  before the first colon, and whose line feeds together with the headers already stored number
  at most 64, never makes the parser write outside an array, and every cursor stays within its
  bound.\<close>

theorem feed_safe:
  assumes "num_headers r + count_list buf LF \<le> MAX_HEADERS" "short_names (Some 0) buf"
  shows "\<exists>st p' r'. http_parser_feed http_parser_init r buf = Some (st, p', r') \<and> parser_wf p'"
proof -
  have "within_limits http_parser_init r (Some 0) buf"
    using assms by (simp add: within_limits_def pre_header_def http_parser_init_def)
  from feed_loop_safe [OF parser_init_wf this] show ?thesis
    by (simp add: http_parser_feed_def http_parser_init_def)
qed

theorem feed_safe_witness:
  "\<exists>st p' r'. http_parser_feed http_parser_init zero_request (''POST http://h/?q HTTP'' @ CRLF @ ''A'') = Some (st, p', r')
    \<and> parser_wf p'"
proof -
  have "num_headers zero_request + count_list (''POST http://h/?q HTTP'' @ CRLF @ ''A'') LF \<le> MAX_HEADERS"
    "short_names (Some 0) (''POST http://h/?q HTTP'' @ CRLF @ ''A'')"
    by (simp_all add: zero_request_def)
  from feed_safe [OF this] show ?thesis .
qed

text \<open>C21. The only out-of-bounds writes: whenever feeding well-formed parser state faults, the byte
  at fault came while a header line was being read, and either all 64 header rows were already
  in use or the field name had at least 254 bytes.\<close>

theorem feed_fault_causes:
  assumes "parser_wf p" "http_parser_feed p r buf = None"
  shows "\<exists>pre c post p' r'. buf = pre @ c # post \<and>
    http_parser_feed p r pre = Some (HTTP_PARSE_INCOMPLETE, p', r') \<and>
    p_state p' \<in> {P_HEADER_NAME, P_HEADER_VALUE, P_HEADER_VALUE_CR} \<and>
    (MAX_HEADERS \<le> num_headers r' \<or> 254 \<le> name_len p')"
proof -
  have nd: "\<not> p_done p" using assms(2) by (auto simp: http_parser_feed_def split: if_splits)
  then have "feed_loop p r buf = None" using assms(2) by (simp add: http_parser_feed_def)
  from feed_loop_fault [OF assms(1) this] obtain pre c post p' r' where
    f: "buf = pre @ c # post" "feed_loop p r pre = Some (HTTP_PARSE_INCOMPLETE, p', r')"
       "parser_wf p'" "parser_step p' r' c = None" by blast
  with parser_step_fault [OF f(3,4)] nd show ?thesis by (auto simp: http_parser_feed_def)
qed

theorem feed_fault_causes_witness:
  "\<exists>pre c post p' r'. render_line ''GET'' ''/'' None ''HTTP/1.1'' @ render_headers (replicate 64 plain_header) @ ''X''
      = pre @ c # post \<and>
    http_parser_feed http_parser_init zero_request pre = Some (HTTP_PARSE_INCOMPLETE, p', r') \<and>
    p_state p' \<in> {P_HEADER_NAME, P_HEADER_VALUE, P_HEADER_VALUE_CR} \<and>
    (MAX_HEADERS \<le> num_headers r' \<or> 254 \<le> name_len p')"
proof -
  have "num_headers zero_request + length (replicate 64 plain_header) = MAX_HEADERS" by (simp add: zero_request_def)
  from full_rows_fault [OF plain_line_ok plain_headers_ok this, of "CHR ''X''" "[]"]
  have "http_parser_feed http_parser_init zero_request
    (render_line ''GET'' ''/'' None ''HTTP/1.1'' @ render_headers (replicate 64 plain_header) @ ''X'') = None" by simp
  from feed_fault_causes [OF parser_init_wf this] show ?thesis .
qed

text \<open>The number of headers is not checked: once the stored and the sent headers fill the 64
  rows, the first byte of one more field name is written past the end of the array.\<close>

theorem header_overflow:
  assumes "line_ok m pa q v" "list_all header_ok hs" "num_headers r + length hs = MAX_HEADERS"
    and "c \<notin> {CR, LF, COLON}"
  shows "http_parser_feed http_parser_init r (render_line m pa q v @ render_headers hs @ c # rest) = None"
  using assms by (rule full_rows_fault)

theorem header_overflow_witness:
  "http_parser_feed http_parser_init zero_request
    (render_line ''GET'' ''/'' None ''HTTP/1.1'' @ render_headers (replicate 64 plain_header) @ ''Host: x'') = None"
proof -
  have "num_headers zero_request + length (replicate 64 plain_header) = MAX_HEADERS" by (simp add: zero_request_def)
  from header_overflow [OF plain_line_ok plain_headers_ok this, of "CHR ''H''" "''ost: x''"] show ?thesis by simp
qed

text \<open>A field name of 254 or 255 bytes with an empty value is accepted by the length check on
  the name, and then the separator or the terminating NUL is written past the end of its row.\<close>

theorem long_name_overflow:
  assumes "line_ok m pa q v" "num_headers r < MAX_HEADERS" "token_ok {CR, LF, COLON} name"
    and "length name = 254 \<or> length name = 255"
  shows "http_parser_feed http_parser_init r (render_line m pa q v @ name @ COLON # LF # rest) = None"
proof -
  obtain p1 r1 where h: "feed_loop http_parser_init r (render_line m pa q v @ name @ COLON # LF # rest) = feed_loop p1 r1 (name @ COLON # LF # rest)"
    "p_state p1 = P_HEADER_NAME" "name_len p1 = 0" "num_headers r1 = num_headers r"
    using feed_request_line [OF assms(1), of r "name @ COLON # LF # rest"] by metis
  have "feed_loop p1 r1 (name @ COLON # LF # rest) = None"
    using feed_name_bytes [OF h(2) assms(3), of r1 "COLON # LF # rest"] h assms(2,4)
    by (auto simp: parser_step_def step_header_name_def step_header_value_def end_header_def Let_def
        set_header_def array_set_def)
  with h show ?thesis by (simp add: http_parser_feed_def http_parser_init_def)
qed

theorem long_name_overflow_witness:
  "http_parser_feed http_parser_init zero_request
    (render_line ''GET'' ''/'' None ''HTTP/1.1'' @ replicate 254 (CHR ''N'') @ COLON # LF # []) = None"
proof -
  have "num_headers zero_request < MAX_HEADERS" "token_ok {CR, LF, COLON} (replicate 254 (CHR ''N''))"
    by (simp_all add: zero_request_def token_ok_def NUL_def)
  from long_name_overflow [OF plain_line_ok this, of "[]"] show ?thesis by simp
qed

text \<open>The final status and the \<open>done\<close> flag go together: DONE sets the flag and \<open>parsed\<close>, and a
  parser that is done answers DONE to any further bytes without touching itself or the request;
  with any other status the flag is not set.\<close>

theorem done_is_final:
  assumes "parser_wf p" "\<not> p_done p" "http_parser_feed p r buf = Some (st, p', r')"
  shows "parser_wf p' \<and> (p_done p' \<longleftrightarrow> st = HTTP_PARSE_DONE) \<and>
    (st = HTTP_PARSE_DONE \<longrightarrow> parsed r' \<and> (\<forall>more. http_parser_feed p' r' more = Some (HTTP_PARSE_DONE, p', r')))"
  using feed_loop_status [of p r buf st p' r'] assms by (auto simp: http_parser_feed_def)

theorem done_is_final_witness:
  "\<exists>p' r'. http_parser_feed http_parser_init zero_request (''HEAD / HTTP/1.0'' @ CRLF @ [LF]) = Some (HTTP_PARSE_DONE, p', r')
    \<and> p_done p' \<and> parsed r' \<and> (\<forall>more. http_parser_feed p' r' more = Some (HTTP_PARSE_DONE, p', r'))"
proof -
  have "line_ok ''HEAD'' ''/'' None ''HTTP/1.0''" by (simp add: line_ok_def token_ok_def NUL_def)
  from feed_head [OF this, of "[]" zero_request "[LF]"] obtain p1 r1 where
    h: "feed_loop http_parser_init zero_request (render_line ''HEAD'' ''/'' None ''HTTP/1.0'' @ [LF]) = feed_loop p1 r1 [LF]"
      "p_state p1 = P_HEADER_NAME" "name_len p1 = 0" by (auto simp: zero_request_def render_headers_def)
  then have "http_parser_feed http_parser_init zero_request (''HEAD / HTTP/1.0'' @ CRLF @ [LF]) =
      Some (HTTP_PARSE_DONE, p1\<lparr>p_done := True, p_state := P_DONE\<rparr>, parser_finalize r1)"
    by (simp add: http_parser_feed_def http_parser_init_def parser_step_def [of p1] step_header_name_def finish_def render_line_def)
  moreover have "\<not> p_done http_parser_init" by (simp add: http_parser_init_def)
  ultimately show ?thesis using done_is_final [OF parser_init_wf] by blast
qed

subsection \<open>Order of the states\<close>

text \<open>The enumerators of \<open>enum parser_state\<close> are ordered as the integers they stand for.\<close>

fun state_code :: "parser_state \<Rightarrow> nat" where
  "state_code P_METHOD = 0"
| "state_code P_PATH = 1"
| "state_code P_QUERY = 2"
| "state_code P_VERSION = 3"
| "state_code P_VERSION_CR = 4"
| "state_code P_HEADER_NAME = 5"
| "state_code P_HEADER_NAME_CR = 6"
| "state_code P_HEADER_VALUE = 7"
| "state_code P_HEADER_VALUE_CR = 8"
| "state_code P_DONE = 9"

instantiation parser_state :: linorder
begin

definition less_eq_parser_state :: "parser_state \<Rightarrow> parser_state \<Rightarrow> bool" where
  "less_eq_parser_state s t \<longleftrightarrow> state_code s \<le> state_code t"

definition less_parser_state :: "parser_state \<Rightarrow> parser_state \<Rightarrow> bool" where
  "less_parser_state s t \<longleftrightarrow> state_code s < state_code t"

instance
proof
  fix s t u :: parser_state
  show "s \<le> t \<Longrightarrow> t \<le> s \<Longrightarrow> s = t"
    by (cases s; cases t) (simp_all add: less_eq_parser_state_def)
qed (auto simp: less_eq_parser_state_def less_parser_state_def)

end

lemma pre_header_code: "pre_header p \<longleftrightarrow> p_state p \<le> P_VERSION_CR"
  by (cases "p_state p") (auto simp: pre_header_def less_eq_parser_state_def)

text \<open>A parser never goes back in the request line: while it reads the request line, a byte
  moves it to the same or a later state of the enumeration, and once it has left the request
  line no byte takes it back there.\<close>

theorem request_line_forward:
  assumes "parser_step p r c = Some (HTTP_PARSE_INCOMPLETE, p', r')"
  shows "(p_state p \<le> P_VERSION_CR \<longrightarrow> p_state p \<le> p_state p') \<and>
    (P_VERSION_CR < p_state p \<longrightarrow> P_VERSION_CR < p_state p')"
proof (cases "pre_header p")
  case True
  then have "state_code (p_state p) \<le> state_code (p_state p')"
    using assms unfolding pre_header_def
    by (auto simp: parser_step_def step_method_def step_path_def step_query_def step_version_def
        step_version_cr_def end_version_def set_path_def set_query_def set_version_def array_set_def
        split: if_splits)
  with True show ?thesis
    using pre_header_code [of p] by (auto simp: less_eq_parser_state_def less_parser_state_def)
next
  case False
  then have "\<not> pre_header p'"
  proof (cases "p_state p = P_HEADER_NAME")
    case True
    then show ?thesis using header_name_more(3) [OF True assms] by (auto simp: pre_header_def)
  next
    case not_name: False
    then show ?thesis using other_more [OF not_name assms] False by (simp add: step_summary_def)
  qed
  with False show ?thesis by (auto simp: pre_header_code not_le)
qed

theorem request_line_forward_witness:
  "\<exists>p' r'. parser_step (http_parser_init\<lparr>p_state := P_PATH, path_pos := 1\<rparr>) zero_request SP
      = Some (HTTP_PARSE_INCOMPLETE, p', r') \<and> P_PATH \<le> p_state p'"
proof -
  obtain p' r' where "parser_step (http_parser_init\<lparr>p_state := P_PATH, path_pos := 1\<rparr>) zero_request SP
      = Some (HTTP_PARSE_INCOMPLETE, p', r')"
    by (auto simp: parser_step_def step_path_def set_path_def array_set_def)
  with request_line_forward [OF this] show ?thesis by (simp add: less_eq_parser_state_def)
qed

end
