(* ===== verification/Response.thy ===== *)
theory Response
  imports Http_Parser
begin

text \<open>
  The first half of \<^verbatim>\<open>src/src/reactor.c\<close>: the connection struct and the functions that build a
  response into it. What the operating system answers is an argument: a \<open>world\<close> holds the
  outcomes of the calls still to come (allocations, \<open>open\<close>, \<open>read\<close>, \<open>write\<close>, \<open>sendfile\<close>,
  \<open>accept\<close>), the file system that \<open>stat\<close> sees, the events the epoll instance watches for,
  and the trace of calls made so far. An exhausted script means that an allocation succeeds,
  an \<open>open\<close> fails and a socket call would block. \<open>None\<close> is undefined behaviour.
\<close>

section \<open>Data\<close>

abbreviation HEAD_SIZE :: nat where "HEAD_SIZE \<equiv> 512"
abbreviation FULL_SIZE :: nat where "FULL_SIZE \<equiv> MAX_PATH + 64"

datatype conn_state = ST_READING | ST_WRITING | ST_CLOSED

datatype resp_phase = RSP_HEAD | RSP_SENDFILE | RSP_DONE

record conn =
  fd :: nat
  c_state :: conn_state
  keep_alive :: bool
  inbuf :: carray
  in_head :: nat
  in_tail :: nat
  parser :: http_parser
  req :: http_request
  phase :: resp_phase
  c_head :: "string option"
  head_len :: nat
  head_off :: nat
  file_fd :: int
  file_off :: nat
  file_len :: nat

text \<open>A connection from \<open>calloc\<close>, as \<open>reactor_accept\<close> fills it in: \<open>file_fd\<close> is 0, not -1.\<close>

definition new_conn :: "nat \<Rightarrow> conn" where
  "new_conn n = \<lparr>fd = n, c_state = ST_READING, keep_alive = False, inbuf = zeros, in_head = 0, in_tail = 0,
     parser = http_parser_init, req = zero_request, phase = RSP_HEAD, c_head = None, head_len = 0,
     head_off = 0, file_fd = 0, file_off = 0, file_len = 0\<rparr>"

text \<open>The operating system.\<close>

datatype stat_result = No_Entry | Directory | Regular nat | Special

datatype read_result = RData string | RAgain | RIntr | RError

datatype io_result = Moved nat | Would_Block | Interrupted | Failed

datatype epoll_event = EPOLLIN | EPOLLOUT | EPOLLERR | EPOLLHUP

datatype syscall =
  Epoll_Add nat epoll_event | Epoll_Mod nat epoll_event | Epoll_Del nat
| Close int | Write nat string | Sendfile nat int nat nat | Wakeup nat
| Set_Nonblock nat | Reuse_Addr nat | Reuse_Port nat | Bind nat nat | Listen nat int

record world =
  allocs :: "bool list"
  stats :: "string \<Rightarrow> stat_result"
  opens :: "int list"
  reads :: "read_result list"
  writes :: "io_result list"
  sends :: "io_result list"
  accepts :: "int list"
  armed :: "nat \<Rightarrow> epoll_event option"
  trace :: "syscall list"

definition malloc :: "world \<Rightarrow> bool \<times> world" where
  "malloc w = (case allocs w of [] \<Rightarrow> (True, w) | ok # oks \<Rightarrow> (ok, w\<lparr>allocs := oks\<rparr>))"

definition emit :: "syscall list \<Rightarrow> world \<Rightarrow> world" where
  "emit cs w = w\<lparr>trace := trace w @ cs\<rparr>"

text \<open>\<open>open(path, O_RDONLY)\<close>: the next descriptor of the script, negative when it fails.\<close>

definition open_file :: "world \<Rightarrow> int \<times> world" where
  "open_file w = (case opens w of [] \<Rightarrow> (-1, w) | n # ns \<Rightarrow> (n, w\<lparr>opens := ns\<rparr>))"

section \<open>Response building\<close>

definition status_reason :: "nat \<Rightarrow> string" where
  "status_reason code =
     (if code = 200 then ''200 OK''
      else if code = 400 then ''400 Bad Request''
      else if code = 403 then ''403 Forbidden''
      else if code = 404 then ''404 Not Found''
      else if code = 405 then ''405 Method Not Allowed''
      else if code = 413 then ''413 Payload Too Large''
      else ''500 Internal Server Error'')"

definition reactor_mime_type :: "string \<Rightarrow> string" where
  "reactor_mime_type p =
     (case strrchr p (CHR ''.'') of
        None \<Rightarrow> ''application/octet-stream''
      | Some ext \<Rightarrow>
          if ext = ''.html'' \<or> ext = ''.htm'' then ''text/html''
          else if ext = ''.css'' then ''text/css''
          else if ext = ''.js'' then ''application/javascript''
          else if ext = ''.txt'' then ''text/plain''
          else if ext = ''.png'' then ''image/png''
          else if ext = ''.jpg'' \<or> ext = ''.jpeg'' then ''image/jpeg''
          else if ext = ''.gif'' then ''image/gif''
          else if ext = ''.ico'' then ''image/x-icon''
          else ''application/octet-stream'')"

definition head_text :: "nat \<Rightarrow> string \<Rightarrow> nat \<Rightarrow> bool \<Rightarrow> string" where
  "head_text code ctype content_length ka =
     ''HTTP/1.1 '' @ status_reason code @ CRLF @
     ''Content-Type: '' @ ctype @ CRLF @
     ''Content-Length: '' @ show_nat content_length @ CRLF @
     ''Connection: '' @ (if ka then ''keep-alive'' else ''close'') @ CRLF @
     CRLF"

text \<open>
  \<open>build_head\<close>: \<open>snprintf\<close> returns the length of the whole text even when it cuts it to the
  buffer, and \<open>memcpy\<close> then reads that many bytes: past the buffer when the text does not
  fit. \<open>Some None\<close> is the \<open>NULL\<close> returned when \<open>malloc\<close> fails.
\<close>

definition build_head :: "world \<Rightarrow> nat \<Rightarrow> string \<Rightarrow> nat \<Rightarrow> bool \<Rightarrow> (world \<times> string option) option" where
  "build_head w code ctype content_length ka =
     (let s = head_text code ctype content_length ka; (ok, w) = malloc w in
      if \<not> ok then Some (w, None)
      else if HEAD_SIZE < length s then None
      else if length s = HEAD_SIZE then Some (w, Some (butlast s @ [NUL]))
      else Some (w, Some s))"

definition respond_simple :: "world \<Rightarrow> conn \<Rightarrow> nat \<Rightarrow> string \<Rightarrow> string \<Rightarrow> (world \<times> conn) option" where
  "respond_simple w c code ctype body = do {
     (w, head) \<leftarrow> build_head w code ctype (length body) (keep_alive c);
     (case head of
        None \<Rightarrow> Some (w, c)
      | Some h \<Rightarrow>
          (let (ok, w) = malloc w in
           if \<not> ok then Some (w, c)
           else Some (w, c\<lparr>c_head := Some (h @ body), head_len := length h + length body,
                           head_off := 0, file_fd := -1, phase := RSP_HEAD\<rparr>)))
   }"

definition respond_file :: "world \<Rightarrow> conn \<Rightarrow> string \<Rightarrow> string \<Rightarrow> (world \<times> conn) option" where
  "respond_file w c doc_root p =
     (if str_contains ''..'' p then respond_simple w c 403 ''text/plain'' (''403 Forbidden'' @ [LF])
      else
        (let rel = (if p = ''/'' then ''/index.html'' else p);
             full = take (FULL_SIZE - 1) (doc_root @ rel) in
         (case stats w full of
            No_Entry \<Rightarrow> respond_simple w c 404 ''text/plain'' (''404 Not Found'' @ [LF])
          | Directory \<Rightarrow> respond_simple w c 404 ''text/plain'' (''404 Not Found'' @ [LF])
          | Special \<Rightarrow> respond_simple w c 403 ''text/plain'' (''403 Forbidden'' @ [LF])
          | Regular sz \<Rightarrow>
              (let (ffd, w) = open_file w in
               if ffd < 0 then respond_simple w c 500 ''text/plain'' (''500 Internal Server Error'' @ [LF])
               else do {
                 (w, head) \<leftarrow> build_head w 200 (reactor_mime_type rel) sz (keep_alive c);
                 (case head of
                    None \<Rightarrow>
                      respond_simple (emit [Close ffd] w) c 500 ''text/plain''
                        (''500 Internal Server Error'' @ [LF])
                  | Some h \<Rightarrow>
                      (let c = c\<lparr>c_head := Some h, head_len := length h, head_off := 0, phase := RSP_HEAD\<rparr> in
                       if req_method (req c) = HTTP_HEAD
                       then Some (emit [Close ffd] w, c\<lparr>file_fd := -1\<rparr>)
                       else Some (w, c\<lparr>file_fd := ffd, file_off := 0, file_len := sz\<rparr>)))
               }))))"

definition build_response :: "world \<Rightarrow> string \<Rightarrow> conn \<Rightarrow> (world \<times> conn) option" where
  "build_response w doc_root c =
     (let c = c\<lparr>keep_alive := req_keep_alive (req c)\<rparr> in
      if req_method (req c) = HTTP_GET \<or> req_method (req c) = HTTP_HEAD
      then respond_file w c doc_root (path_str (req c))
      else respond_simple w c 405 ''text/plain'' (''405 Method Not Allowed'' @ [LF]))"

definition build_error_response :: "world \<Rightarrow> conn \<Rightarrow> nat \<Rightarrow> (world \<times> conn) option" where
  "build_error_response w c code =
     (let c = c\<lparr>keep_alive := False\<rparr>;
          msg = take 63 (show_nat code @ '' '' @ status_reason code @ [LF]) in
      respond_simple w c code ''text/plain'' msg)"

section \<open>What the calls leave alone\<close>

lemma malloc_eq: "malloc w = (allocs w = [] \<or> hd (allocs w), w\<lparr>allocs := tl (allocs w)\<rparr>)"
  by (cases "allocs w") (simp_all add: malloc_def)

lemma open_file_eq: "open_file w = (if opens w = [] then -1 else hd (opens w), w\<lparr>opens := tl (opens w)\<rparr>)"
  by (cases "opens w") (simp_all add: open_file_def)

lemma emit_fields [simp, httpd_frame]:
  "allocs (emit cs w) = allocs w" "stats (emit cs w) = stats w" "opens (emit cs w) = opens w"
  "reads (emit cs w) = reads w" "writes (emit cs w) = writes w" "sends (emit cs w) = sends w"
  "accepts (emit cs w) = accepts w" "armed (emit cs w) = armed w" "trace (emit cs w) = trace w @ cs"
  by (simp_all add: emit_def)

section \<open>Heads fit their buffer\<close>

lemma status_reason_length: "length (status_reason code) \<le> 25"
  by (simp add: status_reason_def)

lemma mime_length: "length (reactor_mime_type p) \<le> 24"
  by (simp add: reactor_mime_type_def split: option.splits)

lemma head_text_length:
  assumes "content_length < U64" "length ctype \<le> 300"
  shows "length (head_text code ctype content_length ka) < HEAD_SIZE"
proof -
  have "length (show_nat content_length) \<le> 20" using assms(1) by (intro show_nat_length) simp_all
  then show ?thesis using assms(2) status_reason_length [of code] by (simp add: head_text_def)
qed

lemma build_head_ok:
  assumes "content_length < U64" "length ctype \<le> 300"
  shows "build_head w code ctype content_length ka =
    Some (w\<lparr>allocs := tl (allocs w)\<rparr>,
      if allocs w = [] \<or> hd (allocs w) then Some (head_text code ctype content_length ka) else None)"
  using head_text_length [OF assms, of code ka] by (simp add: build_head_def malloc_eq Let_def)

text \<open>An inline response is all or nothing: without memory the connection is unchanged.\<close>

definition inline :: "conn \<Rightarrow> nat \<Rightarrow> string \<Rightarrow> string \<Rightarrow> conn" where
  "inline c code ctype body =
     c\<lparr>c_head := Some (head_text code ctype (length body) (keep_alive c) @ body),
       head_len := length (head_text code ctype (length body) (keep_alive c)) + length body,
       head_off := 0, file_fd := -1, phase := RSP_HEAD\<rparr>"

lemma respond_simple_cases:
  assumes "length body < U64" "length ctype \<le> 300"
  shows "\<exists>oks. respond_simple w c code ctype body = Some (w\<lparr>allocs := oks\<rparr>, inline c code ctype body) \<or>
    allocs w \<noteq> [] \<and> respond_simple w c code ctype body = Some (w\<lparr>allocs := oks\<rparr>, c)"
  unfolding respond_simple_def build_head_ok [OF assms] by (auto simp: malloc_eq inline_def)

lemma respond_simple_memory:
  assumes "length body < U64" "length ctype \<le> 300" "allocs w = []"
  shows "respond_simple w c code ctype body = Some (w, inline c code ctype body)"
  unfolding respond_simple_def build_head_ok [OF assms(1,2)] using assms(3) by (simp add: malloc_eq inline_def)

text \<open>A file response in memory.\<close>

definition file_reply :: "conn \<Rightarrow> string \<Rightarrow> nat \<Rightarrow> int \<Rightarrow> conn" where
  "file_reply c rel sz ffd =
     (let h = head_text 200 (reactor_mime_type rel) sz (keep_alive c);
          c = c\<lparr>c_head := Some h, head_len := length h, head_off := 0, phase := RSP_HEAD\<rparr> in
      if req_method (req c) = HTTP_HEAD then c\<lparr>file_fd := -1\<rparr>
      else c\<lparr>file_fd := ffd, file_off := 0, file_len := sz\<rparr>)"

definition sizes_ok :: "(string \<Rightarrow> stat_result) \<Rightarrow> bool" where
  "sizes_ok st \<longleftrightarrow> (\<forall>p sz. st p = Regular sz \<longrightarrow> sz < 2 ^ 63)"

lemma sizes_okD: "sizes_ok st \<Longrightarrow> st p = Regular sz \<Longrightarrow> sz < U64"
  by (fastforce simp: sizes_ok_def)

text \<open>
  The rule the server follows, without buffers, descriptors or allocation: which page or which
  file answers a request.
\<close>

datatype reply = Page nat | Send_File string nat | File_Head string nat

definition target :: "string \<Rightarrow> string" where
  "target p = (if p = ''/'' then ''/index.html'' else p)"

definition reply_of :: "(string \<Rightarrow> stat_result) \<Rightarrow> bool \<Rightarrow> string \<Rightarrow> http_method \<Rightarrow> string \<Rightarrow> reply" where
  "reply_of st readable root m p =
     (if m \<noteq> HTTP_GET \<and> m \<noteq> HTTP_HEAD then Page 405
      else if sublist ''..'' p then Page 403
      else case st (root @ target p) of
        Regular sz \<Rightarrow>
          if \<not> readable then Page 500
          else if m = HTTP_HEAD then File_Head (target p) sz else Send_File (target p) sz
      | Special \<Rightarrow> Page 403
      | _ \<Rightarrow> Page 404)"

text \<open>A connection that is ready to send a reply: the bytes of the head, then the file.\<close>

definition page_body :: "nat \<Rightarrow> string" where
  "page_body code = status_reason code @ [LF]"

fun ready :: "conn \<Rightarrow> int \<Rightarrow> reply \<Rightarrow> bool" where
  "ready c ffd (Page code) \<longleftrightarrow> file_fd c = -1 \<and>
     c_head c = Some (head_text code ''text/plain'' (length (page_body code)) (keep_alive c) @ page_body code)"
| "ready c ffd (Send_File p sz) \<longleftrightarrow> file_fd c = ffd \<and> file_off c = 0 \<and> file_len c = sz \<and>
     c_head c = Some (head_text 200 (reactor_mime_type p) sz (keep_alive c))"
| "ready c ffd (File_Head p sz) \<longleftrightarrow> file_fd c = -1 \<and>
     c_head c = Some (head_text 200 (reactor_mime_type p) sz (keep_alive c))"

definition head_ok :: "conn \<Rightarrow> bool" where
  "head_ok c \<longleftrightarrow> head_len c = (case c_head c of None \<Rightarrow> 0 | Some s \<Rightarrow> length s) \<and> head_off c \<le> head_len c"

lemma inline_ready:
  assumes "body = page_body code"
  shows "ready (inline c code ''text/plain'' body) ffd (Page code)"
  using assms by (simp add: inline_def)

lemma page_bodies:
  "''403 Forbidden'' @ [LF] = page_body 403" "''404 Not Found'' @ [LF] = page_body 404"
  "''405 Method Not Allowed'' @ [LF] = page_body 405" "''500 Internal Server Error'' @ [LF] = page_body 500"
  by (simp_all add: page_body_def status_reason_def)

lemma page_body_length: "length (page_body code) < U64"
  using status_reason_length [of code] by (simp add: page_body_def)

lemma simple_page:
  "allocs w = [] \<Longrightarrow> respond_simple w c code ''text/plain'' (page_body code) =
     Some (w, inline c code ''text/plain'' (page_body code))"
  using page_body_length by (simp add: respond_simple_memory)

definition full_path :: "string \<Rightarrow> string \<Rightarrow> string" where
  "full_path root p = take (FULL_SIZE - 1) (root @ target p)"

lemma full_path_fits: "length root + length p + 11 < FULL_SIZE \<Longrightarrow> full_path root p = root @ target p"
  by (auto simp: target_def full_path_def)

text \<open>The two builders over the named pages.\<close>

lemma respond_file_eq:
  "respond_file w c root p =
     (if sublist ''..'' p then respond_simple w c 403 ''text/plain'' (page_body 403)
      else case stats w (full_path root p) of
         No_Entry \<Rightarrow> respond_simple w c 404 ''text/plain'' (page_body 404)
       | Directory \<Rightarrow> respond_simple w c 404 ''text/plain'' (page_body 404)
       | Special \<Rightarrow> respond_simple w c 403 ''text/plain'' (page_body 403)
       | Regular sz \<Rightarrow>
           (let (ffd, w) = open_file w in
            if ffd < 0 then respond_simple w c 500 ''text/plain'' (page_body 500)
            else do {
              (w, head) \<leftarrow> build_head w 200 (reactor_mime_type (target p)) sz (keep_alive c);
              (case head of
                 None \<Rightarrow> respond_simple (emit [Close ffd] w) c 500 ''text/plain'' (page_body 500)
               | Some h \<Rightarrow>
                   (let c = c\<lparr>c_head := Some h, head_len := length h, head_off := 0, phase := RSP_HEAD\<rparr> in
                    if req_method (req c) = HTTP_HEAD
                    then Some (emit [Close ffd] w, c\<lparr>file_fd := -1\<rparr>)
                    else Some (w, c\<lparr>file_fd := ffd, file_off := 0, file_len := sz\<rparr>)))
            }))"
  by (simp only: respond_file_def page_bodies str_contains_sublist full_path_def target_def Let_def)

lemma build_response_eq:
  "build_response w root c =
     (let c = c\<lparr>keep_alive := req_keep_alive (req c)\<rparr> in
      if req_method (req c) = HTTP_GET \<or> req_method (req c) = HTTP_HEAD
      then respond_file w c root (path_str (req c))
      else respond_simple w c 405 ''text/plain'' (page_body 405))"
  by (simp only: build_response_def page_bodies)

text \<open>What is left of the outcomes of \<open>open\<close> after a request.\<close>

definition opens_after :: "(string \<Rightarrow> stat_result) \<Rightarrow> string \<Rightarrow> http_method \<Rightarrow> string \<Rightarrow> int list \<Rightarrow> int list" where
  "opens_after st root m p fds =
     (if (m = HTTP_GET \<or> m = HTTP_HEAD) \<and> \<not> sublist ''..'' p
      then (case st (root @ target p) of Regular _ \<Rightarrow> tl fds | _ \<Rightarrow> fds) else fds)"

lemma respond_file_memory:
  assumes mem: "allocs w = []" and st: "sizes_ok (stats w)" and short: "length root + length p + 11 < FULL_SIZE"
    and m: "req_method (req c) = HTTP_GET \<or> req_method (req c) = HTTP_HEAD"
  defines "r \<equiv> reply_of (stats w) (opens w \<noteq> [] \<and> 0 \<le> hd (opens w)) root (req_method (req c)) p"
  shows "\<exists>w' c'. respond_file w c root p = Some (w', c') \<and> ready c' (hd (opens w)) r \<and> head_ok c' \<and>
    head_off c' = 0 \<and> phase c' = RSP_HEAD \<and> keep_alive c' = keep_alive c \<and> allocs w' = [] \<and>
    opens w' = opens_after (stats w) root (req_method (req c)) p (opens w) \<and>
    trace w' = trace w @ (case r of File_Head _ _ \<Rightarrow> [Close (hd (opens w))] | _ \<Rightarrow> [])"
proof (cases "stats w (root @ target p)")
  case (Regular sz)
  have "length (reactor_mime_type (target p)) \<le> 300" using mime_length [of "target p"] by simp
  note bh = build_head_ok [OF sizes_okD [OF st Regular] this]
  show ?thesis
    using mem m Regular
    by (auto simp: respond_file_eq full_path_fits [OF short] open_file_eq bh simple_page r_def reply_of_def
        inline_def head_ok_def opens_after_def Let_def)
qed (use mem m in \<open>auto simp: respond_file_eq full_path_fits [OF short] simple_page r_def reply_of_def
      inline_def head_ok_def opens_after_def\<close>)

section \<open>Effect of the builders under any allocation outcome\<close>

definition same_scripts :: "world \<Rightarrow> world \<Rightarrow> bool" where
  "same_scripts w w' \<longleftrightarrow> stats w' = stats w \<and> reads w' = reads w \<and> writes w' = writes w \<and> sends w' = sends w \<and>
     accepts w' = accepts w \<and> armed w' = armed w \<and> prefix (trace w) (trace w')"

definition same_input :: "conn \<Rightarrow> conn \<Rightarrow> bool" where
  "same_input c c' \<longleftrightarrow> fd c' = fd c \<and> c_state c' = c_state c \<and> inbuf c' = inbuf c \<and> in_head c' = in_head c \<and>
     in_tail c' = in_tail c \<and> parser c' = parser c \<and> req c' = req c"

text \<open>The status lines the server can produce.\<close>

definition served_codes :: "nat list" where
  "served_codes = [200, 400, 403, 404, 405, 500]"

definition served :: "string \<Rightarrow> bool" where
  "served h \<longleftrightarrow> (\<exists>code \<in> set served_codes. prefix (''HTTP/1.1 '' @ status_reason code @ CRLF) h)"

lemma head_text_served: "code \<in> set served_codes \<Longrightarrow> served (head_text code ctype n ka @ body)"
  unfolding served_def head_text_def by (intro bexI [of _ code]) simp_all

text \<open>Either the whole response is in place or, without memory, the output side is untouched.\<close>

definition response_set :: "conn \<Rightarrow> conn \<Rightarrow> bool" where
  "response_set c c' \<longleftrightarrow>
     (c_head c' = c_head c \<and> head_len c' = head_len c \<and> head_off c' = head_off c \<and> phase c' = phase c \<and>
        file_fd c' = file_fd c \<and> file_off c' = file_off c \<and> file_len c' = file_len c) \<or>
     ((\<exists>h. c_head c' = Some h \<and> served h) \<and> head_ok c' \<and> head_off c' = 0 \<and> phase c' = RSP_HEAD \<and>
        (0 \<le> file_fd c' \<longrightarrow> file_off c' = 0))"

definition built :: "world \<Rightarrow> conn \<Rightarrow> (world \<times> conn) option \<Rightarrow> bool" where
  "built w c res \<longleftrightarrow> (case res of None \<Rightarrow> False
     | Some (w', c') \<Rightarrow> same_scripts w w' \<and> same_input c c' \<and> response_set c c')"

lemma inline_built:
  "same_input c (inline c code ctype body)"
  "code \<in> set served_codes \<Longrightarrow> response_set c (inline c code ctype body)"
  "keep_alive (inline c code ctype body) = keep_alive c"
  by (simp_all add: inline_def same_input_def response_set_def head_ok_def head_text_served)

lemma response_set_refl: "response_set c c" "same_input c c"
  by (simp_all add: response_set_def same_input_def)

lemma same_scripts_trans: "same_scripts w w1 \<Longrightarrow> same_scripts w1 w2 \<Longrightarrow> same_scripts w w2"
  by (auto simp: same_scripts_def intro: prefix_order.trans)

lemma same_scripts_upd [simp]:
  "same_scripts w (w\<lparr>allocs := oks\<rparr>)" "same_scripts w (w\<lparr>opens := fds\<rparr>)" "same_scripts w (emit cs w)" "same_scripts w w"
  by (simp_all add: same_scripts_def emit_def)

lemma respond_simple_built_any:
  assumes "length body < U64" "code \<in> set served_codes"
  shows "built w c (respond_simple w c code ''text/plain'' body)"
proof -
  have "length ''text/plain'' \<le> 300" by simp
  from respond_simple_cases [OF assms(1) this, of w c code] show ?thesis
    by (auto simp: built_def inline_built response_set_refl assms(2))
qed

lemma respond_simple_built:
  "code \<in> set served_codes \<Longrightarrow> built w c (respond_simple w c code ''text/plain'' (page_body pc))"
  by (rule respond_simple_built_any [OF page_body_length])

lemma built_world: "same_scripts w w1 \<Longrightarrow> built w1 c res \<Longrightarrow> built w c res"
  by (auto simp: built_def split: option.splits prod.splits intro: same_scripts_trans)

lemma respond_file_built:
  assumes "sizes_ok (stats w)"
  shows "built w c (respond_file w c root p)"
proof (cases "stats w (full_path root p)")
  case (Regular sz)
  have "length (reactor_mime_type (target p)) \<le> 300" using mime_length [of "target p"] by simp
  note bh = build_head_ok [OF sizes_okD [OF assms Regular] this]
  let ?w1 = "w\<lparr>opens := tl (opens w)\<rparr>"
  have "built w c (respond_simple ?w1 c 500 ''text/plain'' (page_body 500))"
    "built w c (respond_simple (emit [Close n] (?w1\<lparr>allocs := oks\<rparr>)) c 500 ''text/plain'' (page_body 500))" for n oks
    by (rule built_world [OF _ respond_simple_built], simp_all add: same_scripts_def emit_def served_codes_def)+
  moreover have "served (head_text 200 ct n ka)" for ct n ka
    using head_text_served [of 200 ct n ka "[]"] by (simp add: served_codes_def)
  ultimately show ?thesis
    using Regular respond_simple_built [of 403 w c 403]
    by (auto simp: respond_file_eq open_file_eq bh Let_def served_codes_def)
      (auto simp: built_def same_scripts_def same_input_def response_set_def head_ok_def emit_def)
qed (auto simp: respond_file_eq respond_simple_built served_codes_def)

lemma built_keep_alive: "built w (c\<lparr>keep_alive := ka\<rparr>) res \<Longrightarrow> built w c res"
  by (auto simp: built_def same_input_def response_set_def split: option.splits prod.splits)

lemma build_response_built: "sizes_ok (stats w) \<Longrightarrow> built w c (build_response w root c)"
  using respond_file_built [of w "c\<lparr>keep_alive := req_keep_alive (req c)\<rparr>" root "path_str (req c)"]
    respond_simple_built [of 405 w "c\<lparr>keep_alive := req_keep_alive (req c)\<rparr>" 405]
  by (auto simp: build_response_eq Let_def served_codes_def intro: built_keep_alive)

lemma build_error_built: "code \<in> set served_codes \<Longrightarrow> built w c (build_error_response w c code)"
  unfolding build_error_response_def Let_def
  by (rule built_keep_alive [OF respond_simple_built_any]) simp_all

text \<open>Whenever a builder returns, the input side and the scripts are as before.\<close>

lemma respond_simple_same:
  "respond_simple w c code ctype body = Some (w', c') \<Longrightarrow> same_scripts w w' \<and> same_input c c'"
  by (auto simp: respond_simple_def build_head_def malloc_eq Let_def same_scripts_def same_input_def bind_eq_Some_conv
      split: if_splits option.splits)

lemma respond_file_same:
  assumes "respond_file w c root p = Some (w', c')"
  shows "same_scripts w w' \<and> same_input c c'"
proof (cases "sublist ''..'' p")
  case True
  with assms show ?thesis by (auto simp: respond_file_eq dest: respond_simple_same)
next
  case False
  show ?thesis
  proof (cases "stats w (full_path root p)")
    case (Regular sz)
    let ?w1 = "w\<lparr>opens := tl (opens w)\<rparr>"
    have s: "same_scripts w (emit cs (?w1\<lparr>allocs := oks\<rparr>))" "same_scripts w (?w1\<lparr>allocs := oks\<rparr>)" "same_scripts w ?w1" for cs oks
      by (simp_all add: same_scripts_def)
    have "same_scripts w w' \<and> same_input c c'" if "respond_simple w2 c 500 ''text/plain'' (page_body 500) = Some (w', c')" "same_scripts w w2" for w2
      using respond_simple_same [OF that(1)] same_scripts_trans [OF that(2)] by blast
    with False assms Regular s show ?thesis
      by (auto simp: respond_file_eq open_file_eq build_head_def malloc_eq Let_def bind_eq_Some_conv same_input_def
          split: if_splits option.splits)
  qed (use False assms in \<open>auto simp: respond_file_eq dest: respond_simple_same\<close>)
qed

lemma build_response_same:
  "build_response w root c = Some (w', c') \<Longrightarrow> same_scripts w w' \<and> same_input c c'"
  by (auto simp: build_response_eq Let_def same_input_def split: if_splits dest!: respond_file_same respond_simple_same)

lemma build_error_same:
  "build_error_response w c code = Some (w', c') \<Longrightarrow> same_scripts w w' \<and> same_input c c'"
  by (auto simp: build_error_response_def Let_def same_input_def dest!: respond_simple_same)

lemma build_response_memory:
  assumes "allocs w = []" "sizes_ok (stats w)" "length root + length (path_str (req c)) + 11 < FULL_SIZE"
  defines "r \<equiv> reply_of (stats w) (opens w \<noteq> [] \<and> 0 \<le> hd (opens w)) root (req_method (req c)) (path_str (req c))"
  shows "\<exists>w' c'. build_response w root c = Some (w', c') \<and> ready c' (hd (opens w)) r \<and> head_ok c' \<and>
    head_off c' = 0 \<and> phase c' = RSP_HEAD \<and> keep_alive c' = req_keep_alive (req c) \<and> allocs w' = [] \<and>
    opens w' = opens_after (stats w) root (req_method (req c)) (path_str (req c)) (opens w) \<and>
    trace w' = trace w @ (case r of File_Head _ _ \<Rightarrow> [Close (hd (opens w))] | _ \<Rightarrow> [])"
proof -
  let ?c = "c\<lparr>keep_alive := req_keep_alive (req c)\<rparr>"
  show ?thesis
  proof (cases "req_method (req c) = HTTP_GET \<or> req_method (req c) = HTTP_HEAD")
    case True
    with respond_file_memory [OF assms(1,2,3), of ?c] show ?thesis
      by (auto simp: build_response_eq Let_def r_def)
  next
    case False
    then show ?thesis
      using assms(1) by (auto simp: build_response_eq Let_def r_def reply_of_def simple_page inline_def head_ok_def opens_after_def)
  qed
qed

section \<open>Properties\<close>

text \<open>C9. With memory available, a parsed request is answered by the rule: anything but \<open>GET\<close> and
  \<open>HEAD\<close> by a 405 page, a path with two consecutive dots by 403, a missing file or a directory by
  404, a special file by 403, a file that cannot be opened by 500, and a regular file by its head
  with the exact type and length, followed by the file for \<open>GET\<close> only; \<open>HEAD\<close> closes the file
  again. The connection is ready to send from the first byte.\<close>

theorem build_response_spec:
  assumes "allocs w = []" "sizes_ok (stats w)" "length root + length (path_str (req c)) + 11 < FULL_SIZE"
  defines "r \<equiv> reply_of (stats w) (opens w \<noteq> [] \<and> 0 \<le> hd (opens w)) root (req_method (req c)) (path_str (req c))"
  shows "\<exists>w' c'. build_response w root c = Some (w', c') \<and> ready c' (hd (opens w)) r \<and> head_ok c' \<and>
    head_off c' = 0 \<and> phase c' = RSP_HEAD \<and> keep_alive c' = req_keep_alive (req c) \<and>
    trace w' = trace w @ (case r of File_Head _ _ \<Rightarrow> [Close (hd (opens w))] | _ \<Rightarrow> [])"
  using build_response_memory [OF assms(1-3)] unfolding r_def by blast

definition get_request :: "string \<Rightarrow> http_request" where
  "get_request p = zero_request\<lparr>path := (\<lambda>i. if i < length p then p ! i else NUL)\<rparr>"

definition one_file :: "string \<Rightarrow> nat \<Rightarrow> world" where
  "one_file p sz = \<lparr>allocs = [], stats = (\<lambda>q. if q = p then Regular sz else No_Entry), opens = [9], reads = [],
     writes = [], sends = [], accepts = [], armed = (\<lambda>_. None), trace = []\<rparr>"

lemma get_request_path:
  assumes "NUL \<notin> set p" "length p < MAX_PATH"
  shows "path_str (get_request p) = p"
proof -
  let ?a = "\<lambda>i. if i < length p then p ! i else NUL"
  have "map ?a [0..<length p] = p" by (rule nth_equalityI) simp_all
  from array_str_terminated [OF this _ assms(2)] assms(1) show ?thesis
    by (simp add: path_str_def get_request_def)
qed

theorem build_response_spec_witness:
  "\<exists>w' c'. build_response (one_file ''www/a.css'' 70) ''www'' ((new_conn 5)\<lparr>req := get_request ''/a.css''\<rparr>) = Some (w', c') \<and>
     ready c' 9 (Send_File ''/a.css'' 70)"
proof -
  have p: "path_str (get_request ''/a.css'') = ''/a.css''" by (rule get_request_path) (simp_all add: NUL_def)
  have "sizes_ok (stats (one_file ''www/a.css'' 70))" by (simp add: sizes_ok_def one_file_def)
  moreover have "\<not> sublist ''..'' ''/a.css''" unfolding str_contains_sublist [symmetric] by simp
  moreover have "req_method (get_request q) = HTTP_GET" for q by (simp add: get_request_def zero_request_def)
  ultimately show ?thesis
    using build_response_spec [of "one_file ''www/a.css'' 70" "''www''" "(new_conn 5)\<lparr>req := get_request ''/a.css''\<rparr>"] p
    by (auto simp: reply_of_def one_file_def target_def)
qed

text \<open>Whatever allocations do, building a response never runs past the 512-byte head buffer: for
  every status, every content type the server uses and every length below \<open>2 ^ 64\<close> the head is
  the complete text, shorter than the buffer, unless \<open>malloc\<close> fails.\<close>

theorem build_head_complete:
  assumes "content_length < U64" "ctype = ''text/plain'' \<or> ctype = reactor_mime_type p"
  shows "\<exists>w'. build_head w code ctype content_length ka = Some (w', None) \<or>
    build_head w code ctype content_length ka = Some (w', Some (head_text code ctype content_length ka)) \<and>
    length (head_text code ctype content_length ka) < HEAD_SIZE"
proof -
  have "length ctype \<le> 300" using assms(2) mime_length [of p] by auto
  with build_head_ok [OF assms(1) this] head_text_length [OF assms(1) this] show ?thesis by auto
qed

theorem build_head_complete_witness:
  "\<exists>w'. build_head (one_file ''x'' 0) 200 ''text/plain'' 18446744073709551615 True = Some (w', None) \<or>
    build_head (one_file ''x'' 0) 200 ''text/plain'' 18446744073709551615 True =
      Some (w', Some (head_text 200 ''text/plain'' 18446744073709551615 True)) \<and>
    length (head_text 200 ''text/plain'' 18446744073709551615 True) < HEAD_SIZE"
  by (rule build_head_complete) simp_all



text \<open>The request path is glued to the document root without a separator: a \<open>GET\<close> whose path
  does not start with a slash is answered with a file beside the root directory, such as
  \<^verbatim>\<open>www-private/key\<close> for the root \<^verbatim>\<open>www\<close> and the path \<^verbatim>\<open>-private/key\<close>.\<close>

theorem sibling_served:
  assumes "p \<noteq> []" "hd p \<noteq> CHR ''/''" "NUL \<notin> set p" "length p < MAX_PATH" "\<not> sublist ''..'' p"
    and "length root + length p + 11 < FULL_SIZE" "sz < 2 ^ 63"
  shows "\<exists>w' c'. build_response (one_file (root @ p) sz) root ((new_conn n)\<lparr>req := get_request p\<rparr>) = Some (w', c') \<and>
    file_fd c' = 9 \<and> file_len c' = sz"
proof -
  let ?w = "one_file (root @ p) sz" and ?c = "(new_conn n)\<lparr>req := get_request p\<rparr>"
  have q: "path_str (req ?c) = p" using get_request_path [OF assms(3,4)] by simp
  have "target p = p" using assms(2) by (auto simp: target_def)
  moreover have "sizes_ok (stats ?w)" using assms(7) by (simp add: sizes_ok_def one_file_def)
  moreover have "req_method (req ?c) = HTTP_GET" by (simp add: get_request_def zero_request_def)
  ultimately have "\<exists>w' c'. respond_file ?w (?c\<lparr>keep_alive := req_keep_alive (req ?c)\<rparr>) root p = Some (w', c') \<and>
      file_fd c' = 9 \<and> file_len c' = sz"
    using respond_file_memory [of ?w root p "?c\<lparr>keep_alive := req_keep_alive (req ?c)\<rparr>"] assms(5,6)
    by (auto simp: reply_of_def one_file_def)
  with \<open>req_method (req ?c) = HTTP_GET\<close> q show ?thesis unfolding build_response_eq Let_def by simp
qed

theorem sibling_served_witness:
  "\<exists>w' c'. build_response (one_file ''www-private/key'' 32) ''www'' ((new_conn 5)\<lparr>req := get_request ''-private/key''\<rparr>) = Some (w', c') \<and>
    file_fd c' = 9 \<and> file_len c' = 32"
proof -
  have "\<not> sublist ''..'' ''-private/key''" unfolding str_contains_sublist [symmetric] by simp
  then show ?thesis using sibling_served [of "''-private/key''" "''www''" 32 5] by (simp add: NUL_def)
qed

text \<open>The page for a malformed request, and the response built with it.\<close>

definition bad_request :: string where
  "bad_request = ''400 400 Bad Request'' @ [LF]"

lemma bad_request_length: "length bad_request = 20"
  by (simp add: bad_request_def)

lemma build_error_page:
  assumes "allocs w = []"
  shows "build_error_response w c 400 = Some (w, inline (c\<lparr>keep_alive := False\<rparr>) 400 ''text/plain'' bad_request)"
proof -
  have s: "show_nat 400 = ''400''" by code_simp
  have msg: "take 63 (show_nat 400 @ '' '' @ status_reason 400 @ [LF]) = bad_request"
    unfolding s by (simp add: status_reason_def bad_request_def)
  show ?thesis
    unfolding build_error_response_def Let_def msg using assms bad_request_length by (intro respond_simple_memory) simp_all
qed

text \<open>The page for a malformed request names its status twice: the body is the code, a space and
  the reason phrase, which already starts with the code. The connection is closed afterwards.\<close>

theorem error_page_doubled:
  assumes "allocs w = []"
  shows "\<exists>c'. build_error_response w c 400 = Some (w, c') \<and> keep_alive c' = False \<and> file_fd c' = -1 \<and>
    c_head c' = Some (head_text 400 ''text/plain'' 20 False @ ''400 400 Bad Request'' @ [LF])"
  unfolding bad_request_def [symmetric] using build_error_page [OF assms, of c] by (simp add: inline_def bad_request_length)

theorem error_page_doubled_witness:
  "\<exists>c'. build_error_response (one_file ''x'' 0) (new_conn 5) 400 = Some (one_file ''x'' 0, c') \<and> \<not> keep_alive c'"
  using error_page_doubled [of "one_file ''x'' 0" "new_conn 5"] by (auto simp: one_file_def)

end
