(* ===== verification/Reactor.thy ===== *)
theory Reactor
  imports Response
begin

text \<open>
  The second half of \<^verbatim>\<open>src/src/reactor.c\<close>: the event loop. Connections are read and parsed byte by
  byte, responses are flushed as far as the socket takes them, persistent connections carry
  pipelined bytes over, and the loop dispatches the events of each \<open>epoll_wait\<close>. The socket
  calls take their outcomes from the scripts of the world, the loop takes the results of
  \<open>epoll_wait\<close> as a list; \<open>conns\<close> is the table of connections by descriptor.
\<close>

section \<open>Data\<close>

abbreviation CONN_MAX :: int where "CONN_MAX \<equiv> 65536"
abbreviation MAX_EVENTS :: int where "MAX_EVENTS \<equiv> 1024"
abbreviation BACKLOG :: int where "BACKLOG \<equiv> 1024"
abbreviation SENDFILE_MAX :: nat where "SENDFILE_MAX \<equiv> 0x7ffff000"

record reactor_config =
  rc_port :: int
  rc_doc_root :: "string option"
  rc_max_events :: int
  rc_backlog :: int
  rc_reuse_port :: bool

record reactor =
  epfd :: int
  listen_fd :: nat
  wakeup_fd :: nat
  r_port :: int
  doc_root :: string
  max_events :: int
  active_conns :: int
  conns :: "nat \<rightharpoonup> conn"
  stop :: bool

section \<open>Events and closing\<close>

definition mod_events :: "world \<Rightarrow> conn \<Rightarrow> epoll_event \<Rightarrow> world" where
  "mod_events w c ev = emit [Epoll_Mod (fd c) ev] (w\<lparr>armed := (armed w)(fd c \<mapsto> ev)\<rparr>)"

definition conn_close :: "world \<Rightarrow> reactor \<Rightarrow> conn \<Rightarrow> world \<times> reactor" where
  "conn_close w r c =
     (emit ([Epoll_Del (fd c), Close (int (fd c))] @ (if 0 \<le> file_fd c then [Close (file_fd c)] else []))
        (w\<lparr>armed := (armed w)(fd c := None)\<rparr>),
      r\<lparr>conns := (conns r)(fd c := None), active_conns := active_conns r - 1\<rparr>)"

definition store :: "reactor \<Rightarrow> conn \<Rightarrow> reactor" where
  "store r c = r\<lparr>conns := (conns r)(fd c \<mapsto> c)\<rparr>"

section \<open>Input\<close>

function conn_process_input :: "world \<Rightarrow> string \<Rightarrow> conn \<Rightarrow> (world \<times> conn) option" where
  "conn_process_input w root c =
     (if in_head c < in_tail c \<and> c_state c = ST_READING then
        (case http_parser_feed (parser c) (req c) [inbuf c (in_head c)] of
           None \<Rightarrow> None
         | Some (st, p, q) \<Rightarrow>
             (let c1 = c\<lparr>parser := p, req := q, in_head := in_head c + 1\<rparr> in
              if st = HTTP_PARSE_DONE then do {
                (w, c) \<leftarrow> build_response w root c1;
                Some (w, c\<lparr>c_state := ST_WRITING\<rparr>)
              }
              else if st = HTTP_PARSE_ERROR then do {
                (w, c) \<leftarrow> build_error_response w c1 400;
                Some (w, c\<lparr>c_state := ST_WRITING\<rparr>)
              }
              else conn_process_input w root c1))
      else Some (w, c))"
  by pat_completeness auto
termination by (relation "measure (\<lambda>(w, root, c). in_tail c - in_head c)") auto

declare conn_process_input.simps [simp del]

lemma process_input_same:
  assumes "conn_process_input w root c = Some (w', c')"
  shows "same_scripts w w' \<and> fd c' = fd c \<and> inbuf c' = inbuf c \<and> in_tail c' = in_tail c \<and> in_head c \<le> in_head c' \<and>
    (in_head c \<le> in_tail c \<longrightarrow> in_head c' \<le> in_tail c) \<and>
    (c_state c' = c_state c \<and> (c_state c = ST_READING \<longrightarrow> in_tail c \<le> in_head c') \<or>
     c_state c = ST_READING \<and> c_state c' = ST_WRITING \<and> in_head c < in_head c' \<and> in_head c' \<le> in_tail c)"
  using assms
proof (induction w root c rule: conn_process_input.induct)
  case (1 w root c)
  show ?case
  proof (cases "in_head c < in_tail c \<and> c_state c = ST_READING")
    case False
    with "1.prems" show ?thesis by (subst (asm) conn_process_input.simps) (auto simp: same_scripts_def)
  next
    case True
    with "1.prems" obtain st p q where f: "http_parser_feed (parser c) (req c) [inbuf c (in_head c)] = Some (st, p, q)"
      by (subst (asm) conn_process_input.simps) (auto split: option.splits)
    let ?c1 = "c\<lparr>parser := p, req := q, in_head := in_head c + 1\<rparr>"
    consider (d) "st = HTTP_PARSE_DONE" | (e) "st = HTTP_PARSE_ERROR" | (i) "st = HTTP_PARSE_INCOMPLETE" by (cases st) auto
    then show ?thesis
    proof cases
      case d
      with "1.prems" True f obtain c2 where "build_response w root ?c1 = Some (w', c2)" "c' = c2\<lparr>c_state := ST_WRITING\<rparr>"
        by (subst (asm) conn_process_input.simps) (auto simp: Let_def bind_eq_Some_conv)
      with True build_response_same show ?thesis by (fastforce simp: same_input_def)
    next
      case e
      with "1.prems" True f obtain c2 where "build_error_response w ?c1 400 = Some (w', c2)" "c' = c2\<lparr>c_state := ST_WRITING\<rparr>"
        by (subst (asm) conn_process_input.simps) (auto simp: Let_def bind_eq_Some_conv)
      with True build_error_same show ?thesis by (fastforce simp: same_input_def)
    next
      case i
      with "1.prems" True f have "conn_process_input w root ?c1 = Some (w', c')"
        by (subst (asm) conn_process_input.simps) (simp add: Let_def)
      from "1.IH" [OF True f refl refl refl _ _ this] i True show ?thesis by auto
    qed
  qed
qed

text \<open>
  \<open>read(fd, inbuf + in_tail, BUFFER_SIZE - in_tail)\<close>: the bytes that fit are taken, the rest of
  a longer arrival stays in the socket. An arrival of no bytes is the end of the stream.
\<close>

definition fill :: "conn \<Rightarrow> string \<Rightarrow> conn" where
  "fill c bs = c\<lparr>inbuf := (\<lambda>i. if in_tail c \<le> i \<and> i < in_tail c + length bs then bs ! (i - in_tail c) else inbuf c i),
     in_tail := in_tail c + length bs\<rparr>"

fun script_size :: "read_result list \<Rightarrow> nat" where
  "script_size [] = 0"
| "script_size (RData bs # rs) = Suc (length bs) + script_size rs"
| "script_size (_ # rs) = Suc (script_size rs)"

definition compact :: "conn \<Rightarrow> conn" where
  "compact c = (if in_head c = in_tail c then c\<lparr>in_head := 0, in_tail := 0\<rparr> else c)"

function conn_read :: "world \<Rightarrow> reactor \<Rightarrow> conn \<Rightarrow> (world \<times> reactor) option" where
  "conn_read w r c0 =
     (let c = compact c0 in
      if in_tail c = BUFFER_SIZE then do {
        (w, c) \<leftarrow> build_error_response w c 413;
        Some (w, store r (c\<lparr>c_state := ST_WRITING\<rparr>))
      }
      else if BUFFER_SIZE < in_tail c then None
      else
        (case reads w of
           [] \<Rightarrow> Some (w, store r c)
         | RAgain # rs \<Rightarrow> Some (w\<lparr>reads := rs\<rparr>, store r c)
         | RIntr # rs \<Rightarrow> conn_read (w\<lparr>reads := rs\<rparr>) r c
         | RError # rs \<Rightarrow> Some (conn_close (w\<lparr>reads := rs\<rparr>) r c)
         | RData bs # rs \<Rightarrow>
             if bs = [] then Some (conn_close (w\<lparr>reads := rs\<rparr>) r c)
             else
               (let n = min (length bs) (BUFFER_SIZE - in_tail c);
                    rest = (if n < length bs then RData (drop n bs) # rs else rs) in
                (case conn_process_input (w\<lparr>reads := rest\<rparr>) (doc_root r) (fill c (take n bs)) of
                   None \<Rightarrow> None
                 | Some (w1, c1) \<Rightarrow>
                     if c_state c1 = ST_WRITING then Some (w1, store r c1) else conn_read w1 r c1))))"
  by pat_completeness auto
termination
proof (relation "measure (\<lambda>(w, r, c). script_size (reads w))", goal_cases)
  case 1
  then show ?case by simp
next
  case (2 w r c0 c e rs bs n rest q w1 c1)
  then have "conn_process_input (w\<lparr>reads := rest\<rparr>) (doc_root r) (fill c (take n bs)) = Some (w1, c1)" by simp
  from process_input_same [OF this] have rest: "reads w1 = rest" by (simp add: same_scripts_def)
  from 2 have "0 < n" by simp
  with 2 rest show ?case by auto
next
  case 3
  then show ?case by simp
qed

declare conn_read.simps [simp del]

section \<open>Output\<close>

datatype io_end = Flushed | Blocked | Broken

text \<open>
  The loop over \<open>write\<close>: it gives how it ended, the new offset, the calls made and the rest of
  the script. A result of 0 falls into the error branch.
\<close>

fun head_loop :: "nat \<Rightarrow> string \<Rightarrow> nat \<Rightarrow> nat \<Rightarrow> io_result list \<Rightarrow> io_end \<times> nat \<times> syscall list \<times> io_result list" where
  "head_loop sock h off len [] = (if off < len then (Blocked, off, [], []) else (Flushed, off, [], []))"
| "head_loop sock h off len (x # ws) =
     (if off < len then
        (case x of
           Moved m \<Rightarrow>
             (let n = min m (len - off) in
              if 0 < n then
                (let (e, off', cs, ws') = head_loop sock h (off + n) len ws in
                 (e, off', Write sock (take n (drop off h)) # cs, ws'))
              else (Broken, off, [], ws))
         | Would_Block \<Rightarrow> (Blocked, off, [], ws)
         | Interrupted \<Rightarrow> head_loop sock h off len ws
         | Failed \<Rightarrow> (Broken, off, [], ws))
      else (Flushed, off, [], x # ws))"

text \<open>The loop over \<open>sendfile\<close>, which takes a result of 0 for progress and tries again.\<close>

fun send_loop :: "nat \<Rightarrow> int \<Rightarrow> nat \<Rightarrow> nat \<Rightarrow> io_result list \<Rightarrow> io_end \<times> nat \<times> syscall list \<times> io_result list" where
  "send_loop sock ffd off len [] = (if off < len then (Blocked, off, [], []) else (Flushed, off, [], []))"
| "send_loop sock ffd off len (x # ss) =
     (if off < len then
        (case x of
           Moved m \<Rightarrow>
             (let n = min m (min (len - off) SENDFILE_MAX);
                  (e, off', cs, ss') = send_loop sock ffd (off + n) len ss in
              (e, off', Sendfile sock ffd off n # cs, ss'))
         | Would_Block \<Rightarrow> (Blocked, off, [], ss)
         | Interrupted \<Rightarrow> send_loop sock ffd off len ss
         | Failed \<Rightarrow> (Broken, off, [], ss))
      else (Flushed, off, [], x # ss))"

definition head_bytes :: "conn \<Rightarrow> string" where
  "head_bytes c = (case c_head c of Some h \<Rightarrow> h | None \<Rightarrow> [])"

text \<open>Phase 1 of \<open>conn_write\<close>.\<close>

definition write_head :: "world \<Rightarrow> conn \<Rightarrow> io_end \<times> world \<times> conn" where
  "write_head w c =
     (if phase c = RSP_HEAD then
        (let (e, off, cs, ws) = head_loop (fd c) (head_bytes c) (head_off c) (head_len c) (writes w);
             w = emit cs (w\<lparr>writes := ws\<rparr>) in
         if e = Flushed then
           (Flushed, w, c\<lparr>c_head := None, head_off := 0, head_len := 0,
              phase := (if 0 \<le> file_fd c then RSP_SENDFILE else RSP_DONE)\<rparr>)
         else (e, w, c\<lparr>head_off := off\<rparr>))
      else (Flushed, w, c))"

text \<open>Phase 2.\<close>

definition write_file :: "world \<Rightarrow> conn \<Rightarrow> io_end \<times> world \<times> conn" where
  "write_file w c =
     (if phase c = RSP_SENDFILE then
        (let (e, off, cs, ss) = send_loop (fd c) (file_fd c) (file_off c) (file_len c) (sends w);
             w = emit cs (w\<lparr>sends := ss\<rparr>); c = c\<lparr>file_off := off\<rparr> in
         if e = Flushed then (Flushed, emit [Close (file_fd c)] w, c\<lparr>file_fd := -1, phase := RSP_DONE\<rparr>)
         else if e = Broken then (Broken, emit [Close (file_fd c)] w, c\<lparr>file_fd := -1\<rparr>)
         else (Blocked, w, c))
      else (Flushed, w, c))"

lemma write_head_same:
  "write_head w c = (e, w', c') \<Longrightarrow> fd c' = fd c \<and> in_head c' = in_head c \<and> in_tail c' = in_tail c \<and> inbuf c' = inbuf c \<and>
     c_state c' = c_state c \<and> parser c' = parser c \<and> req c' = req c \<and> keep_alive c' = keep_alive c"
  by (auto simp: write_head_def Let_def split: if_splits prod.splits)

lemma write_file_same:
  "write_file w c = (e, w', c') \<Longrightarrow> fd c' = fd c \<and> in_head c' = in_head c \<and> in_tail c' = in_tail c \<and> inbuf c' = inbuf c \<and>
     c_state c' = c_state c \<and> parser c' = parser c \<and> req c' = req c \<and> keep_alive c' = keep_alive c"
  by (auto simp: write_file_def Let_def split: if_splits prod.splits)

text \<open>
  \<open>conn_write\<close>. After the last byte a connection that is not kept alive is closed; otherwise the
  parser is reset (the request is not) and bytes that arrived early are served at once.
\<close>

function conn_write :: "world \<Rightarrow> reactor \<Rightarrow> conn \<Rightarrow> (world \<times> reactor) option" where
  "conn_write w r c =
     (case write_head w c of
        (Blocked, w, c) \<Rightarrow> Some (mod_events w c EPOLLOUT, store r c)
      | (Broken, w, c) \<Rightarrow> Some (conn_close w r c)
      | (Flushed, w, c) \<Rightarrow>
          (case write_file w c of
             (Blocked, w, c) \<Rightarrow> Some (mod_events w c EPOLLOUT, store r c)
           | (Broken, w, c) \<Rightarrow> Some (conn_close w r c)
           | (Flushed, w, c) \<Rightarrow>
               if phase c \<noteq> RSP_DONE then Some (w, store r c)
               else if \<not> keep_alive c then Some (conn_close w r c)
               else
                 (case conn_process_input w (doc_root r) (c\<lparr>c_state := ST_READING, parser := http_parser_init\<rparr>) of
                    None \<Rightarrow> None
                  | Some (w, c) \<Rightarrow>
                      if c_state c = ST_WRITING then conn_write w r (c\<lparr>phase := RSP_HEAD, head_off := 0\<rparr>)
                      else Some (mod_events w c EPOLLIN, store r c))))"
  by pat_completeness auto
termination
proof (relation "measure (\<lambda>(w, r, c). in_tail c - in_head c)", goal_cases)
  case 1
  then show ?case by simp
next
  case (2 w r c x y w1 c1 x' y' w2 c2 x'' w3 c3)
  then show ?case
    using write_head_same [of w c Flushed w1 c1] write_file_same [of w1 c1 Flushed w2 c2]
      process_input_same [of w2 "doc_root r" "c2\<lparr>c_state := ST_READING, parser := http_parser_init\<rparr>" w3 c3]
    by auto
qed

declare conn_write.simps [simp del]

section \<open>Accepting\<close>

definition set_nonblocking :: "world \<Rightarrow> nat \<Rightarrow> world" where
  "set_nonblocking w n = emit [Set_Nonblock n] w"

fun accept_loop :: "int list \<Rightarrow> world \<Rightarrow> reactor \<Rightarrow> world \<times> reactor" where
  "accept_loop [] w r = (w\<lparr>accepts := []\<rparr>, r)"
| "accept_loop (n # ns) w r =
     (if n < 0 then (w\<lparr>accepts := ns\<rparr>, r)
      else if CONN_MAX \<le> n then accept_loop ns (emit [Close n] w) r
      else
        (let w = set_nonblocking w (nat n); (ok, w) = malloc w in
         if \<not> ok then accept_loop ns (emit [Close n] w) r
         else
           accept_loop ns
             (emit [Epoll_Add (nat n) EPOLLIN] (w\<lparr>armed := (armed w)(nat n \<mapsto> EPOLLIN)\<rparr>))
             (r\<lparr>conns := (conns r)(nat n \<mapsto> new_conn (nat n)), active_conns := active_conns r + 1\<rparr>)))"

definition reactor_accept :: "world \<Rightarrow> reactor \<Rightarrow> world \<times> reactor" where
  "reactor_accept w r = accept_loop (accepts w) w r"

section \<open>Setting up\<close>

text \<open>What the calls of \<open>reactor_create\<close> return; negative descriptors are failures.\<close>

record create_env =
  su_reactor :: bool
  su_conns :: bool
  su_strdup :: bool
  su_epoll :: int
  su_eventfd :: int
  su_socket :: int
  su_bind :: bool
  su_listen :: bool
  su_sockname :: "nat option"

definition reactor_create :: "create_env \<Rightarrow> world \<Rightarrow> reactor_config option \<Rightarrow> world \<times> reactor option" where
  "reactor_create su w cfg0 =
     (case cfg0 of
        None \<Rightarrow> (w, None)
      | Some cfg \<Rightarrow>
          if \<not> su_reactor su \<or> \<not> su_conns su \<or> \<not> su_strdup su then (w, None)
          else if su_epoll su < 0 then (w, None)
          else if su_eventfd su < 0 then (emit [Close (su_epoll su)] w, None)
          else
            (let wk = nat (su_eventfd su);
                 w = emit [Epoll_Add wk EPOLLIN] (w\<lparr>armed := (armed w)(wk \<mapsto> EPOLLIN)\<rparr>) in
             if su_socket su < 0 then (emit [Close (su_epoll su), Close (su_eventfd su)] w, None)
             else
               (let ls = nat (su_socket su);
                    port16 = nat (rc_port cfg mod 65536);
                    w = emit ([Reuse_Addr ls] @ (if rc_reuse_port cfg then [Reuse_Port ls] else []) @ [Bind ls port16]) w;
                    backlog = (if 0 < rc_backlog cfg then rc_backlog cfg else BACKLOG) in
                if \<not> su_bind su then
                  (emit [Close (su_socket su), Close (su_epoll su), Close (su_eventfd su)] w, None)
                else if \<not> su_listen su then
                  (emit [Listen ls backlog, Close (su_socket su), Close (su_epoll su), Close (su_eventfd su)] w, None)
                else
                  (emit [Listen ls backlog, Epoll_Add ls EPOLLIN] (w\<lparr>armed := (armed w)(ls \<mapsto> EPOLLIN)\<rparr>),
                   Some \<lparr>epfd = su_epoll su, listen_fd = ls, wakeup_fd = wk,
                     r_port = (case su_sockname su of Some p \<Rightarrow> int p | None \<Rightarrow> rc_port cfg),
                     doc_root = (case rc_doc_root cfg of Some d \<Rightarrow> d | None \<Rightarrow> ''www''),
                     max_events = (if 0 < rc_max_events cfg then rc_max_events cfg else MAX_EVENTS),
                     active_conns = 0, conns = Map.empty, stop = False\<rparr>))))"

definition reactor_port :: "reactor \<Rightarrow> int" where
  "reactor_port r = r_port r"

definition reactor_active_connections :: "reactor \<Rightarrow> int" where
  "reactor_active_connections r = active_conns r"

section \<open>The event loop\<close>

type_synonym ready_event = "nat \<times> epoll_event list"

definition on_readable :: "world \<Rightarrow> reactor \<Rightarrow> nat \<Rightarrow> conn \<Rightarrow> (world \<times> reactor) option" where
  "on_readable w r n c =
     (case conn_read w r c of
        None \<Rightarrow> None
      | Some (w, r) \<Rightarrow>
          (case conns r n of
             None \<Rightarrow> Some (w, r)
           | Some c \<Rightarrow> if c_state c = ST_WRITING then conn_write w r c else Some (w, r)))"

definition handle_event :: "world \<Rightarrow> reactor \<Rightarrow> ready_event \<Rightarrow> (world \<times> reactor) option" where
  "handle_event w r ev =
     (let (n, evs) = ev in
      case conns r n of
        None \<Rightarrow> Some (w, r)
      | Some c \<Rightarrow>
          if EPOLLERR \<in> set evs \<or> EPOLLHUP \<in> set evs then Some (conn_close w r c)
          else
            (case (if EPOLLIN \<in> set evs then on_readable w r n c else Some (w, r)) of
               None \<Rightarrow> None
             | Some (w, r) \<Rightarrow>
                 (case conns r n of
                    None \<Rightarrow> Some (w, r)
                  | Some c \<Rightarrow> if EPOLLOUT \<in> set evs then conn_write w r c else Some (w, r))))"

fun run_batch :: "ready_event list \<Rightarrow> world \<Rightarrow> reactor \<Rightarrow> (world \<times> reactor) option" where
  "run_batch [] w r = Some (w, r)"
| "run_batch (ev # evs) w r =
     (if fst ev = wakeup_fd r then Some (w, r\<lparr>stop := True\<rparr>)
      else if fst ev = listen_fd r then
        (let (w, r) = reactor_accept w r in run_batch evs w r)
      else
        (case handle_event w r ev of None \<Rightarrow> None | Some (w, r) \<Rightarrow> run_batch evs w r))"

text \<open>Results of \<open>epoll_wait\<close>; when the list ends the loop is still waiting.\<close>

datatype wait_result = Ready "ready_event list" | Wait_Intr | Wait_Error

fun run_loop :: "wait_result list \<Rightarrow> world \<Rightarrow> reactor \<Rightarrow> (world \<times> reactor) option" where
  "run_loop [] w r = Some (w, r)"
| "run_loop (x # xs) w r =
     (if stop r then Some (w, r)
      else case x of
        Wait_Intr \<Rightarrow> run_loop xs w r
      | Wait_Error \<Rightarrow> Some (w, r)
      | Ready evs \<Rightarrow> (case run_batch evs w r of None \<Rightarrow> None | Some (w, r) \<Rightarrow> run_loop xs w r))"

definition reactor_run :: "wait_result list \<Rightarrow> world \<Rightarrow> reactor \<Rightarrow> (world \<times> reactor) option" where
  "reactor_run xs w r = (let (ok, w) = malloc w in if \<not> ok then Some (w, r) else run_loop xs w r)"

definition reactor_stop :: "world \<Rightarrow> reactor \<Rightarrow> world" where
  "reactor_stop w r = emit [Wakeup (wakeup_fd r)] w"

definition destroy_conn :: "reactor \<Rightarrow> nat \<Rightarrow> syscall list" where
  "destroy_conn r n =
     (case conns r n of
        None \<Rightarrow> []
      | Some c \<Rightarrow> [Epoll_Del n, Close (int n)] @ (if 0 \<le> file_fd c then [Close (file_fd c)] else []))"

definition reactor_destroy :: "world \<Rightarrow> reactor option \<Rightarrow> world" where
  "reactor_destroy w r0 =
     (case r0 of
        None \<Rightarrow> w
      | Some r \<Rightarrow> emit (concat (map (destroy_conn r) [0..<nat CONN_MAX]) @
          [Close (int (listen_fd r)), Close (int (wakeup_fd r)), Close (epfd r)]) w)"

section \<open>Input is consumed request by request\<close>

text \<open>The bytes that were read and not yet parsed.\<close>

definition input :: "conn \<Rightarrow> string" where
  "input c = map (inbuf c) [in_head c..<in_tail c]"

lemma input_Cons:
  "in_head c < in_tail c \<Longrightarrow> input c = inbuf c (in_head c) # input (c\<lparr>in_head := in_head c + 1\<rparr>)"
  by (simp add: input_def upt_conv_Cons)

lemma input_fields [simp]: "input (c\<lparr>parser := p\<rparr>) = input c" "input (c\<lparr>req := q\<rparr>) = input c"
  by (simp_all add: input_def)

lemma input_Nil: "input c = [] \<longleftrightarrow> in_tail c \<le> in_head c"
  by (auto simp: input_def)

text \<open>
  Processing stops behind the byte that completes the request (or makes it malformed): the parser
  was fed exactly the bytes consumed, and every shorter part of them left it asking for more.
\<close>

definition consumed :: "conn \<Rightarrow> conn \<Rightarrow> http_parse_status \<Rightarrow> bool" where
  "consumed c c' st \<longleftrightarrow> (\<exists>pre. input c = pre @ input c' \<and>
     http_parser_feed (parser c) (req c) pre = Some (st, parser c', req c') \<and>
     (st \<noteq> HTTP_PARSE_INCOMPLETE \<longrightarrow> pre \<noteq> [] \<and>
        (\<exists>p q. http_parser_feed (parser c) (req c) (butlast pre) = Some (HTTP_PARSE_INCOMPLETE, p, q))))"

lemma feed_one:
  assumes "\<not> p_done p" "http_parser_feed p r [b] = Some (HTTP_PARSE_INCOMPLETE, p', r')"
  shows "\<not> p_done p'" "http_parser_feed p r (b # bs) = http_parser_feed p' r' bs"
proof -
  show "http_parser_feed p r (b # bs) = http_parser_feed p' r' bs"
    using hp.feed_append [of "(p, r)" "[b]" bs] assms(2) by (simp split: option.splits prod.splits)
  show "\<not> p_done p'" using assms parser_step_more [of p r b p' r']
    by (auto simp: http_parser_feed_def split: option.splits if_splits prod.splits)
qed

text \<open>How one call of the loop goes on.\<close>

lemma process_input_cases:
  assumes run: "conn_process_input w root c = Some (w', c')" and reading: "c_state c = ST_READING"
  obtains (empty) "in_tail c \<le> in_head c" "w' = w" "c' = c"
  | (respond) st p q c1 where "in_head c < in_tail c" "st \<noteq> HTTP_PARSE_INCOMPLETE"
      "http_parser_feed (parser c) (req c) [inbuf c (in_head c)] = Some (st, p, q)"
      "(if st = HTTP_PARSE_DONE then build_response w root (c\<lparr>parser := p, req := q, in_head := in_head c + 1\<rparr>)
        else build_error_response w (c\<lparr>parser := p, req := q, in_head := in_head c + 1\<rparr>) 400) = Some (w', c1)"
      "c' = c1\<lparr>c_state := ST_WRITING\<rparr>"
  | (more) p q where "in_head c < in_tail c"
      "http_parser_feed (parser c) (req c) [inbuf c (in_head c)] = Some (HTTP_PARSE_INCOMPLETE, p, q)"
      "conn_process_input w root (c\<lparr>parser := p, req := q, in_head := in_head c + 1\<rparr>) = Some (w', c')"
proof (cases "in_head c < in_tail c")
  case False
  with run show ?thesis by (subst (asm) conn_process_input.simps) (auto intro!: empty)
next
  case True
  with run reading obtain st p q where f: "http_parser_feed (parser c) (req c) [inbuf c (in_head c)] = Some (st, p, q)"
    by (subst (asm) conn_process_input.simps) (auto split: option.splits)
  show ?thesis
  proof (cases st)
    case HTTP_PARSE_INCOMPLETE
    with run True reading f show ?thesis
      by (subst (asm) conn_process_input.simps) (auto simp: Let_def intro!: more)
  next
    case HTTP_PARSE_DONE
    with run True reading f obtain c1 where
      "build_response w root (c\<lparr>parser := p, req := q, in_head := in_head c + 1\<rparr>) = Some (w', c1)" "c' = c1\<lparr>c_state := ST_WRITING\<rparr>"
      by (subst (asm) conn_process_input.simps) (auto simp: Let_def bind_eq_Some_conv)
    with True f HTTP_PARSE_DONE show ?thesis by (intro respond [of st p q c1]) simp_all
  next
    case HTTP_PARSE_ERROR
    with run True reading f obtain c1 where
      "build_error_response w (c\<lparr>parser := p, req := q, in_head := in_head c + 1\<rparr>) 400 = Some (w', c1)" "c' = c1\<lparr>c_state := ST_WRITING\<rparr>"
      by (subst (asm) conn_process_input.simps) (auto simp: Let_def bind_eq_Some_conv)
    with True f HTTP_PARSE_ERROR show ?thesis by (intro respond [of st p q c1]) simp_all
  qed
qed

lemma consumed_more:
  assumes "in_head c < in_tail c" "\<not> p_done (parser c)"
    and f: "http_parser_feed (parser c) (req c) [inbuf c (in_head c)] = Some (HTTP_PARSE_INCOMPLETE, p, q)"
    and "consumed (c\<lparr>parser := p, req := q, in_head := in_head c + 1\<rparr>) c' st"
  shows "consumed c c' st"
proof -
  let ?b = "inbuf c (in_head c)"
  note one = feed_one(2) [OF assms(2) f]
  from assms(4) obtain pre where pre: "input (c\<lparr>in_head := in_head c + 1\<rparr>) = pre @ input c'"
    "http_parser_feed p q pre = Some (st, parser c', req c')"
    "st \<noteq> HTTP_PARSE_INCOMPLETE \<Longrightarrow> pre \<noteq> [] \<and>
        (\<exists>p' q'. http_parser_feed p q (butlast pre) = Some (HTTP_PARSE_INCOMPLETE, p', q'))"
    by (auto simp: consumed_def input_def)
  show ?thesis
    unfolding consumed_def using pre one input_Cons [OF assms(1)] by (intro exI [of _ "?b # pre"]) auto
qed

lemma process_input_feed:
  assumes "conn_process_input w root c = Some (w', c')" "c_state c = ST_READING" "\<not> p_done (parser c)"
  shows "\<exists>st. consumed c c' st \<and>
    (if st = HTTP_PARSE_INCOMPLETE then c_state c' = ST_READING \<and> input c' = [] \<and> \<not> p_done (parser c') \<and> w' = w \<and>
         c' = c\<lparr>parser := parser c', req := req c', in_head := in_head c'\<rparr>
     else c_state c' = ST_WRITING)"
  using assms
proof (induction "in_tail c - in_head c" arbitrary: c)
  case less: (0 c)
  show ?case
    using less.prems(1,2)
  proof (cases rule: process_input_cases)
    case empty
    then have "consumed c c' HTTP_PARSE_INCOMPLETE"
      using less.prems(3) unfolding consumed_def by (intro exI [of _ "[]"]) (simp add: http_parser_feed_def)
    with empty less.prems show ?thesis by (intro exI [of _ HTTP_PARSE_INCOMPLETE]) (simp add: input_Nil)
  qed (use less.hyps in simp_all)
next
  case (Suc n c)
  show ?case
    using Suc.prems(1,2)
  proof (cases rule: process_input_cases)
    case empty
    then show ?thesis using Suc.hyps(2) by simp
  next
    case (respond st p q c1)
    let ?c = "c\<lparr>parser := p, req := q, in_head := in_head c + 1\<rparr>"
    have same: "same_input ?c c1" using respond(4) build_response_same build_error_same by (metis (no_types, lifting))
    then have "input c1 = input ?c" "parser c1 = p" "req c1 = q" by (simp_all add: same_input_def input_def)
    moreover have "input c = inbuf c (in_head c) # input ?c" using input_Cons [OF respond(1)] by (simp add: input_def)
    ultimately have "consumed c c' st"
      unfolding consumed_def using respond(2,3,5) Suc.prems(3)
      by (intro exI [of _ "[inbuf c (in_head c)]"]) (simp add: http_parser_feed_def input_def)
    with respond show ?thesis by (intro exI [of _ st]) simp
  next
    case (more p q)
    let ?c = "c\<lparr>parser := p, req := q, in_head := in_head c + 1\<rparr>"
    have "n = in_tail ?c - in_head ?c" using Suc.hyps(2) by simp
    from Suc.hyps(1) [OF this more(3)] Suc.prems(2) feed_one(1) [OF Suc.prems(3) more(2)] obtain st where
      st: "consumed ?c c' st" "if st = HTTP_PARSE_INCOMPLETE then c_state c' = ST_READING \<and> input c' = [] \<and> \<not> p_done (parser c') \<and> w' = w \<and>
         c' = ?c\<lparr>parser := parser c', req := req c', in_head := in_head c'\<rparr>
       else c_state c' = ST_WRITING" by auto
    from consumed_more [OF more(1) Suc.prems(3) more(2) st(1)] st(2) show ?thesis
      by (intro exI [of _ st]) (auto split: if_splits)
  qed
qed

lemma process_input_output:
  assumes "conn_process_input w root c = Some (w', c')" "c_state c = ST_READING" "sizes_ok (stats w)"
  shows "response_set c c'"
  using assms
proof (induction "in_tail c - in_head c" arbitrary: c rule: less_induct)
  case less
  show ?case
    using less.prems(1,2)
  proof (cases rule: process_input_cases)
    case empty
    then show ?thesis by (simp add: response_set_refl)
  next
    case (respond st p q c1)
    let ?c = "c\<lparr>parser := p, req := q, in_head := in_head c + 1\<rparr>"
    have "built w ?c (Some (w', c1))"
      using respond(4) build_response_built [OF less.prems(3), of ?c root] build_error_built [of 400 w ?c]
      by (simp add: served_codes_def split: if_splits)
    then have "response_set ?c c1" by (simp add: built_def)
    with respond(5) show ?thesis by (simp add: response_set_def head_ok_def)
  next
    case (more p q)
    let ?c = "c\<lparr>parser := p, req := q, in_head := in_head c + 1\<rparr>"
    from less.hyps [OF _ more(3)] more(1) less.prems(2,3) have "response_set ?c c'" by simp
    then show ?thesis by (simp add: response_set_def)
  qed
qed

lemma built_returns: "built w c res \<Longrightarrow> res \<noteq> None"
  by (cases res) (simp_all add: built_def)

lemma process_input_fault:
  assumes "c_state c = ST_READING" "\<not> p_done (parser c)" "sizes_ok (stats w)"
  shows "conn_process_input w root c = None \<longleftrightarrow> http_parser_feed (parser c) (req c) (input c) = None"
  using assms
proof (induction "in_tail c - in_head c" arbitrary: c rule: less_induct)
  case less
  show ?case
  proof (cases "in_head c < in_tail c")
    case False
    then have "input c = []" by (simp add: input_Nil)
    with False less.prems show ?thesis by (subst conn_process_input.simps) (simp add: http_parser_feed_def)
  next
    case True
    let ?b = "inbuf c (in_head c)"
    note ic = input_Cons [OF True]
    have app: "http_parser_feed (parser c) (req c) (input c) = (case http_parser_feed (parser c) (req c) [?b] of None \<Rightarrow> None
        | Some (st, p, q) \<Rightarrow> if st = HTTP_PARSE_INCOMPLETE then http_parser_feed p q (input (c\<lparr>in_head := in_head c + 1\<rparr>)) else Some (st, p, q))"
      using hp.feed_append [of "(parser c, req c)" "[?b]" "input (c\<lparr>in_head := in_head c + 1\<rparr>)"]
      by (simp add: ic split: option.splits prod.splits)
    show ?thesis
    proof (cases "http_parser_feed (parser c) (req c) [?b]")
      case None
      with True less.prems app show ?thesis by (subst conn_process_input.simps) simp
    next
      case (Some x)
      then obtain st p q where f: "http_parser_feed (parser c) (req c) [?b] = Some (st, p, q)" by (cases x) auto
      let ?c = "c\<lparr>parser := p, req := q, in_head := in_head c + 1\<rparr>"
      have ok: "build_response w root ?c \<noteq> None" "build_error_response w ?c 400 \<noteq> None"
        by (auto intro!: built_returns build_response_built less.prems build_error_built simp: served_codes_def
            simp del: not_None_eq)
      show ?thesis
      proof (cases "st = HTTP_PARSE_INCOMPLETE")
        case True': True
        from f True' have f': "http_parser_feed (parser c) (req c) [?b] = Some (HTTP_PARSE_INCOMPLETE, p, q)" by simp
        have "conn_process_input w root ?c = None \<longleftrightarrow> http_parser_feed p q (input ?c) = None"
          using less.hyps [of ?c] True less.prems feed_one(1) [OF less.prems(2) f'] by simp
        with True True' f less.prems app show ?thesis
          by (subst conn_process_input.simps) (simp add: Let_def input_def)
      next
        case False
        with True f less.prems ok app show ?thesis
          by (subst conn_process_input.simps) (cases st; auto simp: Let_def)
      qed
    qed
  qed
qed

section \<open>What goes over the wire\<close>

text \<open>
  The bytes a trace puts on a socket; \<open>content\<close> gives the bytes of the file open under a
  descriptor. \<open>pending\<close> is what a connection still has to send.
\<close>

fun call_bytes :: "(int \<Rightarrow> nat \<Rightarrow> char) \<Rightarrow> nat \<Rightarrow> syscall \<Rightarrow> string" where
  "call_bytes content sock (Write s bs) = (if s = sock then bs else [])"
| "call_bytes content sock (Sendfile s f off n) = (if s = sock then map (content f) [off..<off + n] else [])"
| "call_bytes content sock _ = []"

definition wire :: "(int \<Rightarrow> nat \<Rightarrow> char) \<Rightarrow> nat \<Rightarrow> syscall list \<Rightarrow> string" where
  "wire content sock cs = concat (map (call_bytes content sock) cs)"

definition file_part :: "(int \<Rightarrow> nat \<Rightarrow> char) \<Rightarrow> conn \<Rightarrow> string" where
  "file_part content c = (if 0 \<le> file_fd c then map (content (file_fd c)) [file_off c..<file_len c] else [])"

definition pending :: "(int \<Rightarrow> nat \<Rightarrow> char) \<Rightarrow> conn \<Rightarrow> string" where
  "pending content c =
     (case phase c of
        RSP_HEAD \<Rightarrow> drop (head_off c) (head_bytes c) @ file_part content c
      | RSP_SENDFILE \<Rightarrow> file_part content c
      | RSP_DONE \<Rightarrow> [])"

lemma wire_simps [simp]:
  "wire content sock [] = []" "wire content sock (x # cs) = call_bytes content sock x @ wire content sock cs"
  "wire content sock (cs @ ds) = wire content sock cs @ wire content sock ds"
  by (simp_all add: wire_def)

lemma take_drop_step: "take n (drop off h) @ drop (off + n) h = drop off h"
  by (metis append_take_drop_id drop_drop add.commute)

lemma head_loop_wire:
  assumes "head_loop sock h off len ws = (e, off', cs, ws')" "off \<le> len" "len = length h"
  shows "off \<le> off' \<and> off' \<le> len \<and> wire content sock cs @ drop off' h = drop off h \<and> (e = Flushed \<longleftrightarrow> off' = len)"
  using assms
proof (induction ws arbitrary: off cs)
  case Nil
  then show ?case by (auto split: if_splits)
next
  case (Cons x ws)
  show ?case
  proof (cases "off < len")
    case False
    with Cons.prems show ?thesis by auto
  next
    case True
    show ?thesis
    proof (cases x)
      case (Moved m)
      define n where "n = min m (len - off)"
      obtain e1 off1 cs1 ws1 where h: "head_loop sock h (off + n) len ws = (e1, off1, cs1, ws1)" by (metis prod_cases4)
      show ?thesis
      proof (cases "0 < n")
        case True
        with h Moved \<open>off < len\<close> Cons.prems have "e = e1" "off' = off1" "cs = Write sock (take n (drop off h)) # cs1" "ws' = ws1"
          by (auto simp: n_def)
        moreover have "off + n \<le> len" using \<open>off < len\<close> by (simp add: n_def)
        ultimately show ?thesis
          using Cons.IH [of "off + n" cs1] h Cons.prems(3) take_drop_step [of n off h] by auto
      next
        case False
        with Moved \<open>off < len\<close> Cons.prems show ?thesis by (auto simp: n_def)
      qed
    qed (use True Cons in auto)
  qed
qed

lemma send_loop_wire:
  assumes "send_loop sock f off len ss = (e, off', cs, ss')" "off \<le> len"
  shows "off \<le> off' \<and> off' \<le> len \<and>
    wire content sock cs @ map (content f) [off'..<len] = map (content f) [off..<len] \<and> (e = Flushed \<longleftrightarrow> off' = len)"
  using assms
proof (induction ss arbitrary: off cs)
  case Nil
  then show ?case by (auto split: if_splits)
next
  case (Cons x ss)
  show ?case
  proof (cases "off < len")
    case False
    with Cons.prems show ?thesis by auto
  next
    case True
    show ?thesis
    proof (cases x)
      case (Moved m)
      define n where "n = min m (min (len - off) SENDFILE_MAX)"
      obtain e1 off1 cs1 ss1 where h: "send_loop sock f (off + n) len ss = (e1, off1, cs1, ss1)" by (metis prod_cases4)
      with Moved True Cons.prems have "e = e1" "off' = off1" "cs = Sendfile sock f off n # cs1" "ss' = ss1"
        by (auto simp: n_def Let_def)
      moreover have le: "off + n \<le> len" using True by (simp add: n_def)
      moreover have "[off..<len] = [off..<off + n] @ [off + n..<len]" using upt_add_eq_append [of off "off + n" "len - (off + n)"] le by simp
      ultimately show ?thesis using Cons.IH [of "off + n" cs1] h by auto
    qed (use True Cons in auto)
  qed
qed

text \<open>Both phases of \<open>conn_write\<close> together.\<close>

definition flush :: "world \<Rightarrow> conn \<Rightarrow> io_end \<times> world \<times> conn" where
  "flush w c = (case write_head w c of (Flushed, w, c) \<Rightarrow> write_file w c | x \<Rightarrow> x)"

definition out_ok :: "conn \<Rightarrow> bool" where
  "out_ok c \<longleftrightarrow> head_ok c \<and> (0 \<le> file_fd c \<and> phase c \<noteq> RSP_DONE \<longrightarrow> file_off c \<le> file_len c) \<and>
     (phase c = RSP_SENDFILE \<longrightarrow> c_head c = None \<and> 0 \<le> file_fd c) \<and> (phase c = RSP_DONE \<longrightarrow> c_head c = None \<and> file_fd c < 0)"

lemma head_bytes_length: "head_ok c \<Longrightarrow> length (head_bytes c) = head_len c"
  by (auto simp: head_ok_def head_bytes_def split: option.splits)

lemma write_head_wire:
  assumes "write_head w c = (e, w', c')" "out_ok c"
  shows "\<exists>cs. trace w' = trace w @ cs \<and> wire content (fd c) cs @ pending content c' = pending content c \<and>
    out_ok c' \<and> (e = Flushed \<longrightarrow> phase c' \<noteq> RSP_HEAD) \<and> (e \<noteq> Flushed \<longrightarrow> phase c' = RSP_HEAD) \<and>
    file_fd c' = file_fd c \<and> file_off c' = file_off c \<and> file_len c' = file_len c \<and>
    (c_head c' = c_head c \<or> c_head c' = None) \<and>
    stats w' = stats w \<and> armed w' = armed w"
proof (cases "phase c = RSP_HEAD")
  case False
  with assms show ?thesis by (intro exI [of _ "[]"]) (auto simp: write_head_def)
next
  case True
  obtain e1 off cs ws where h: "head_loop (fd c) (head_bytes c) (head_off c) (head_len c) (writes w) = (e1, off, cs, ws)"
    by (metis prod_cases4)
  have ok: "head_off c \<le> head_len c" "head_len c = length (head_bytes c)" "head_ok c"
    using assms(2) by (auto simp: out_ok_def head_ok_def head_bytes_length)
  note l = head_loop_wire [OF h ok(1,2), of content]
  show ?thesis
  proof (cases "e1 = Flushed")
    case True': True
    have "wire content (fd c) cs = drop (head_off c) (head_bytes c)" using l True' ok(2) by auto
    with assms True True' h show ?thesis
      by (intro exI [of _ cs]) (auto simp: write_head_def pending_def file_part_def out_ok_def head_ok_def)
  next
    case False
    with assms True h l ok show ?thesis
      by (intro exI [of _ cs]) (auto simp: write_head_def pending_def file_part_def out_ok_def head_ok_def head_bytes_def)
  qed
qed

lemma write_file_wire:
  assumes "write_file w c = (e, w', c')" "out_ok c" "phase c \<noteq> RSP_HEAD"
  shows "\<exists>cs. trace w' = trace w @ cs \<and> stats w' = stats w \<and> armed w' = armed w \<and> c_head c' = None \<and>
    (case e of
       Flushed \<Rightarrow> wire content (fd c) cs = pending content c \<and> phase c' = RSP_DONE \<and> out_ok c' \<and> (phase c = RSP_SENDFILE \<longrightarrow> file_fd c' = -1) \<and>
         (phase c = RSP_DONE \<longrightarrow> file_fd c' = file_fd c)
     | Blocked \<Rightarrow> wire content (fd c) cs @ pending content c' = pending content c \<and> phase c' = RSP_SENDFILE \<and> out_ok c' \<and> file_fd c' = file_fd c
     | Broken \<Rightarrow> prefix (wire content (fd c) cs) (pending content c) \<and> file_fd c' = -1)"
proof (cases "phase c = RSP_SENDFILE")
  case False
  with assms have "phase c = RSP_DONE" by (cases "phase c") auto
  with assms show ?thesis by (intro exI [of _ "[]"]) (auto simp: write_file_def pending_def out_ok_def)
next
  case True
  obtain e1 off cs ss where h: "send_loop (fd c) (file_fd c) (file_off c) (file_len c) (sends w) = (e1, off, cs, ss)"
    by (metis prod_cases4)
  have ok: "file_off c \<le> file_len c" "0 \<le> file_fd c" "c_head c = None" "head_ok c" using assms(2) True by (auto simp: out_ok_def)
  note l = send_loop_wire [OF h ok(1), of content]
  have part: "pending content c = map (content (file_fd c)) [file_off c..<file_len c]"
    using True ok by (simp add: pending_def file_part_def)
  have pre: "prefix (wire content (fd c) cs) (pending content c)"
    unfolding part using l by (metis prefixI)
  show ?thesis
  proof (cases e1)
    case Flushed
    with l assms(1) True h ok part show ?thesis
      by (intro exI [of _ "cs @ [Close (file_fd c)]"]) (auto simp: write_file_def out_ok_def head_ok_def)
  next
    case Blocked
    with l assms(1) True h ok part show ?thesis
      by (intro exI [of _ cs]) (auto simp: write_file_def out_ok_def head_ok_def pending_def file_part_def)
  next
    case Broken
    with l assms(1) True h ok part pre show ?thesis
      by (intro exI [of _ "cs @ [Close (file_fd c)]"]) (auto simp: write_file_def)
  qed
qed

lemma flush_same:
  "flush w c = (e, w', c') \<Longrightarrow> fd c' = fd c \<and> in_head c' = in_head c \<and> in_tail c' = in_tail c \<and> inbuf c' = inbuf c \<and>
     c_state c' = c_state c \<and> parser c' = parser c \<and> req c' = req c \<and> keep_alive c' = keep_alive c"
  by (auto simp: flush_def split: prod.splits io_end.splits dest!: write_head_same write_file_same)

lemma flush_wire:
  assumes "flush w c = (e, w', c')" "out_ok c"
  shows "\<exists>cs. trace w' = trace w @ cs \<and> stats w' = stats w \<and> armed w' = armed w \<and>
    (case e of
       Flushed \<Rightarrow> wire content (fd c) cs = pending content c \<and> phase c' = RSP_DONE \<and> out_ok c' \<and> c_head c' = None
     | Blocked \<Rightarrow> wire content (fd c) cs @ pending content c' = pending content c \<and> phase c' \<noteq> RSP_DONE \<and> out_ok c' \<and>
         (c_head c' = c_head c \<or> c_head c' = None)
     | Broken \<Rightarrow> prefix (wire content (fd c) cs) (pending content c))"
proof -
  obtain e1 w1 c1 where h: "write_head w c = (e1, w1, c1)" by (metis prod_cases3)
  from write_head_wire [OF h assms(2), of content] obtain cs where
    1: "trace w1 = trace w @ cs" "wire content (fd c) cs @ pending content c1 = pending content c" "out_ok c1"
    "e1 = Flushed \<longrightarrow> phase c1 \<noteq> RSP_HEAD" "e1 \<noteq> Flushed \<longrightarrow> phase c1 = RSP_HEAD" "stats w1 = stats w" "armed w1 = armed w"
    "c_head c1 = c_head c \<or> c_head c1 = None" by blast
  have fd1: "fd c1 = fd c" using write_head_same [OF h] by blast
  have pre: "prefix (wire content (fd c) cs) (pending content c)" using 1(2) by (metis prefixI)
  show ?thesis
  proof (cases "e1 = Flushed")
    case False
    with assms(1) h have "e = e1" "w' = w1" "c' = c1" by (auto simp: flush_def split: io_end.splits)
    with 1 False show ?thesis by (intro exI [of _ cs]) (auto split: io_end.splits simp: pre)
  next
    case True
    with assms(1) h have "write_file w1 c1 = (e, w', c')" by (simp add: flush_def)
    from write_file_wire [OF this 1(3), of content] 1(4) True obtain ds where
      2: "trace w' = trace w1 @ ds" "stats w' = stats w1" "armed w' = armed w1" "c_head c' = None"
      "case e of
       Flushed \<Rightarrow> wire content (fd c1) ds = pending content c1 \<and> phase c' = RSP_DONE \<and> out_ok c' \<and> (phase c1 = RSP_SENDFILE \<longrightarrow> file_fd c' = -1) \<and>
         (phase c1 = RSP_DONE \<longrightarrow> file_fd c' = file_fd c1)
     | Blocked \<Rightarrow> wire content (fd c1) ds @ pending content c' = pending content c1 \<and> phase c' = RSP_SENDFILE \<and> out_ok c' \<and> file_fd c' = file_fd c1
     | Broken \<Rightarrow> prefix (wire content (fd c1) ds) (pending content c1) \<and> file_fd c' = -1" by blast
    show ?thesis
      using 1 2 fd1 by (intro exI [of _ "cs @ ds"]) (auto split: io_end.splits simp flip: 1(2))
  qed
qed

lemma flush_sent:
  assumes "flush w c = (e, w1, c1)" "out_ok c"
  obtains cs where "trace w1 = trace w @ cs" "stats w1 = stats w"
    "e = Flushed \<Longrightarrow> wire content (fd c) cs = pending content c \<and> phase c1 = RSP_DONE \<and> c_head c1 = None"
    "e = Blocked \<Longrightarrow> wire content (fd c) cs @ pending content c1 = pending content c"
    "e = Broken \<Longrightarrow> prefix (wire content (fd c) cs) (pending content c)"
  using flush_wire [OF assms, of content] by (cases e) auto

lemma conn_write_flush:
  assumes "out_ok c"
  shows "conn_write w r c =
    (case flush w c of
       (Blocked, w, c) \<Rightarrow> Some (mod_events w c EPOLLOUT, store r c)
     | (Broken, w, c) \<Rightarrow> Some (conn_close w r c)
     | (Flushed, w, c) \<Rightarrow>
         if \<not> keep_alive c then Some (conn_close w r c)
         else
           (case conn_process_input w (doc_root r) (c\<lparr>c_state := ST_READING, parser := http_parser_init\<rparr>) of
              None \<Rightarrow> None
            | Some (w, c) \<Rightarrow>
                if c_state c = ST_WRITING then conn_write w r (c\<lparr>phase := RSP_HEAD, head_off := 0\<rparr>)
                else Some (mod_events w c EPOLLIN, store r c)))"
proof -
  obtain e w' c' where f: "flush w c = (e, w', c')" by (metis prod_cases3)
  with flush_wire [OF f assms, of "\<lambda>_ _. NUL"] have "e = Flushed \<Longrightarrow> phase c' = RSP_DONE" by auto
  with f show ?thesis
    by (subst conn_write.simps) (auto simp: flush_def split: prod.splits io_end.splits)
qed

text \<open>The trace only grows.\<close>

lemma emit_prefix: "prefix (trace w) (trace (emit cs w))"
  by simp

lemma conn_close_fields [simp]:
  "fst (conn_close w r c) = emit ([Epoll_Del (fd c), Close (int (fd c))] @ (if 0 \<le> file_fd c then [Close (file_fd c)] else []))
     (w\<lparr>armed := (armed w)(fd c := None)\<rparr>)"
  "snd (conn_close w r c) = r\<lparr>conns := (conns r)(fd c := None), active_conns := active_conns r - 1\<rparr>"
  by (simp_all add: conn_close_def)

text \<open>Where one call of \<open>conn_write\<close> on a well-formed connection ends.\<close>

lemma conn_write_cases:
  assumes ok: "out_ok c" and run: "conn_write w r c = Some (w', r')"
  obtains (blocked) w1 c1 where "flush w c = (Blocked, w1, c1)" "w' = mod_events w1 c1 EPOLLOUT" "r' = store r c1"
  | (closed) e w1 c1 where "flush w c = (e, w1, c1)" "(w', r') = conn_close w1 r c1" "e = Broken \<or> e = Flushed \<and> \<not> keep_alive c1"
  | (idle) w1 c1 w2 c2 where "flush w c = (Flushed, w1, c1)" "keep_alive c1"
      "conn_process_input w1 (doc_root r) (c1\<lparr>c_state := ST_READING, parser := http_parser_init\<rparr>) = Some (w2, c2)"
      "c_state c2 \<noteq> ST_WRITING" "w' = mod_events w2 c2 EPOLLIN" "r' = store r c2"
  | (again) w1 c1 w2 c2 where "flush w c = (Flushed, w1, c1)" "keep_alive c1"
      "conn_process_input w1 (doc_root r) (c1\<lparr>c_state := ST_READING, parser := http_parser_init\<rparr>) = Some (w2, c2)"
      "c_state c2 = ST_WRITING" "conn_write w2 r (c2\<lparr>phase := RSP_HEAD, head_off := 0\<rparr>) = Some (w', r')"
proof -
  obtain e w1 c1 where f: "flush w c = (e, w1, c1)" by (metis prod_cases3)
  note run = run [unfolded conn_write_flush [OF ok] f prod.case]
  show ?thesis
  proof (cases e)
    case Blocked
    with run f show ?thesis by (intro blocked [of w1 c1]) auto
  next
    case Broken
    with run f show ?thesis by (intro closed [of Broken w1 c1]) auto
  next
    case Flushed
    show ?thesis
    proof (cases "keep_alive c1")
      case False
      with Flushed run f show ?thesis by (intro closed [of Flushed w1 c1]) auto
    next
      case True
      with Flushed run obtain w2 c2 where
        p: "conn_process_input w1 (doc_root r) (c1\<lparr>c_state := ST_READING, parser := http_parser_init\<rparr>) = Some (w2, c2)"
        by (auto split: option.splits)
      show ?thesis
      proof (cases "c_state c2 = ST_WRITING")
        case True': True
        with True Flushed run f p show ?thesis by (intro again [of w1 c1 w2 c2]) auto
      next
        case False
        with True Flushed run f p show ?thesis by (intro idle [of w1 c1 w2 c2]) auto
      qed
    qed
  qed
qed

section \<open>Invariant of a connection\<close>

definition buffer_ok :: "conn \<Rightarrow> bool" where
  "buffer_ok c \<longleftrightarrow> in_head c \<le> in_tail c \<and> in_tail c \<le> BUFFER_SIZE"

definition reading_ok :: "conn \<Rightarrow> bool" where
  "reading_ok c \<longleftrightarrow> c_state c = ST_READING \<and> in_head c = in_tail c \<and> in_tail c \<le> BUFFER_SIZE \<and> out_ok c \<and>
     c_head c = None \<and> \<not> p_done (parser c)"

definition writing_ok :: "conn \<Rightarrow> bool" where
  "writing_ok c \<longleftrightarrow> c_state c = ST_WRITING \<and> buffer_ok c \<and> out_ok c \<and> (\<forall>h. c_head c = Some h \<longrightarrow> served h)"

text \<open>Between two events a connection waits for input, or has output left and waits for the socket.\<close>

definition conn_ok :: "conn \<Rightarrow> bool" where
  "conn_ok c \<longleftrightarrow> reading_ok c \<or> writing_ok c \<and> phase c \<noteq> RSP_DONE"

definition awaits :: "conn \<Rightarrow> epoll_event" where
  "awaits c = (if c_state c = ST_READING then EPOLLIN else EPOLLOUT)"

lemma response_set_out_ok:
  assumes "response_set c c'" "out_ok c" "c_head c = None"
  shows "out_ok c'" "\<forall>h. c_head c' = Some h \<longrightarrow> served h"
    "c_head c' = None \<Longrightarrow> phase c' = phase c"
  using assms by (auto simp: response_set_def out_ok_def head_ok_def)

text \<open>Parsing what has arrived, from a connection that has nothing left to send.\<close>

lemma process_input_ok:
  assumes run: "conn_process_input w root c = Some (w', c')" and st: "sizes_ok (stats w)"
    and c: "c_state c = ST_READING" "buffer_ok c" "out_ok c" "c_head c = None" "\<not> p_done (parser c)"
  shows "fd c' = fd c" "same_scripts w w'" "reading_ok c' \<or> writing_ok c'" "phase c' = phase c \<or> phase c' = RSP_HEAD"
    "writing_ok c' \<Longrightarrow> out_ok (c'\<lparr>phase := RSP_HEAD, head_off := 0\<rparr>)"
    "c_state c' = ST_WRITING \<longleftrightarrow> writing_ok c'"
proof -
  note same = process_input_same [OF run]
  show "fd c' = fd c" "same_scripts w w'" using same by auto
  have b: "buffer_ok c'" using same c(2) by (auto simp: buffer_ok_def)
  note rs = process_input_output [OF run c(1) st]
  note out = response_set_out_ok [OF rs c(3,4)]
  show "phase c' = phase c \<or> phase c' = RSP_HEAD" using rs by (auto simp: response_set_def)
  from process_input_feed [OF run c(1,5)] obtain st where
    s: "if st = HTTP_PARSE_INCOMPLETE then c_state c' = ST_READING \<and> input c' = [] \<and> \<not> p_done (parser c') \<and> w' = w \<and>
         c' = c\<lparr>parser := parser c', req := req c', in_head := in_head c'\<rparr> else c_state c' = ST_WRITING" by blast
  show "reading_ok c' \<or> writing_ok c'"
  proof (cases "st = HTTP_PARSE_INCOMPLETE")
    case True
    with s have i: "c_state c' = ST_READING" "in_tail c' \<le> in_head c'" "\<not> p_done (parser c')"
      and eq: "c' = c\<lparr>parser := parser c', req := req c', in_head := in_head c'\<rparr>" by (auto simp: input_Nil)
    have "c_head c' = None" by (subst eq) (simp add: c(4))
    with i b out(1) show ?thesis by (auto simp: reading_ok_def buffer_ok_def)
  next
    case False
    with s b out show ?thesis by (simp add: writing_ok_def)
  qed
  then show "c_state c' = ST_WRITING \<longleftrightarrow> writing_ok c'" by (auto simp: reading_ok_def writing_ok_def)
  assume "writing_ok c'"
  then show "out_ok (c'\<lparr>phase := RSP_HEAD, head_off := 0\<rparr>)"
    using rs c(3,4) by (auto simp: out_ok_def head_ok_def writing_ok_def response_set_def)
qed

text \<open>How a handler leaves the reactor: the connection is stored again or closed.\<close>

definition closes :: "world \<Rightarrow> world \<Rightarrow> reactor \<Rightarrow> reactor \<Rightarrow> nat \<Rightarrow> bool" where
  "closes w w' r r' n \<longleftrightarrow> stats w' = stats w \<and> prefix (trace w) (trace w') \<and> armed w' = (armed w)(n := None) \<and>
     r' = r\<lparr>conns := (conns r)(n := None), active_conns := active_conns r - 1\<rparr>"

definition keeps :: "(conn \<Rightarrow> bool) \<Rightarrow> world \<Rightarrow> world \<Rightarrow> reactor \<Rightarrow> reactor \<Rightarrow> nat \<Rightarrow> bool" where
  "keeps P w w' r r' n \<longleftrightarrow> (\<exists>c. stats w' = stats w \<and> prefix (trace w) (trace w') \<and>
     r' = r\<lparr>conns := (conns r)(n \<mapsto> c)\<rparr> \<and> fd c = n \<and> P c \<and> armed w' = (armed w)(n \<mapsto> awaits c))"

lemma flush_frame:
  assumes "flush w c = (e, w1, c1)" "out_ok c"
  shows "stats w1 = stats w" "armed w1 = armed w" "prefix (trace w) (trace w1)" "fd c1 = fd c"
  using flush_wire [OF assms, of "\<lambda>_ _. NUL"] flush_same [OF assms(1)] by auto

lemma conn_close_closes: "stats w1 = stats w \<Longrightarrow> armed w1 = armed w \<Longrightarrow> prefix (trace w) (trace w1) \<Longrightarrow>
    (w', r') = conn_close w1 r c \<Longrightarrow> closes w w' r r' (fd c)"
  by (auto simp: closes_def conn_close_def)

lemma closes_trans: "same_scripts w w1 \<Longrightarrow> closes w1 w' r r' n \<Longrightarrow> closes w w' r r' n"
  by (auto simp: closes_def same_scripts_def intro: prefix_order.trans)

lemma keeps_trans: "same_scripts w w1 \<Longrightarrow> keeps P w1 w' r r' n \<Longrightarrow> keeps P w w' r r' n"
  by (auto simp: keeps_def same_scripts_def intro: prefix_order.trans)

text \<open>The next request of a persistent connection, after its response is out.\<close>

lemma flushed_process:
  assumes f: "flush w c = (Flushed, w1, c1)" and c: "writing_ok c" and st: "sizes_ok (stats w)"
    and p: "conn_process_input w1 root (c1\<lparr>c_state := ST_READING, parser := http_parser_init\<rparr>) = Some (w2, c2)"
  shows "stats w2 = stats w" "armed w2 = armed w" "prefix (trace w) (trace w2)" "prefix (trace w1) (trace w2)" "fd c2 = fd c"
    "c_state c2 \<noteq> ST_WRITING \<Longrightarrow> reading_ok c2"
    "c_state c2 = ST_WRITING \<Longrightarrow> writing_ok (c2\<lparr>phase := RSP_HEAD, head_off := 0\<rparr>) \<and> in_tail c2 - in_head c2 < in_tail c - in_head c"
proof -
  have out: "out_ok c" using c by (simp add: writing_ok_def)
  note fr = flush_frame [OF f out] and sm = flush_same [OF f]
  let ?c = "c1\<lparr>c_state := ST_READING, parser := http_parser_init\<rparr>"
  from flush_wire [OF f out, of "\<lambda>_ _. NUL"] have c1: "phase c1 = RSP_DONE" "out_ok c1" "c_head c1 = None" by auto
  have pre: "c_state ?c = ST_READING" "buffer_ok ?c" "out_ok ?c" "c_head ?c = None" "\<not> p_done (parser ?c)"
    using sm c1 c by (auto simp: buffer_ok_def writing_ok_def out_ok_def head_ok_def http_parser_init_def)
  have st1: "sizes_ok (stats w1)" using st fr(1) by simp
  note ok = process_input_ok [OF p st1 pre]
  show "stats w2 = stats w" "armed w2 = armed w" "prefix (trace w1) (trace w2)" "fd c2 = fd c"
    using fr ok(1,2) by (auto simp: same_scripts_def)
  with fr(3) show "prefix (trace w) (trace w2)" by (auto intro: prefix_order.trans)
  show "c_state c2 \<noteq> ST_WRITING \<Longrightarrow> reading_ok c2" using ok(3,6) by auto
  assume w: "c_state c2 = ST_WRITING"
  then have "writing_ok c2" "out_ok (c2\<lparr>phase := RSP_HEAD, head_off := 0\<rparr>)" using ok(5,6) by auto
  moreover have "in_tail c2 - in_head c2 < in_tail c - in_head c" using process_input_same [OF p] w sm by auto
  ultimately show "writing_ok (c2\<lparr>phase := RSP_HEAD, head_off := 0\<rparr>) \<and> in_tail c2 - in_head c2 < in_tail c - in_head c"
    by (auto simp: writing_ok_def buffer_ok_def)
qed

lemma conn_write_ok:
  assumes "conn_write w r c = Some (w', r')" "writing_ok c" "sizes_ok (stats w)"
  shows "closes w w' r r' (fd c) \<or> keeps conn_ok w w' r r' (fd c)"
  using assms
proof (induction "in_tail c - in_head c" arbitrary: w c rule: less_induct)
  case less
  have out: "out_ok c" using less.prems(2) by (simp add: writing_ok_def)
  show ?case
    using out less.prems(1)
  proof (cases rule: conn_write_cases)
    case (blocked w1 c1)
    note fr = flush_frame [OF blocked(1) out] and sm = flush_same [OF blocked(1)]
    from flush_wire [OF blocked(1) out, of "\<lambda>_ _. NUL"] have "phase c1 \<noteq> RSP_DONE" "out_ok c1" "c_head c1 = c_head c \<or> c_head c1 = None"
      by auto
    with sm less.prems(2) have ok: "conn_ok c1" "awaits c1 = EPOLLOUT"
      by (auto simp: conn_ok_def writing_ok_def buffer_ok_def awaits_def)
    have "armed w' = (armed w)(fd c \<mapsto> awaits c1)" "stats w' = stats w" "prefix (trace w) (trace w')"
      using blocked(2) fr ok(2) by (auto simp: mod_events_def)
    then show ?thesis
      using blocked(3) ok fr(4) unfolding keeps_def store_def by (intro disjI2 exI [of _ c1]) simp
  next
    case (closed e w1 c1)
    note fr = flush_frame [OF closed(1) out]
    from conn_close_closes [OF fr(1-3) closed(2)] fr(4) show ?thesis by simp
  next
    case (idle w1 c1 w2 c2)
    note nx = flushed_process [OF idle(1) less.prems(2,3) idle(3)]
    have "reading_ok c2" using nx(6) idle(4) .
    then show ?thesis
      using idle(5,6) nx(1-5) unfolding keeps_def store_def
      by (intro disjI2 exI [of _ c2]) (auto simp: mod_events_def conn_ok_def reading_ok_def awaits_def)
  next
    case (again w1 c1 w2 c2)
    note nx = flushed_process [OF again(1) less.prems(2,3) again(3)]
    let ?d = "c2\<lparr>phase := RSP_HEAD, head_off := 0\<rparr>"
    have "closes w2 w' r r' (fd ?d) \<or> keeps conn_ok w2 w' r r' (fd ?d)"
      using less.hyps [OF _ again(5)] nx(1,7) again(4) less.prems(3) by simp
    with nx(1-5) show ?thesis by (auto simp: closes_def keeps_def intro: prefix_order.trans)
  qed
qed

definition read_into :: "world \<Rightarrow> world \<Rightarrow> reactor \<Rightarrow> reactor \<Rightarrow> nat \<Rightarrow> bool" where
  "read_into w w' r r' n \<longleftrightarrow> (\<exists>c. stats w' = stats w \<and> prefix (trace w) (trace w') \<and> armed w' = armed w \<and>
     r' = r\<lparr>conns := (conns r)(n \<mapsto> c)\<rparr> \<and> fd c = n \<and> (reading_ok c \<or> writing_ok c))"

lemma compact_ok:
  assumes "reading_ok c"
  shows "reading_ok (compact c)" "in_tail (compact c) = 0" "fd (compact c) = fd c"
  using assms by (auto simp: reading_ok_def compact_def out_ok_def head_ok_def)

lemma fill_ok:
  assumes "reading_ok c" "in_tail c + length bs \<le> BUFFER_SIZE"
  shows "c_state (fill c bs) = ST_READING" "buffer_ok (fill c bs)" "out_ok (fill c bs)" "c_head (fill c bs) = None"
    "\<not> p_done (parser (fill c bs))" "fd (fill c bs) = fd c"
  using assms by (auto simp: reading_ok_def fill_def buffer_ok_def out_ok_def head_ok_def)

text \<open>One round of \<open>conn_read\<close> on an arrival: what fits is parsed, the rest stays in the socket.\<close>

definition left_over :: "string \<Rightarrow> read_result list \<Rightarrow> read_result list" where
  "left_over bs rs = (if BUFFER_SIZE < length bs then RData (drop BUFFER_SIZE bs) # rs else rs)"

lemma left_over_size: "bs \<noteq> [] \<Longrightarrow> script_size (left_over bs rs) < script_size (RData bs # rs)"
  by (auto simp: left_over_def)

lemma conn_read_data:
  assumes "reading_ok c" "reads w = RData bs # rs" "bs \<noteq> []"
  shows "conn_read w r c =
    (case conn_process_input (w\<lparr>reads := left_over bs rs\<rparr>) (doc_root r) (fill (compact c) (take BUFFER_SIZE bs)) of
       None \<Rightarrow> None | Some (w1, c1) \<Rightarrow> if c_state c1 = ST_WRITING then Some (w1, store r c1) else conn_read w1 r c1)"
proof (cases "BUFFER_SIZE < length bs")
  case True
  then have "min (length bs) BUFFER_SIZE = BUFFER_SIZE" by simp
  with True assms(2,3) compact_ok(2) [OF assms(1)] show ?thesis
    by (subst conn_read.simps) (simp add: Let_def left_over_def)
next
  case False
  then have "min (length bs) BUFFER_SIZE = length bs" "take BUFFER_SIZE bs = bs" by simp_all
  with False assms(2,3) compact_ok(2) [OF assms(1)] show ?thesis
    by (subst conn_read.simps) (simp add: Let_def left_over_def)
qed

lemma read_into_store:
  "stats w1 = stats w \<Longrightarrow> prefix (trace w) (trace w1) \<Longrightarrow> armed w1 = armed w \<Longrightarrow> reading_ok c \<or> writing_ok c \<Longrightarrow>
     read_into w w1 r (store r c) (fd c)"
  by (auto simp: read_into_def store_def)

lemma conn_read_ok:
  assumes "conn_read w r c = Some (w', r')" "reading_ok c" "sizes_ok (stats w)"
  shows "closes w w' r r' (fd c) \<or> read_into w w' r r' (fd c)"
  using assms
proof (induction "script_size (reads w)" arbitrary: w c rule: less_induct)
  case less
  let ?c = "compact c"
  note cp = compact_ok [OF less.prems(2)]
  note run = less.prems(1) [unfolded conn_read.simps [of w r c] Let_def]
  show ?case
  proof (cases "reads w")
    case Nil
    with run cp show ?thesis using read_into_store [of w w ?c r] by auto
  next
    case (Cons x rs)
    show ?thesis
    proof (cases x)
      case RAgain
      with run Cons cp show ?thesis using read_into_store [of "w\<lparr>reads := rs\<rparr>" w ?c r] by auto
    next
      case RIntr
      with run Cons cp less.hyps [of "w\<lparr>reads := rs\<rparr>" ?c] less.prems(3) show ?thesis
        by (auto simp: closes_def read_into_def)
    next
      case RError
      with run Cons cp show ?thesis using conn_close_closes [of "w\<lparr>reads := rs\<rparr>" w w' r' r ?c] by auto
    next
      case (RData bs)
      show ?thesis
      proof (cases "bs = []")
        case True
        with RData run Cons cp show ?thesis using conn_close_closes [of "w\<lparr>reads := rs\<rparr>" w w' r' r ?c] by auto
      next
        case False
        let ?w = "w\<lparr>reads := left_over bs rs\<rparr>" and ?d = "fill ?c (take BUFFER_SIZE bs)"
        from less.prems(1) obtain w1 c1 where p: "conn_process_input ?w (doc_root r) ?d = Some (w1, c1)"
          and nx: "(if c_state c1 = ST_WRITING then Some (w1, store r c1) else conn_read w1 r c1) = Some (w', r')"
          unfolding conn_read_data [OF less.prems(2) Cons [unfolded RData] False] by (auto split: option.splits)
        have st: "sizes_ok (stats ?w)" using less.prems(3) by simp
        have len: "in_tail ?c + length (take BUFFER_SIZE bs) \<le> BUFFER_SIZE" using cp(2) by simp
        note ok = process_input_ok [OF p st fill_ok(1-5) [OF cp(1) len]]
        have fd1: "fd c1 = fd c" using ok(1) fill_ok(6) [OF cp(1) len] cp(3) by simp
        have s1: "stats w1 = stats w" "armed w1 = armed w" "prefix (trace w) (trace w1)" "reads w1 = left_over bs rs"
          using ok(2) by (auto simp: same_scripts_def)
        show ?thesis
        proof (cases "c_state c1 = ST_WRITING")
          case True
          with nx ok(6) have "w' = w1" "r' = store r c1" "writing_ok c1" by auto
          with s1 fd1 show ?thesis using read_into_store [of w1 w c1 r] by auto
        next
          case False': False
          with nx ok(3,6) have rd: "conn_read w1 r c1 = Some (w', r')" "reading_ok c1" by auto
          have "script_size (reads w1) < script_size (reads w)" using s1(4) Cons RData left_over_size [OF False] by simp
          from less.hyps [OF this rd] less.prems(3) s1 fd1 show ?thesis
            by (auto simp: closes_def read_into_def intro: prefix_order.trans)
        qed
      qed
    qed
  qed
qed

section \<open>Invariant of the reactor\<close>

definition reactor_ok :: "world \<times> reactor \<Rightarrow> bool" where
  "reactor_ok s \<longleftrightarrow> (let (w, r) = s in
     finite (dom (conns r)) \<and> active_conns r = int (card (dom (conns r))) \<and> sizes_ok (stats w) \<and>
     (\<forall>n c. conns r n = Some c \<longrightarrow> fd c = n \<and> int n < CONN_MAX \<and> conn_ok c \<and> armed w n = Some (awaits c)))"

lemma reactor_okD:
  assumes "reactor_ok (w, r)" "conns r n = Some c"
  shows "fd c = n" "int n < CONN_MAX" "conn_ok c" "armed w n = Some (awaits c)" "sizes_ok (stats w)"
  using assms by (auto simp: reactor_ok_def)

lemma reactor_ok_closes:
  assumes "reactor_ok (w, r)" "conns r n = Some c" "closes w w' r r' n"
  shows "reactor_ok (w', r')"
proof -
  have n: "n \<in> dom (conns r)" using assms(2) by auto
  have d: "dom ((conns r)(n := None)) = dom (conns r) - {n}" by auto
  have "0 < card (dom (conns r))" using assms(1) n by (auto simp: reactor_ok_def card_gt_0_iff)
  with assms n show ?thesis unfolding closes_def reactor_ok_def
    by (auto simp: d of_nat_diff card_Diff_singleton)
qed

lemma reactor_ok_keeps:
  assumes "reactor_ok (w, r)" "conns r n = Some c" "keeps conn_ok w w' r r' n"
  shows "reactor_ok (w', r')"
proof -
  have "insert n (dom (conns r)) = dom (conns r)" using assms(2) by auto
  with assms show ?thesis unfolding keeps_def reactor_ok_def by (auto split: if_splits)
qed

lemma on_readable_ok:
  assumes "on_readable w r n c = Some (w', r')" "reading_ok c" "fd c = n" "sizes_ok (stats w)" "armed w n = Some EPOLLIN"
  shows "closes w w' r r' n \<or> keeps conn_ok w w' r r' n"
proof -
  obtain w1 r1 where rd: "conn_read w r c = Some (w1, r1)" using assms(1) by (auto simp: on_readable_def split: option.splits)
  from conn_read_ok [OF rd assms(2,4)] assms(3) consider "closes w w1 r r1 n" | "read_into w w1 r r1 n" by blast
  then show ?thesis
  proof cases
    case 1
    then have "conns r1 n = None" by (simp add: closes_def)
    with assms(1) rd 1 show ?thesis by (simp add: on_readable_def)
  next
    case 2
    then obtain c1 where c1: "stats w1 = stats w" "prefix (trace w) (trace w1)" "armed w1 = armed w"
      "r1 = r\<lparr>conns := (conns r)(n \<mapsto> c1)\<rparr>" "fd c1 = n" "reading_ok c1 \<or> writing_ok c1" unfolding read_into_def by blast
    show ?thesis
    proof (cases "c_state c1 = ST_WRITING")
      case True
      then have wr: "conn_write w1 r1 c1 = Some (w', r')" "writing_ok c1"
        using assms(1) rd c1 by (auto simp: on_readable_def reading_ok_def)
      have "sizes_ok (stats w1)" using assms(4) c1(1) by simp
      from conn_write_ok [OF wr this] c1 show ?thesis
        by (auto simp: closes_def keeps_def intro: prefix_order.trans)
    next
      case False
      then have "w' = w1" "r' = r1" "reading_ok c1" using assms(1) rd c1 by (auto simp: on_readable_def writing_ok_def)
      moreover have "awaits c1 = EPOLLIN" using \<open>reading_ok c1\<close> by (simp add: awaits_def reading_ok_def)
      ultimately have "keeps conn_ok w w' r r' n"
        using c1 assms(5) unfolding keeps_def by (intro exI [of _ c1]) (auto simp: conn_ok_def fun_upd_idem)
      then show ?thesis ..
    qed
  qed
qed

text \<open>The kernel reports errors, or what the descriptor is registered for.\<close>

definition expected :: "world \<Rightarrow> ready_event \<Rightarrow> bool" where
  "expected w ev \<longleftrightarrow> (\<forall>e \<in> set (snd ev). e = EPOLLERR \<or> e = EPOLLHUP \<or> armed w (fst ev) = Some e)"

lemma handle_event_ok:
  assumes run: "handle_event w r ev = Some (w', r')" and ok: "reactor_ok (w, r)" and ev: "expected w ev"
  shows "reactor_ok (w', r')"
proof -
  obtain n evs where e: "ev = (n, evs)" by (cases ev) auto
  show ?thesis
  proof (cases "conns r n")
    case None
    with run ok e show ?thesis by (simp add: handle_event_def)
  next
    case (Some c)
    note c = reactor_okD [OF ok Some]
    consider (err) "EPOLLERR \<in> set evs \<or> EPOLLHUP \<in> set evs"
      | (inp) "\<not> (EPOLLERR \<in> set evs \<or> EPOLLHUP \<in> set evs)" "EPOLLIN \<in> set evs"
      | (out) "\<not> (EPOLLERR \<in> set evs \<or> EPOLLHUP \<in> set evs)" "EPOLLIN \<notin> set evs" "EPOLLOUT \<in> set evs"
      | (none) "\<not> (EPOLLERR \<in> set evs \<or> EPOLLHUP \<in> set evs)" "EPOLLIN \<notin> set evs" "EPOLLOUT \<notin> set evs" by blast
    then show ?thesis
    proof cases
      case err
      with run e Some have "(w', r') = conn_close w r c" by (auto simp: handle_event_def)
      from conn_close_closes [OF refl refl prefix_order.refl this] c(1) show ?thesis
        using reactor_ok_closes [OF ok Some] by simp
    next
      case inp
      from ev e c(4) have only: "x = EPOLLERR \<or> x = EPOLLHUP \<or> x = awaits c" if "x \<in> set evs" for x
        using that by (auto simp: expected_def)
      from only [of EPOLLIN] inp c(4) have a: "armed w n = Some EPOLLIN" "EPOLLOUT \<notin> set evs"
        using only [of EPOLLOUT] by auto
      then have "reading_ok c" using c(3,4) by (auto simp: conn_ok_def awaits_def writing_ok_def split: if_splits)
      moreover have "on_readable w r n c = Some (w', r')"
        using run e Some inp a(2) by (auto simp: handle_event_def split: option.splits prod.splits)
      ultimately show ?thesis
        using on_readable_ok [OF _ _ c(1,5) a(1)] reactor_ok_closes [OF ok Some] reactor_ok_keeps [OF ok Some] by blast
    next
      case out
      with ev e c(4) have a: "armed w n = Some EPOLLOUT" by (auto simp: expected_def)
      then have "writing_ok c" using c(3,4) by (auto simp: conn_ok_def awaits_def reading_ok_def split: if_splits)
      moreover have "conn_write w r c = Some (w', r')" using run e Some out by (auto simp: handle_event_def)
      ultimately have "closes w w' r r' n \<or> keeps conn_ok w w' r r' n" using conn_write_ok c(1,5) by blast
      then show ?thesis using reactor_ok_closes [OF ok Some] reactor_ok_keeps [OF ok Some] by blast
    next
      case none
      with run e Some ok show ?thesis by (auto simp: handle_event_def)
    qed
  qed
qed

text \<open>\<open>accept\<close> returns descriptors that are not open.\<close>

definition fresh_fds :: "(nat \<rightharpoonup> conn) \<Rightarrow> int list \<Rightarrow> bool" where
  "fresh_fds cs ns \<longleftrightarrow> distinct (filter (\<lambda>n. 0 \<le> n) ns) \<and> (\<forall>n \<in> set ns. 0 \<le> n \<longrightarrow> cs (nat n) = None)"

lemma new_conn_ok: "conn_ok (new_conn n)" "fd (new_conn n) = n" "awaits (new_conn n) = EPOLLIN"
  by (simp_all add: conn_ok_def reading_ok_def new_conn_def out_ok_def head_ok_def http_parser_init_def awaits_def)

lemma fresh_fds_Cons:
  assumes "fresh_fds cs (n # ns)" "0 \<le> n"
  shows "fresh_fds cs ns" "cs (nat n) = None" "fresh_fds (cs(nat n \<mapsto> c)) ns"
  using assms by (auto simp: fresh_fds_def nat_eq_iff)

lemma reactor_ok_cong: "stats w' = stats w \<Longrightarrow> armed w' = armed w \<Longrightarrow> reactor_ok (w', r) = reactor_ok (w, r)"
  by (simp add: reactor_ok_def)

lemma reactor_ok_emit [simp]: "reactor_ok (emit cs w, r) = reactor_ok (w, r)" "reactor_ok (w\<lparr>accepts := ns\<rparr>, r) = reactor_ok (w, r)"
    "reactor_ok (w\<lparr>allocs := oks\<rparr>, r) = reactor_ok (w, r)" "reactor_ok (w, r\<lparr>stop := b\<rparr>) = reactor_ok (w, r)"
  by (simp_all add: reactor_ok_def emit_def)

lemma reactor_ok_add:
  assumes "reactor_ok (w, r)" "conns r n = None" "int n < CONN_MAX"
  shows "reactor_ok (w\<lparr>armed := (armed w)(n \<mapsto> EPOLLIN)\<rparr>,
    r\<lparr>conns := (conns r)(n \<mapsto> new_conn n), active_conns := active_conns r + 1\<rparr>)"
  using assms new_conn_ok unfolding reactor_ok_def by (auto simp: card_insert_if domIff)

lemma accept_loop_ok:
  assumes "accept_loop ns w r = (w', r')" "reactor_ok (w, r)" "fresh_fds (conns r) ns"
  shows "reactor_ok (w', r')"
  using assms
proof (induction ns arbitrary: w r)
  case Nil
  then show ?case by auto
next
  case (Cons n ns)
  consider (neg) "n < 0" | (big) "0 \<le> n" "CONN_MAX \<le> n" | (oom) "0 \<le> n" "n < CONN_MAX" "allocs w \<noteq> [] \<and> \<not> hd (allocs w)"
    | (ok) "0 \<le> n" "n < CONN_MAX" "\<not> (allocs w \<noteq> [] \<and> \<not> hd (allocs w))" by fastforce
  then show ?case
  proof cases
    case neg
    with Cons.prems show ?thesis by auto
  next
    case big
    with Cons.IH [of "emit [Close n] w" r] Cons.prems fresh_fds_Cons(1) [OF Cons.prems(3)] show ?thesis by simp
  next
    case oom
    let ?w = "emit [Close n] ((emit [Set_Nonblock (nat n)] w)\<lparr>allocs := tl (allocs w)\<rparr>)"
    from oom Cons.IH [of ?w r] Cons.prems fresh_fds_Cons(1) [OF Cons.prems(3)] show ?thesis
      by (simp add: set_nonblocking_def malloc_eq Let_def)
  next
    case ok
    note f = fresh_fds_Cons [OF Cons.prems(3) ok(1)]
    let ?w = "emit [Epoll_Add (nat n) EPOLLIN] ((emit [Set_Nonblock (nat n)] w)\<lparr>allocs := tl (allocs w), armed := (armed w)(nat n \<mapsto> EPOLLIN)\<rparr>)"
    let ?r = "r\<lparr>conns := (conns r)(nat n \<mapsto> new_conn (nat n)), active_conns := active_conns r + 1\<rparr>"
    have "reactor_ok (w\<lparr>armed := (armed w)(nat n \<mapsto> EPOLLIN)\<rparr>, ?r)" using reactor_ok_add [OF Cons.prems(2) f(2)] ok by simp
    then have "reactor_ok (?w, ?r)" by (subst reactor_ok_cong) (simp_all add: emit_def)
    moreover have "accept_loop ns ?w ?r = (w', r')"
      using ok Cons.prems(1) by (auto simp: set_nonblocking_def malloc_eq Let_def emit_def)
    ultimately show ?thesis using Cons.IH [of ?w ?r] f(3) by (simp add: fun_upd_def)
  qed
qed

end
