(* ===== verification/Reactor_Runs.thy ===== *)
theory Reactor_Runs
  imports Reactor "HOL-Library.Multiset"
begin

text \<open>
  The runs of the event loop of \<^verbatim>\<open>src/src/reactor.c\<close>: the states it reaches from
  \<open>reactor_create\<close>, and the properties of the reactor as a whole.
\<close>

section \<open>Runs of the reactor\<close>

text \<open>
  The steps between which the reactor waits: the kernel and the clients change what the next calls
  will return, connections are accepted, an event is dispatched, the wakeup descriptor is read.
\<close>

inductive reactor_step :: "world \<times> reactor \<Rightarrow> world \<times> reactor \<Rightarrow> bool" where
  Environment: "armed w' = armed w \<Longrightarrow> trace w' = trace w \<Longrightarrow> sizes_ok (stats w') \<Longrightarrow> reactor_step (w, r) (w', r)"
| Accept: "fresh_fds (conns r) (accepts w) \<Longrightarrow> reactor_accept w r = (w', r') \<Longrightarrow> reactor_step (w, r) (w', r')"
| Event: "expected w ev \<Longrightarrow> handle_event w r ev = Some (w', r') \<Longrightarrow> reactor_step (w, r) (w', r')"
| Stop: "reactor_step (w, r) (w, r\<lparr>stop := True\<rparr>)"

definition reactor_start :: "world \<times> reactor \<Rightarrow> bool" where
  "reactor_start s \<longleftrightarrow> (\<exists>su w cfg. sizes_ok (stats w) \<and> reactor_create su w cfg = (fst s, Some (snd s)))"

lemma reactor_create_ok:
  "reactor_create su w cfg = (w', Some r) \<Longrightarrow> sizes_ok (stats w) \<Longrightarrow> reactor_ok (w', r) \<and> conns r = Map.empty \<and> \<not> stop r"
proof -
  assume run: "reactor_create su w cfg = (w', Some r)" and "sizes_ok (stats w)"
  obtain k where "cfg = Some k" using run by (cases cfg) (simp_all add: reactor_create_def)
  moreover have "su_reactor su" "su_conns su" "su_strdup su" "0 \<le> su_epoll su" "0 \<le> su_eventfd su" "0 \<le> su_socket su"
    "su_bind su" "su_listen su"
    using run calculation by (simp_all add: reactor_create_def Let_def split: if_splits)
  ultimately show ?thesis
    using run \<open>sizes_ok (stats w)\<close> by (simp add: reactor_create_def Let_def not_less emit_def reactor_ok_def) clarsimp
qed

interpretation rt: invariant_system reactor_start reactor_step reactor_ok
proof unfold_locales
  fix s assume "reactor_start s"
  then show "reactor_ok s" using reactor_create_ok by (cases s) (auto simp: reactor_start_def)
next
  fix s t assume "reactor_ok s" "reactor_step s t"
  from this(2,1) show "reactor_ok t"
  proof cases
    case (Environment w' w r)
    with \<open>reactor_ok s\<close> show ?thesis by (simp add: reactor_ok_def)
  next
    case (Accept r w w' r')
    with \<open>reactor_ok s\<close> accept_loop_ok show ?thesis by (auto simp: reactor_accept_def)
  next
    case (Event w ev r w' r')
    with \<open>reactor_ok s\<close> handle_event_ok show ?thesis by auto
  next
    case (Stop w r)
    with \<open>reactor_ok s\<close> show ?thesis by simp
  qed
qed

text \<open>
  What the loop may assume of a batch of events: each event is one the descriptor is registered
  for when its turn comes, and accepted descriptors are new.
\<close>

fun batch_expected :: "ready_event list \<Rightarrow> world \<Rightarrow> reactor \<Rightarrow> bool" where
  "batch_expected [] w r = True"
| "batch_expected (ev # evs) w r =
     (if fst ev = wakeup_fd r then True
      else if fst ev = listen_fd r then
        fresh_fds (conns r) (accepts w) \<and> (let (w, r) = reactor_accept w r in batch_expected evs w r)
      else
        expected w ev \<and> (case handle_event w r ev of None \<Rightarrow> True | Some (w, r) \<Rightarrow> batch_expected evs w r))"

fun waits_expected :: "wait_result list \<Rightarrow> world \<Rightarrow> reactor \<Rightarrow> bool" where
  "waits_expected [] w r = True"
| "waits_expected (x # xs) w r =
     (if stop r then True
      else case x of
        Wait_Intr \<Rightarrow> waits_expected xs w r
      | Wait_Error \<Rightarrow> True
      | Ready evs \<Rightarrow> batch_expected evs w r \<and>
          (case run_batch evs w r of None \<Rightarrow> True | Some (w, r) \<Rightarrow> waits_expected xs w r))"

lemma run_batch_steps:
  assumes "run_batch evs w r = Some (w', r')" "batch_expected evs w r"
  shows "reactor_step\<^sup>*\<^sup>* (w, r) (w', r')"
  using assms
proof (induction evs arbitrary: w r)
  case (Cons ev evs)
  consider (wake) "fst ev = wakeup_fd r" | (accept) "fst ev \<noteq> wakeup_fd r" "fst ev = listen_fd r"
    | (conn) "fst ev \<noteq> wakeup_fd r" "fst ev \<noteq> listen_fd r" by blast
  then show ?case
  proof cases
    case wake
    with Cons.prems show ?thesis by (auto intro: reactor_step.Stop)
  next
    case accept
    obtain w1 r1 where a: "reactor_accept w r = (w1, r1)" by (cases "reactor_accept w r") auto
    with accept Cons.prems have "reactor_step (w, r) (w1, r1)" by (auto intro: reactor_step.Accept)
    with accept a Cons show ?thesis by (auto intro: converse_rtranclp_into_rtranclp)
  next
    case conn
    with Cons.prems obtain w1 r1 where a: "handle_event w r ev = Some (w1, r1)" by (auto split: option.splits)
    with conn Cons.prems have "reactor_step (w, r) (w1, r1)" by (auto intro: reactor_step.Event)
    with conn a Cons show ?thesis by (auto intro: converse_rtranclp_into_rtranclp)
  qed
qed simp

lemma run_loop_steps:
  assumes "run_loop xs w r = Some (w', r')" "waits_expected xs w r"
  shows "reactor_step\<^sup>*\<^sup>* (w, r) (w', r')"
  using assms
proof (induction xs arbitrary: w r)
  case (Cons x xs)
  show ?case
  proof (cases "stop r")
    case False
    show ?thesis
    proof (cases x)
      case (Ready evs)
      with False Cons.prems obtain w1 r1 where b: "run_batch evs w r = Some (w1, r1)" by (auto split: option.splits)
      from b Ready False Cons.prems have "reactor_step\<^sup>*\<^sup>* (w, r) (w1, r1)" by (auto intro: run_batch_steps)
      moreover have "reactor_step\<^sup>*\<^sup>* (w1, r1) (w', r')" using b Ready False Cons by auto
      ultimately show ?thesis by (rule rtranclp_trans)
    qed (use False Cons in auto)
  qed (use Cons.prems in auto)
qed simp

lemma malloc_step: "reactor_ok (w, r) \<Longrightarrow> reactor_step (w, r) (snd (malloc w), r)"
  by (rule reactor_step.Environment) (simp_all add: malloc_eq reactor_ok_def)

section \<open>A whole response\<close>

text \<open>The loop over the input in one step, from what the parser makes of the whole of it.\<close>

definition answer :: "world \<Rightarrow> string \<Rightarrow> conn \<Rightarrow> http_parse_status \<Rightarrow> (world \<times> conn) option" where
  "answer w root c st = map_option (\<lambda>(w, c). (w, c\<lparr>c_state := ST_WRITING\<rparr>))
     (if st = HTTP_PARSE_DONE then build_response w root c else build_error_response w c 400)"

lemma process_input_answer:
  assumes "c_state c = ST_READING" "in_head c \<le> in_tail c" "\<not> p_done (parser c)"
    and "http_parser_feed (parser c) (req c) (input c) = Some (st, p, q)"
  shows "\<exists>k. in_head c \<le> k \<and> k \<le> in_tail c \<and> http_parser_feed (parser c) (req c) (map (inbuf c) [in_head c..<k]) = Some (st, p, q) \<and>
    conn_process_input w root c =
      (if st = HTTP_PARSE_INCOMPLETE then Some (w, c\<lparr>parser := p, req := q, in_head := in_tail c\<rparr>)
       else answer w root (c\<lparr>parser := p, req := q, in_head := k\<rparr>) st)"
  using assms
proof (induction "in_tail c - in_head c" arbitrary: c)
  case 0
  then have "input c = []" "in_head c = in_tail c" by (auto simp: input_Nil)
  with 0 show ?case by (subst conn_process_input.simps) (auto simp: http_parser_feed_def intro!: exI [of _ "in_tail c"])
next
  case (Suc n)
  then have lt: "in_head c < in_tail c" by simp
  let ?b = "inbuf c (in_head c)" and ?t = "input (c\<lparr>in_head := in_head c + 1\<rparr>)"
  have app: "http_parser_feed (parser c) (req c) (?b # ys) = (case http_parser_feed (parser c) (req c) [?b] of None \<Rightarrow> None
      | Some (st, p, q) \<Rightarrow> if st = HTTP_PARSE_INCOMPLETE then http_parser_feed p q ys else Some (st, p, q))" for ys
    using hp.feed_append [of "(parser c, req c)" "[?b]" ys] by (simp split: option.splits prod.splits)
  note all = app [of ?t, folded input_Cons [OF lt]]
  from Suc.prems(4) obtain st1 p1 q1 where one: "http_parser_feed (parser c) (req c) [?b] = Some (st1, p1, q1)"
    by (auto simp: all split: option.splits)
  let ?c = "c\<lparr>parser := p1, req := q1, in_head := in_head c + 1\<rparr>"
  show ?case
  proof (cases "st1 = HTTP_PARSE_INCOMPLETE")
    case True
    have feed: "http_parser_feed p1 q1 (input ?c) = Some (st, p, q)"
      using Suc.prems(4) one True by (simp add: all) (simp add: input_def)
    have nd: "\<not> p_done p1" using feed_one(1) [OF Suc.prems(3)] one True by auto
    have "n = in_tail ?c - in_head ?c" using Suc.hyps(2) by simp
    from Suc.hyps(1) [OF this] Suc.prems(1) lt nd feed obtain k where
      k: "in_head c + 1 \<le> k" "k \<le> in_tail c" "http_parser_feed p1 q1 (map (inbuf c) [in_head c + 1..<k]) = Some (st, p, q)"
      "conn_process_input w root ?c = (if st = HTTP_PARSE_INCOMPLETE then Some (w, ?c\<lparr>parser := p, req := q, in_head := in_tail c\<rparr>)
         else answer w root (?c\<lparr>parser := p, req := q, in_head := k\<rparr>) st)" by auto
    have "map (inbuf c) [in_head c..<k] = ?b # map (inbuf c) [in_head c + 1..<k]" using k(1) by (simp add: upt_conv_Cons)
    with k one True lt Suc.prems(1) show ?thesis
      using app [of "map (inbuf c) [in_head c + 1..<k]"]
      by (intro exI [of _ k]) (subst conn_process_input.simps, auto simp: Let_def)
  next
    case False
    then have eq: "st = st1" "p = p1" "q = q1" using Suc.prems(4) one by (auto simp: all)
    with False one lt Suc.prems(1) show ?thesis
      by (intro exI [of _ "in_head c + 1"], subst conn_process_input.simps)
        (cases st1; auto simp: Let_def answer_def map_option_case split: option.splits prod.splits)
  qed
qed

lemma feed_final: "http_parser_feed p r xs = Some (st, s) \<Longrightarrow> st \<noteq> HTTP_PARSE_INCOMPLETE \<Longrightarrow> http_parser_feed p r (xs @ ys) = Some (st, s)"
  using hp.feed_append [of "(p, r)" xs ys] by simp

lemma feed_more: "http_parser_feed p r xs = Some (HTTP_PARSE_INCOMPLETE, p', r') \<Longrightarrow> http_parser_feed p r (xs @ ys) = http_parser_feed p' r' ys"
  using hp.feed_append [of "(p, r)" xs ys] by simp

text \<open>No shorter input already decides the request.\<close>

definition decided_by :: "http_parser \<Rightarrow> http_request \<Rightarrow> string \<Rightarrow> http_parse_status \<Rightarrow> http_parser \<Rightarrow> http_request \<Rightarrow> bool" where
  "decided_by p0 q0 bs st p q \<longleftrightarrow> http_parser_feed p0 q0 bs = Some (st, p, q) \<and> st \<noteq> HTTP_PARSE_INCOMPLETE \<and> bs \<noteq> [] \<and>
     (\<exists>p' q'. http_parser_feed p0 q0 (butlast bs) = Some (HTTP_PARSE_INCOMPLETE, p', q'))"

lemma decided_by_split:
  assumes d: "decided_by p0 q0 (xs @ ys) st p q" and nd: "\<not> p_done p0"
  obtains (all) "ys = []" "decided_by p0 q0 xs st p q"
  | (part) p1 q1 where "http_parser_feed p0 q0 xs = Some (HTTP_PARSE_INCOMPLETE, p1, q1)" "decided_by p1 q1 ys st p q"
proof (cases "ys = []")
  case True
  with d show ?thesis by (auto intro: all)
next
  case False
  then have bl: "butlast (xs @ ys) = xs @ butlast ys" by (simp add: butlast_append)
  with d obtain p' q' where b: "http_parser_feed p0 q0 (xs @ butlast ys) = Some (HTTP_PARSE_INCOMPLETE, p', q')"
    by (auto simp: decided_by_def)
  then obtain s1 where f: "http_parser_feed p0 q0 xs = Some s1"
    using hp.feed_append [of "(p0, q0)" xs "butlast ys"] by (auto split: option.splits)
  obtain st1 p1 q1 where s1: "s1 = (st1, p1, q1)" by (cases s1) auto
  have "st1 = HTTP_PARSE_INCOMPLETE" using feed_final [of p0 q0 xs st1 "(p1, q1)" "butlast ys"] f s1 b by auto
  with f s1 d b bl False show ?thesis
    by (intro part [of p1 q1]) (auto simp: decided_by_def feed_more)
qed

text \<open>Input that the parser accepts or rejects has a first part that decides it.\<close>

lemma feed_decided:
  assumes "http_parser_feed p0 q0 xs = Some (st, p, q)" "st \<noteq> HTTP_PARSE_INCOMPLETE" "\<not> p_done p0"
  shows "\<exists>ys zs. xs = ys @ zs \<and> decided_by p0 q0 ys st p q"
  using assms(1)
proof (induction xs rule: rev_induct)
  case Nil
  with assms(2,3) show ?case by (simp add: http_parser_feed_def)
next
  case (snoc x xs)
  then obtain st1 p1 q1 where f: "http_parser_feed p0 q0 xs = Some (st1, p1, q1)"
    using hp.feed_append [of "(p0, q0)" xs "[x]"] by (auto split: option.splits)
  show ?case
  proof (cases "st1 = HTTP_PARSE_INCOMPLETE")
    case True
    with f snoc.prems assms(2) show ?thesis by (intro exI [of _ "xs @ [x]"] exI [of _ "[]"]) (simp add: decided_by_def)
  next
    case False
    with feed_final [OF f False, of "[x]"] snoc f show ?thesis by (metis append.assoc option.inject)
  qed
qed

lemma process_input_decided:
  assumes "c_state c = ST_READING" "\<not> p_done (parser c)" "input c = bs @ rest" "decided_by (parser c) (req c) bs st p q"
  shows "conn_process_input w root c = answer w root (c\<lparr>parser := p, req := q, in_head := in_head c + length bs\<rparr>) st"
  using assms
proof (induction bs arbitrary: c)
  case Nil
  then show ?case by (simp add: decided_by_def)
next
  case (Cons b bs)
  have lt: "in_head c < in_tail c" using Cons.prems(3) input_Nil [of c] by auto
  then have b: "inbuf c (in_head c) = b" and rest: "input (c\<lparr>in_head := in_head c + 1\<rparr>) = bs @ rest"
    using Cons.prems(3) input_Cons [of c] by auto
  have "decided_by (parser c) (req c) ([b] @ bs) st p q" using Cons.prems(4) by simp
  from this Cons.prems(2) show ?case
  proof (cases rule: decided_by_split)
    case all
    then have "http_parser_feed (parser c) (req c) [b] = Some (st, p, q)" "st \<noteq> HTTP_PARSE_INCOMPLETE" by (auto simp: decided_by_def)
    with all(1) lt b Cons.prems(1) show ?thesis
      by (subst conn_process_input.simps) (cases st; auto simp: Let_def answer_def map_option_case split: option.splits prod.splits)
  next
    case (part p1 q1)
    let ?c = "c\<lparr>parser := p1, req := q1, in_head := in_head c + 1\<rparr>"
    have "\<not> p_done p1" using feed_one(1) [OF Cons.prems(2) part(1)] .
    then have "conn_process_input w root ?c = answer w root (?c\<lparr>parser := p, req := q, in_head := in_head ?c + length bs\<rparr>) st"
      using Cons.IH [of ?c] Cons.prems(1) rest part(2) by (simp add: input_def)
    moreover have "conn_process_input w root c = conn_process_input w root ?c"
      using lt b part(1) Cons.prems(1) by (subst conn_process_input.simps) (simp add: Let_def)
    ultimately show ?thesis by simp
  qed
qed

lemma input_fill: "in_head c = 0 \<Longrightarrow> in_tail c = 0 \<Longrightarrow> input (fill c bs) = bs"
  by (intro nth_equalityI) (auto simp: input_def fill_def)

lemma input_drop: "input (c\<lparr>in_head := in_head c + k\<rparr>) = drop k (input c)"
  by (simp add: input_def drop_map drop_upt)

lemma script_size_append: "script_size (xs @ ys) = script_size xs + script_size ys"
  by (induction xs rule: script_size.induct) auto

lemma feed_loop_more: "feed_loop p r cs = Some (HTTP_PARSE_INCOMPLETE, p', r') \<Longrightarrow> \<not> p_done p \<Longrightarrow> \<not> p_done p'"
  by (induction cs arbitrary: p r) (auto split: option.splits if_splits, metis parser_step_more)

text \<open>One arrival in the socket: its first part goes into the buffer, what does not fit stays.\<close>

definition arrived :: "conn \<Rightarrow> string \<Rightarrow> conn" where
  "arrived c b = fill (compact c) (take BUFFER_SIZE b)"

lemma arrived_ok:
  assumes "reading_ok c"
  shows "input (arrived c b) = take BUFFER_SIZE b" "parser (arrived c b) = parser c" "req (arrived c b) = req c" "fd (arrived c b) = fd c"
    "c_state (arrived c b) = ST_READING" "\<not> p_done (parser (arrived c b))" "buffer_ok (arrived c b)" "c_head (arrived c b) = None"
    "in_head (arrived c b) \<le> in_tail (arrived c b)" "out_ok (arrived c b)"
proof -
  note cp = compact_ok [OF assms]
  have h0: "in_head (compact c) = 0" "parser (compact c) = parser c" "req (compact c) = req c"
    using assms by (auto simp: compact_def reading_ok_def)
  have "in_tail (compact c) + length (take BUFFER_SIZE b) \<le> BUFFER_SIZE" using cp(2) by simp
  note fo = fill_ok [OF cp(1) this]
  show "input (arrived c b) = take BUFFER_SIZE b" unfolding arrived_def by (rule input_fill [OF h0(1) cp(2)])
  show "parser (arrived c b) = parser c" "req (arrived c b) = req c" "fd (arrived c b) = fd c" using h0 fo(6) cp(3) by (simp_all add: arrived_def fill_def)
  show "c_state (arrived c b) = ST_READING" "buffer_ok (arrived c b)" "c_head (arrived c b) = None" "out_ok (arrived c b)"
    using fo by (simp_all add: arrived_def)
  then show "in_head (arrived c b) \<le> in_tail (arrived c b)" by (simp add: buffer_ok_def)
  show "\<not> p_done (parser (arrived c b))" using assms h0 by (simp add: arrived_def fill_def reading_ok_def)
qed

lemma conn_read_arrived:
  assumes "reading_ok c" "reads w = RData b # rs" "b \<noteq> []"
  shows "conn_read w r c = (case conn_process_input (w\<lparr>reads := left_over b rs\<rparr>) (doc_root r) (arrived c b) of
    None \<Rightarrow> None | Some (w1, c1) \<Rightarrow> if c_state c1 = ST_WRITING then Some (w1, store r c1) else conn_read w1 r c1)"
  unfolding arrived_def by (rule conn_read_data [OF assms])

text \<open>The arrival decides the request.\<close>

lemma read_decides:
  assumes "reading_ok c" "reads w = RData b # rs" "b \<noteq> []" "take BUFFER_SIZE b = bs @ rest" "decided_by (parser c) (req c) bs st p q"
  obtains c1 where
    "conn_read w r c = map_option (\<lambda>(w, c). (w, store r c)) (answer (w\<lparr>reads := left_over b rs\<rparr>) (doc_root r) c1 st)"
    "input c1 = rest" "fd c1 = fd c" "parser c1 = p" "req c1 = q" "buffer_ok c1" "c_head c1 = None"
proof -
  let ?d = "arrived c b" and ?w = "w\<lparr>reads := left_over b rs\<rparr>"
  let ?c = "?d\<lparr>parser := p, req := q, in_head := in_head ?d + length bs\<rparr>"
  note d = arrived_ok [OF assms(1), of b]
  have inp: "input ?d = bs @ rest" using d(1) assms(4) by simp
  have "conn_process_input ?w (doc_root r) ?d = answer ?w (doc_root r) ?c st"
    using process_input_decided [OF d(5,6) inp] assms(5) d(2,3) by simp
  then have "conn_read w r c = map_option (\<lambda>(w, c). (w, store r c)) (answer ?w (doc_root r) ?c st)"
    unfolding conn_read_arrived [OF assms(1-3)] by (auto simp: answer_def split: option.splits)
  moreover have "input ?c = rest" using input_drop [of ?d "length bs"] inp by (simp add: input_def)
  moreover have "buffer_ok ?c" using d(7) arg_cong [OF inp, of length] by (auto simp: buffer_ok_def input_def)
  ultimately show ?thesis using d(4,8) by (intro that [of ?c]) simp_all
qed

text \<open>The arrival leaves it open.\<close>

lemma read_continues:
  assumes "reading_ok c" "reads w = RData b # rs" "b \<noteq> []"
    and "http_parser_feed (parser c) (req c) (take BUFFER_SIZE b) = Some (HTTP_PARSE_INCOMPLETE, p, q)"
  obtains c1 where "conn_read w r c = conn_read (w\<lparr>reads := left_over b rs\<rparr>) r c1" "reading_ok c1" "fd c1 = fd c" "parser c1 = p" "req c1 = q"
proof -
  let ?d = "arrived c b" and ?w = "w\<lparr>reads := left_over b rs\<rparr>"
  let ?c = "?d\<lparr>parser := p, req := q, in_head := in_tail ?d\<rparr>"
  note d = arrived_ok [OF assms(1), of b]
  have "http_parser_feed (parser ?d) (req ?d) (input ?d) = Some (HTTP_PARSE_INCOMPLETE, p, q)" using assms(4) d(1-3) by simp
  from process_input_answer [OF d(5,9,6) this, of ?w "doc_root r"]
  have "conn_process_input ?w (doc_root r) ?d = Some (?w, ?c)" by auto
  then have "conn_read w r c = conn_read ?w r ?c" using d(5) by (simp add: conn_read_arrived [OF assms(1-3)])
  moreover have "\<not> p_done p" using assms(1,4) feed_loop_more [of "parser c" "req c" "take BUFFER_SIZE b" p q]
    by (simp add: http_parser_feed_def reading_ok_def)
  then have "reading_ok ?c" using d(5,7,8,10) by (auto simp: reading_ok_def buffer_ok_def out_ok_def head_ok_def)
  ultimately show ?thesis using d(4) by (intro that [of ?c]) simp_all
qed

text \<open>The pieces in the socket behind an arrival.\<close>

definition pieces_left :: "string \<Rightarrow> string list \<Rightarrow> string list" where
  "pieces_left b cs = (if BUFFER_SIZE < length b then drop BUFFER_SIZE b # cs else cs)"

lemma pieces_left:
  "left_over b (map RData cs @ rs) = map RData (pieces_left b cs) @ rs" "concat (b # cs) = take BUFFER_SIZE b @ concat (pieces_left b cs)"
  "\<forall>x \<in> set cs. x \<noteq> [] \<Longrightarrow> \<forall>x \<in> set (pieces_left b cs). x \<noteq> []" "length b \<le> BUFFER_SIZE \<Longrightarrow> pieces_left b cs = cs"
  by (auto simp: left_over_def pieces_left_def simp flip: append_assoc)

text \<open>
  Reading bytes that decide a request and arrive in any number of pieces; what comes behind them stays in
  the buffer and in the socket.
\<close>

lemma conn_read_decided:
  assumes "reading_ok c" "reads w = map RData chunks @ rs" "\<forall>b \<in> set chunks. b \<noteq> []"
    and "decided_by (parser c) (req c) bs st p q" "concat chunks = bs @ extra"
  shows "\<exists>c1 ms. conn_read w r c = map_option (\<lambda>(w, c). (w, store r c)) (answer (w\<lparr>reads := map RData ms @ rs\<rparr>) (doc_root r) c1 st) \<and>
    (\<forall>b \<in> set ms. b \<noteq> []) \<and> (list_all (\<lambda>b. length b \<le> BUFFER_SIZE) chunks \<longrightarrow> suffix ms chunks) \<and>
    input c1 @ concat ms = extra \<and> fd c1 = fd c \<and> parser c1 = p \<and> req c1 = q \<and> buffer_ok c1 \<and> c_head c1 = None"
  using assms
proof (induction "script_size (reads w)" arbitrary: w c chunks bs rule: less_induct)
  case less
  have "chunks \<noteq> []" using less.prems(4,5) by (auto simp: decided_by_def)
  then obtain b cs where ch: "chunks = b # cs" by (cases chunks) auto
  have ne: "b \<noteq> []" "\<forall>x \<in> set (pieces_left b cs). x \<noteq> []" using less.prems(3) ch pieces_left(3) [of cs b] by simp_all
  have rd: "reads w = RData b # map RData cs @ rs" using less.prems(2) ch by simp
  have nd: "\<not> p_done (parser c)" using less.prems(1) by (auto simp: reading_ok_def)
  have fits: "list_all (\<lambda>b. length b \<le> BUFFER_SIZE) chunks \<longrightarrow> pieces_left b cs = cs" by (simp add: ch pieces_left(4))
  have "take BUFFER_SIZE b @ concat (pieces_left b cs) = bs @ extra" using less.prems(5) ch pieces_left(2) by metis
  then consider (all) rest where "take BUFFER_SIZE b = bs @ rest" "rest @ concat (pieces_left b cs) = extra"
    | (part) t where "bs = take BUFFER_SIZE b @ t" "t \<noteq> []" "concat (pieces_left b cs) = t @ extra"
    by (auto simp: append_eq_append_conv2) (metis append_Nil append_Nil2)
  then show ?case
  proof cases
    case (all rest)
    from read_decides [OF less.prems(1) rd ne(1) all(1) less.prems(4), of r] obtain c1 where
      "conn_read w r c = map_option (\<lambda>(w, c). (w, store r c)) (answer (w\<lparr>reads := map RData (pieces_left b cs) @ rs\<rparr>) (doc_root r) c1 st)"
      "input c1 = rest" "fd c1 = fd c" "parser c1 = p" "req c1 = q" "buffer_ok c1" "c_head c1 = None" unfolding pieces_left(1) by metis
    with all(2) ne(2) fits ch show ?thesis by (intro exI [of _ c1] exI [of _ "pieces_left b cs"]) (simp add: suffix_ConsI)
  next
    case (part t)
    from less.prems(4) part(1) have "decided_by (parser c) (req c) (take BUFFER_SIZE b @ t) st p q" by simp
    from this nd obtain p1 q1 where d: "http_parser_feed (parser c) (req c) (take BUFFER_SIZE b) = Some (HTTP_PARSE_INCOMPLETE, p1, q1)"
      "decided_by p1 q1 t st p q" using part(2) by (cases rule: decided_by_split) auto
    let ?w = "w\<lparr>reads := map RData (pieces_left b cs) @ rs\<rparr>"
    from read_continues [OF less.prems(1) rd ne(1) d(1), of r] obtain c1 where
      c1: "conn_read w r c = conn_read ?w r c1" "reading_ok c1" "fd c1 = fd c" "parser c1 = p1" "req c1 = q1" unfolding pieces_left(1) by metis
    have "script_size (reads ?w) < script_size (reads w)" using rd left_over_size [OF ne(1)] by (simp flip: pieces_left(1))
    from less.hyps [OF this c1(2) _ ne(2), of t] d(2) c1(4,5) part(3) obtain c2 ms where
      "conn_read ?w r c1 = map_option (\<lambda>(w, c). (w, store r c)) (answer (w\<lparr>reads := map RData ms @ rs\<rparr>) (doc_root r) c2 st)"
      "\<forall>b \<in> set ms. b \<noteq> []" "list_all (\<lambda>b. length b \<le> BUFFER_SIZE) (pieces_left b cs) \<longrightarrow> suffix ms (pieces_left b cs)"
      "input c2 @ concat ms = extra" "fd c2 = fd c1" "parser c2 = p" "req c2 = q" "buffer_ok c2" "c_head c2 = None" by auto
    with c1(1,3) fits ch show ?thesis by (intro exI [of _ c2] exI [of _ ms]) (auto intro: suffix_ConsI)
  qed
qed

text \<open>Reading bytes that leave the request open goes on to what follows them.\<close>

lemma conn_read_more:
  assumes "reading_ok c" "reads w = map RData chunks @ rs" "\<forall>b \<in> set chunks. b \<noteq> []"
    and "http_parser_feed (parser c) (req c) (concat chunks) = Some (HTTP_PARSE_INCOMPLETE, p, q)"
  shows "\<exists>c1. conn_read w r c = conn_read (w\<lparr>reads := rs\<rparr>) r c1 \<and> reading_ok c1 \<and> fd c1 = fd c \<and> parser c1 = p \<and> req c1 = q"
  using assms
proof (induction "script_size (reads w)" arbitrary: w c chunks rule: less_induct)
  case less
  have nd: "\<not> p_done (parser c)" using less.prems(1) by (auto simp: reading_ok_def)
  show ?case
  proof (cases chunks)
    case Nil
    have "w\<lparr>reads := rs\<rparr> = w" using less.prems(2) Nil by simp
    with less.prems(1,4) Nil nd show ?thesis by (intro exI [of _ c]) (simp add: http_parser_feed_def)
  next
    case (Cons b cs)
    have ne: "b \<noteq> []" "\<forall>x \<in> set (pieces_left b cs). x \<noteq> []" using less.prems(3) Cons pieces_left(3) [of cs b] by simp_all
    have rd: "reads w = RData b # map RData cs @ rs" using less.prems(2) Cons by simp
    have all: "http_parser_feed (parser c) (req c) (take BUFFER_SIZE b @ concat (pieces_left b cs)) = Some (HTTP_PARSE_INCOMPLETE, p, q)"
      using less.prems(4) Cons pieces_left(2) by metis
    then obtain p1 q1 where f: "http_parser_feed (parser c) (req c) (take BUFFER_SIZE b) = Some (HTTP_PARSE_INCOMPLETE, p1, q1)"
      using hp.feed_append [of "(parser c, req c)" "take BUFFER_SIZE b" "concat (pieces_left b cs)"] by (auto split: option.splits if_splits prod.splits)
    let ?w = "w\<lparr>reads := map RData (pieces_left b cs) @ rs\<rparr>"
    from read_continues [OF less.prems(1) rd ne(1) f, of r] obtain c1 where
      c1: "conn_read w r c = conn_read ?w r c1" "reading_ok c1" "fd c1 = fd c" "parser c1 = p1" "req c1 = q1" unfolding pieces_left(1) by metis
    have "script_size (reads ?w) < script_size (reads w)" using rd left_over_size [OF ne(1)] by (simp flip: pieces_left(1))
    from less.hyps [OF this c1(2) _ ne(2)] all feed_more [OF f] c1 show ?thesis by auto
  qed
qed

lemma conn_read_answer:
  assumes "reading_ok c" "reads w = map RData chunks @ rs" "\<forall>b \<in> set chunks. b \<noteq> []"
    and "decided_by (parser c) (req c) (concat chunks) st p q"
  shows "\<exists>c1. conn_read w r c = map_option (\<lambda>(w, c). (w, store r c)) (answer (w\<lparr>reads := rs\<rparr>) (doc_root r) c1 st) \<and>
    fd c1 = fd c \<and> parser c1 = p \<and> req c1 = q \<and> input c1 = []"
proof -
  from conn_read_decided [OF assms(1-4), of "[]" r] obtain c1 ms where
    c1: "conn_read w r c = map_option (\<lambda>(w, c). (w, store r c)) (answer (w\<lparr>reads := map RData ms @ rs\<rparr>) (doc_root r) c1 st)"
      "\<forall>b \<in> set ms. b \<noteq> []" "input c1 @ concat ms = []" "fd c1 = fd c" "parser c1 = p" "req c1 = q" by auto
  then have "ms = []" by (cases ms) auto
  with c1 show ?thesis by auto
qed

text \<open>The bytes of a reply; \<open>ffd\<close> is the descriptor the file was opened under.\<close>

fun reply_bytes :: "(int \<Rightarrow> nat \<Rightarrow> char) \<Rightarrow> int \<Rightarrow> bool \<Rightarrow> reply \<Rightarrow> string" where
  "reply_bytes content ffd ka (Page code) = head_text code ''text/plain'' (length (page_body code)) ka @ page_body code"
| "reply_bytes content ffd ka (Send_File p sz) = head_text 200 (reactor_mime_type p) sz ka @ map (content ffd) [0..<sz]"
| "reply_bytes content ffd ka (File_Head p sz) = head_text 200 (reactor_mime_type p) sz ka"

lemma pending_state [simp]: "pending content (c\<lparr>c_state := s\<rparr>) = pending content c" "out_ok (c\<lparr>c_state := s\<rparr>) = out_ok c"
  by (auto simp: pending_def file_part_def head_bytes_def out_ok_def head_ok_def split: resp_phase.splits)

lemma ready_pending:
  assumes "ready c ffd rep" "phase c = RSP_HEAD" "head_off c = 0" "head_ok c" "\<forall>p sz. rep = Send_File p sz \<longrightarrow> 0 \<le> ffd"
  shows "pending content c = reply_bytes content ffd (keep_alive c) rep" "out_ok c"
  using assms by (cases rep; auto simp: pending_def file_part_def head_bytes_def out_ok_def)+

lemma head_loop_broken: "head_loop sock h off len ws = (Broken, off', cs, ws') \<Longrightarrow> Failed \<in> set ws \<or> Moved 0 \<in> set ws"
  by (induction ws arbitrary: off cs) (auto split: if_splits io_result.splits prod.splits simp: Let_def min_def)

lemma send_loop_broken: "send_loop sock f off len ss = (Broken, off', cs, ss') \<Longrightarrow> Failed \<in> set ss"
  by (induction ss arbitrary: off cs) (auto split: if_splits io_result.splits prod.splits simp: Let_def)

text \<open>A socket that may block or take part of what it is given, but does not fail.\<close>

definition reliable :: "world \<Rightarrow> bool" where
  "reliable w \<longleftrightarrow> Failed \<notin> set (writes w) \<and> Moved 0 \<notin> set (writes w) \<and> Failed \<notin> set (sends w)"

lemma flush_reliable: "flush w c = (Broken, w', c') \<Longrightarrow> \<not> reliable w"
  by (auto simp: flush_def write_head_def write_file_def reliable_def Let_def dest: head_loop_broken send_loop_broken
      split: if_splits prod.splits io_end.splits)

text \<open>What a connection with output and no further input has sent when \<open>conn_write\<close> returns.\<close>

definition sent :: "(int \<Rightarrow> nat \<Rightarrow> char) \<Rightarrow> world \<Rightarrow> nat \<Rightarrow> bool \<Rightarrow> string \<Rightarrow> world \<Rightarrow> reactor \<Rightarrow> string \<Rightarrow> bool" where
  "sent content w n ka out w' r' bytes \<longleftrightarrow>
     (case conns r' n of
        None \<Rightarrow> prefix bytes out \<and> (reliable w \<longrightarrow> \<not> ka \<and> bytes = out)
      | Some c' \<Rightarrow> bytes @ pending content c' = out \<and> armed w' n = Some (awaits c') \<and>
          (c_state c' = ST_READING \<longrightarrow> ka \<and> bytes = out))"

lemma conn_close_wire:
  obtains w' r' ds where "conn_close w r c = (w', r')" "trace w' = trace w @ ds" "wire content sock ds = []" "conns r' (fd c) = None"
    "doc_root r' = doc_root r"
  by (rule that [of "fst (conn_close w r c)" "snd (conn_close w r c)"]) (auto simp del: conn_close_fields, auto simp: conn_close_def)

text \<open>A connection whose socket blocks has something left to send.\<close>

lemma flush_blocked:
  assumes f: "flush w c = (Blocked, w', c')" and ok: "out_ok c"
  shows "pending content c' \<noteq> []"
proof -
  obtain e1 w1 c1 where h: "write_head w c = (e1, w1, c1)" by (metis prod_cases3)
  from write_head_wire [OF h ok] have ok1: "out_ok c1" by blast
  show ?thesis
  proof (cases "e1 = Flushed")
    case True
    with f h have "write_file w1 c1 = (Blocked, w', c')" by (simp add: flush_def)
    then obtain off cs ss where l: "send_loop (fd c1) (file_fd c1) (file_off c1) (file_len c1) (sends w1) = (Blocked, off, cs, ss)"
      and c': "c' = c1\<lparr>file_off := off\<rparr>" "phase c1 = RSP_SENDFILE"
      by (auto simp: write_file_def Let_def split: if_splits prod.splits) (metis io_end.exhaust)
    from c'(2) ok1 have "file_off c1 \<le> file_len c1" "0 \<le> file_fd c1" by (auto simp: out_ok_def)
    with send_loop_wire [OF l] have "off < file_len c1" by fastforce
    with c' \<open>0 \<le> file_fd c1\<close> show ?thesis by (simp add: pending_def file_part_def)
  next
    case False
    with f h have eq: "e1 = Blocked" "c' = c1" by (auto simp: flush_def split: io_end.splits)
    with h obtain off cs ws where l: "head_loop (fd c) (head_bytes c) (head_off c) (head_len c) (writes w) = (Blocked, off, cs, ws)"
      and c1: "c1 = c\<lparr>head_off := off\<rparr>" "phase c = RSP_HEAD"
      by (auto simp: write_head_def Let_def split: if_splits prod.splits)
    from ok have len: "head_off c \<le> head_len c" "head_len c = length (head_bytes c)" by (auto simp: out_ok_def head_ok_def head_bytes_length)
    with head_loop_wire [OF l] have "off < length (head_bytes c)" by fastforce
    with eq c1 show ?thesis by (simp add: pending_def head_bytes_def)
  qed
qed

text \<open>The calls of \<open>conn_write\<close> that do not reach another request.\<close>

lemma conn_write_stops:
  assumes ok: "out_ok c" "c_state c = ST_WRITING" and f: "flush w c = (e, w1, c1)"
    and stops: "e \<noteq> Flushed \<or> \<not> keep_alive c \<or> input c = []"
  shows "\<exists>w' r' cs. conn_write w r c = Some (w', r') \<and> trace w' = trace w @ cs \<and>
    sent content w (fd c) (keep_alive c) (pending content c) w' r' (wire content (fd c) cs) \<and> doc_root r' = doc_root r \<and>
    (\<forall>c'. conns r' (fd c) = Some c' \<longrightarrow> input c' = input c \<and> req c' = req c \<and> keep_alive c' = keep_alive c \<and>
       stats w' = stats w \<and> opens w' = opens w1 \<and> allocs w' = allocs w1 \<and> c_state c' \<noteq> ST_CLOSED \<and>
       (c_state c' = ST_READING \<longrightarrow> input c = []) \<and> (c_state c' = ST_WRITING \<longrightarrow> pending content c' \<noteq> []))"
proof -
  note same = flush_same [OF f] and cw = conn_write_flush [OF ok(1), of w r, unfolded f prod.case]
  obtain cs where tr: "trace w1 = trace w @ cs" "stats w1 = stats w"
    and fin: "e = Flushed \<Longrightarrow> wire content (fd c) cs = pending content c \<and> phase c1 = RSP_DONE \<and> c_head c1 = None"
    and blk: "e = Blocked \<Longrightarrow> wire content (fd c) cs @ pending content c1 = pending content c"
    and brk: "e = Broken \<Longrightarrow> prefix (wire content (fd c) cs) (pending content c)" using flush_sent [OF f ok(1), where content = content] by blast
  obtain w2 r2 ds where cl: "conn_close w1 r c1 = (w2, r2)" "trace w2 = trace w1 @ ds" "wire content (fd c) ds = []"
    "conns r2 (fd c1) = None" "doc_root r2 = doc_root r" using conn_close_wire by metis
  let ?c = "c1\<lparr>c_state := ST_READING, parser := http_parser_init\<rparr>"
  consider (blocked) "e = Blocked" | (broken) "e = Broken" | (closed) "e = Flushed" "\<not> keep_alive c" | (kept) "e = Flushed" "keep_alive c" "input c = []"
    using stops by (cases e) auto
  then show ?thesis
  proof cases
    case blocked
    with f have "pending content c1 \<noteq> []" using flush_blocked [OF _ ok(1)] by blast
    with blocked cw tr blk same ok(2) show ?thesis
      by (intro exI [of _ "mod_events w1 c1 EPOLLOUT"] exI [of _ "store r c1"] exI [of _ "cs @ [Epoll_Mod (fd c1) EPOLLOUT]"])
        (auto simp: sent_def store_def mod_events_def awaits_def input_def)
  next
    case broken
    with f have "\<not> reliable w" by (auto dest: flush_reliable)
    with broken cw tr brk same show ?thesis
      using cl by (intro exI [of _ w2] exI [of _ r2] exI [of _ "cs @ ds"]) (simp add: sent_def)
  next
    case closed
    with cw tr fin same show ?thesis
      using cl by (intro exI [of _ w2] exI [of _ r2] exI [of _ "cs @ ds"]) (simp add: sent_def)
  next
    case kept
    have "in_tail ?c \<le> in_head ?c" using kept(3) same by (simp add: input_Nil)
    then have "conn_process_input w1 (doc_root r) ?c = Some (w1, ?c)" by (subst conn_process_input.simps) simp
    with kept cw same have run: "conn_write w r c = Some (mod_events w1 ?c EPOLLIN, store r ?c)" by simp
    moreover have "pending content ?c = []" using fin kept by (simp add: pending_def)
    ultimately show ?thesis
      using kept tr fin same
      by (intro exI [of _ "mod_events w1 ?c EPOLLIN"] exI [of _ "store r ?c"] exI [of _ "cs @ [Epoll_Mod (fd c1) EPOLLIN]"])
        (auto simp: sent_def store_def mod_events_def awaits_def input_def)
  qed
qed

lemma conn_write_sent:
  assumes "out_ok c" "c_state c = ST_WRITING" "input c = []"
  shows "\<exists>w' r' cs. conn_write w r c = Some (w', r') \<and> trace w' = trace w @ cs \<and>
    sent content w (fd c) (keep_alive c) (pending content c) w' r' (wire content (fd c) cs)"
proof -
  obtain e w1 c1 where "flush w c = (e, w1, c1)" by (metis prod_cases3)
  from conn_write_stops [OF assms(1,2) this] assms(3) show ?thesis by blast
qed

text \<open>A request that arrives in pieces on an idle connection is answered.\<close>

lemma readable_answer:
  assumes ok: "reading_ok c" "fd c = n" and rd: "reads w = map RData chunks @ rs" "\<forall>b \<in> set chunks. b \<noteq> []"
    and d: "decided_by (parser c) (req c) (concat chunks) HTTP_PARSE_DONE p q"
    and env: "allocs w = []" "sizes_ok (stats w)" "length (doc_root r) + length (path_str q) + 11 < FULL_SIZE"
  defines "rep \<equiv> reply_of (stats w) (opens w \<noteq> [] \<and> 0 \<le> hd (opens w)) (doc_root r) (req_method q) (path_str q)"
  shows "\<exists>w' r' cs. on_readable w r n c = Some (w', r') \<and> trace w' = trace w @ cs \<and>
    sent content w n (req_keep_alive q) (reply_bytes content (hd (opens w)) (req_keep_alive q) rep) w' r' (wire content n cs)"
proof -
  let ?w = "w\<lparr>reads := rs\<rparr>"
  from conn_read_answer [OF ok(1) rd d, of r] obtain c1 where
    c1: "conn_read w r c = map_option (\<lambda>(w, c). (w, store r c)) (answer ?w (doc_root r) c1 HTTP_PARSE_DONE)"
    "fd c1 = n" "req c1 = q" "input c1 = []" using ok(2) by auto
  from build_response_memory [of ?w "doc_root r" c1] env c1(3) obtain w2 c2 where
    b: "build_response ?w (doc_root r) c1 = Some (w2, c2)" "ready c2 (hd (opens w)) rep" "head_ok c2" "head_off c2 = 0"
    "phase c2 = RSP_HEAD" "keep_alive c2 = req_keep_alive q"
    "trace w2 = trace w @ (case rep of File_Head _ _ \<Rightarrow> [Close (hd (opens w))] | _ \<Rightarrow> [])"
    unfolding rep_def by (auto cong: reply.case_cong)
  let ?c = "c2\<lparr>c_state := ST_WRITING\<rparr>" and ?pre = "case rep of File_Head _ _ \<Rightarrow> [Close (hd (opens w))] | _ \<Rightarrow> []"
  note same = build_response_same [OF b(1)]
  have fd2: "fd ?c = n" "input ?c = []" using same c1 by (auto simp: same_input_def input_def)
  have opened: "\<forall>f sz. rep = Send_File f sz \<longrightarrow> 0 \<le> hd (opens w)"
    by (auto simp: rep_def reply_of_def split: if_splits stat_result.splits)
  have pend: "pending content ?c = reply_bytes content (hd (opens w)) (req_keep_alive q) rep" "out_ok ?c"
    using ready_pending [OF b(2,5,4,3) opened] b(6) by simp_all
  obtain w' r' cs where wr: "conn_write w2 (store r ?c) ?c = Some (w', r')" "trace w' = trace w2 @ cs"
    "sent content w2 n (req_keep_alive q) (reply_bytes content (hd (opens w)) (req_keep_alive q) rep) w' r' (wire content n cs)"
    using conn_write_sent [OF pend(2) _ fd2(2), of w2 "store r ?c" content] pend(1) fd2(1) b(6) by auto
  have "on_readable w r n c = Some (w', r')"
    using c1(1) b(1) wr(1) fd2(1) by (simp add: on_readable_def answer_def store_def)
  moreover have "wire content n ?pre = []" by (cases rep) simp_all
  moreover have "reliable w2 = reliable w" using same by (auto simp: reliable_def same_scripts_def)
  ultimately show ?thesis
    using wr(2,3) b(7) by (intro exI [of _ w'] exI [of _ r'] exI [of _ "?pre @ cs"]) (auto simp: sent_def split: option.splits)
qed

section \<open>Orderly output and failures\<close>

lemma conn_write_after:
  assumes "conn_write w r c = Some (w', r')" "writing_ok c" "sizes_ok (stats w)" "flush w c = (e, w1, c1)"
  shows "prefix (trace w1) (trace w')"
proof -
  have out: "out_ok c" using assms(2) by (simp add: writing_ok_def)
  from out assms(1) show ?thesis
  proof (cases rule: conn_write_cases)
    case (again w2 c2 w3 c3)
    note nx = flushed_process [OF again(1) assms(2,3) again(3)]
    let ?d = "c3\<lparr>phase := RSP_HEAD, head_off := 0\<rparr>"
    have "closes w3 w' r r' (fd ?d) \<or> keeps conn_ok w3 w' r r' (fd ?d)"
      using conn_write_ok [OF again(5)] nx(1,7) again(4) assms(3) by simp
    with nx(4) again(1) assms(4) show ?thesis by (auto simp: closes_def keeps_def intro: prefix_order.trans)
  qed (use assms(4) in \<open>auto simp: mod_events_def dest!: process_input_same simp: same_scripts_def conn_close_def intro: prefix_order.trans\<close>)
qed

lemma conn_write_order:
  assumes "conn_write w r c = Some (w', r')" "writing_ok c" "sizes_ok (stats w)"
  shows "\<exists>cs. trace w' = trace w @ cs \<and>
    (prefix (pending content c) (wire content (fd c) cs) \<or>
     (case conns r' (fd c) of
        None \<Rightarrow> prefix (wire content (fd c) cs) (pending content c) \<and> \<not> reliable w
      | Some c' \<Rightarrow> wire content (fd c) cs @ pending content c' = pending content c \<and> c_state c' = ST_WRITING \<and>
          armed w' (fd c) = Some EPOLLOUT))"
proof -
  have out: "out_ok c" "c_state c = ST_WRITING" using assms(2) by (simp_all add: writing_ok_def)
  obtain e w1 c1 where f: "flush w c = (e, w1, c1)" by (metis prod_cases3)
  note same = flush_same [OF f] and cw = conn_write_flush [OF out(1), of w r, unfolded f prod.case]
  obtain cs where tr: "trace w1 = trace w @ cs" "stats w1 = stats w"
    and fin: "e = Flushed \<Longrightarrow> wire content (fd c) cs = pending content c \<and> phase c1 = RSP_DONE \<and> c_head c1 = None"
    and blk: "e = Blocked \<Longrightarrow> wire content (fd c) cs @ pending content c1 = pending content c"
    and brk: "e = Broken \<Longrightarrow> prefix (wire content (fd c) cs) (pending content c)" using flush_sent [OF f out(1), where content = content] by blast
  show ?thesis
  proof (cases e)
    case Blocked
    with cw assms(1) tr blk same out(2) show ?thesis
      by (intro exI [of _ "cs @ [Epoll_Mod (fd c1) EPOLLOUT]"]) (auto simp: store_def mod_events_def)
  next
    case Broken
    obtain w2 r2 ds where cl: "conn_close w1 r c1 = (w2, r2)" "trace w2 = trace w1 @ ds" "wire content (fd c) ds = []" "conns r2 (fd c1) = None"
      using conn_close_wire by metis
    have "\<not> reliable w" using f Broken by (auto dest: flush_reliable)
    with Broken cw assms(1) tr brk same cl show ?thesis by (intro exI [of _ "cs @ ds"]) auto
  next
    case Flushed
    have "prefix (trace w1) (trace w')" using conn_write_after [OF assms f] .
    then obtain ds where "trace w' = trace w1 @ ds" by (auto elim: prefixE)
    with tr fin Flushed show ?thesis by (intro exI [of _ "cs @ ds"]) (auto simp: prefix_def)
  qed
qed

lemma render_headers_append: "render_headers (xs @ ys) = render_headers xs @ render_headers ys"
  by (simp add: render_headers_def)

text \<open>More headers than the rows left in the request.\<close>

lemma feed_too_many:
  assumes "line_ok m pa q v" "list_all header_ok hs" "num_headers r \<le> MAX_HEADERS" "MAX_HEADERS < num_headers r + length hs"
  shows "http_parser_feed http_parser_init r (render_line m pa q v @ render_headers hs @ rest) = None"
proof -
  define k where "k = MAX_HEADERS - num_headers r"
  have k: "k < length hs" "num_headers r + k = MAX_HEADERS" using assms(3,4) by (auto simp: k_def)
  then have hs: "hs = take k hs @ hs ! k # drop (Suc k) hs" by (simp add: id_take_nth_drop)
  have "header_ok (hs ! k)" using assms(2) k(1) by (simp add: list_all_length)
  then obtain b name where nm: "fst (hs ! k) = b # name" "b \<notin> {CR, LF, COLON}"
    by (cases "fst (hs ! k)") (auto simp: header_ok_def)
  have "list_all header_ok (take k hs)" using assms(2) by (auto simp: list_all_iff dest: in_set_takeD)
  from full_rows_fault [OF assms(1) this, of r b] k nm(2)
  have "http_parser_feed http_parser_init r (render_line m pa q v @ render_headers (take k hs) @ b # X) = None" for X by simp
  moreover have "render_headers hs = render_headers (take k hs) @ b # name @ '': '' @ snd (hs ! k) @ CRLF @ render_headers (drop (Suc k) hs)"
    by (subst hs) (simp only: render_headers_append, simp add: render_headers_def header_text_def nm)
  ultimately show ?thesis by simp
qed

text \<open>The descriptors of the reactor itself never change.\<close>

lemma accept_loop_fds: "accept_loop ns w r = (w', r') \<Longrightarrow> wakeup_fd r' = wakeup_fd r \<and> listen_fd r' = listen_fd r \<and> stop r' = stop r"
  by (induction ns w r rule: accept_loop.induct) (auto simp: Let_def split: if_splits prod.splits)

definition same_fds :: "reactor \<Rightarrow> (world \<times> reactor) option \<Rightarrow> bool" where
  "same_fds r res \<longleftrightarrow> (\<forall>w' r'. res = Some (w', r') \<longrightarrow> wakeup_fd r' = wakeup_fd r \<and> listen_fd r' = listen_fd r \<and> stop r' = stop r)"

lemma same_fds_simps [simp]:
  "same_fds r None" "same_fds r (Some (w, r))" "same_fds r (Some (w, store r c))" "same_fds r (Some (conn_close w r c))"
  by (auto simp: same_fds_def store_def conn_close_def)

lemma conn_read_fds: "same_fds r (conn_read w r c)"
proof (induction w r c rule: conn_read.induct)
  case (1 w r c)
  show ?case
    by (subst conn_read.simps) (auto simp: Let_def intro!: 1 split: option.splits list.splits read_result.splits bind_splits prod.splits)
qed

lemma conn_write_fds: "same_fds r (conn_write w r c)"
proof (induction w r c rule: conn_write.induct)
  case (1 w r c)
  show ?case
    by (subst conn_write.simps) (auto simp: mod_events_def intro!: 1 split: option.splits io_end.splits prod.splits)
qed

lemma same_fds_bind:
  assumes "same_fds r res" "\<And>w' r'. same_fds r' (k w' r')"
  shows "same_fds r (case res of None \<Rightarrow> None | Some (w', r') \<Rightarrow> k w' r')"
  using assms by (cases res) (auto simp: same_fds_def)

lemma on_readable_fds: "same_fds r (on_readable w r n c)"
  unfolding on_readable_def by (rule same_fds_bind) (auto intro: conn_read_fds conn_write_fds split: option.splits)

lemma handle_event_fds: "same_fds r (handle_event w r ev)"
proof -
  obtain n evs where ev: "ev = (n, evs)" by (cases ev) auto
  have "same_fds r (case (if EPOLLIN \<in> set evs then on_readable w r n c else Some (w, r)) of None \<Rightarrow> None
    | Some (w, r) \<Rightarrow> (case conns r n of None \<Rightarrow> Some (w, r) | Some c \<Rightarrow> if EPOLLOUT \<in> set evs then conn_write w r c else Some (w, r)))" for c
    by (rule same_fds_bind) (auto intro: on_readable_fds conn_write_fds split: option.splits)
  then show ?thesis unfolding ev handle_event_def Let_def prod.case by (auto split: option.split)
qed

lemma run_batch_append:
  assumes "\<forall>ev \<in> set pre. fst ev \<noteq> wakeup_fd r"
  shows "run_batch (pre @ post) w r = (case run_batch pre w r of None \<Rightarrow> None | Some (w, r) \<Rightarrow> run_batch post w r)"
  using assms
proof (induction pre arbitrary: w r)
  case (Cons ev pre)
  have acc: "wakeup_fd r1 = wakeup_fd r" if "reactor_accept w r = (w1, r1)" for w1 r1
    using that accept_loop_fds by (auto simp: reactor_accept_def)
  have han: "wakeup_fd r1 = wakeup_fd r" if "handle_event w r ev = Some (w1, r1)" for w1 r1
    using that handle_event_fds [of r w ev] by (simp add: same_fds_def)
  show ?case
    using Cons acc han by (auto split: option.splits prod.splits)
qed simp

lemma run_batch_fds:
  assumes "run_batch pre w r = Some (w', r')" "\<forall>ev \<in> set pre. fst ev \<noteq> wakeup_fd r"
  shows "wakeup_fd r' = wakeup_fd r"
  using assms
proof (induction pre arbitrary: w r)
  case (Cons ev pre)
  show ?case
  proof (cases "fst ev = listen_fd r")
    case True
    with Cons show ?thesis using accept_loop_fds by (fastforce simp: reactor_accept_def split: prod.splits)
  next
    case False
    with Cons.prems obtain w1 r1 where h: "handle_event w r ev = Some (w1, r1)" by (auto split: option.splits)
    with handle_event_fds [of r w ev] have "wakeup_fd r1 = wakeup_fd r" by (simp add: same_fds_def)
    with Cons.prems Cons.IH [of w1 r1] h False show ?thesis by simp
  qed
qed simp

section \<open>Properties\<close>

definition demo_setup :: create_env where
  "demo_setup = \<lparr>su_reactor = True, su_conns = True, su_strdup = True, su_epoll = 3, su_eventfd = 4, su_socket = 6,
     su_bind = True, su_listen = True, su_sockname = Some 8080\<rparr>"

definition demo_config :: reactor_config where
  "demo_config = \<lparr>rc_port = 0, rc_doc_root = None, rc_max_events = 0, rc_backlog = 0, rc_reuse_port = True\<rparr>"

definition demo_world :: world where
  "demo_world = (one_file ''www/a.css'' 70)\<lparr>accepts := [7, -1]\<rparr>"

definition demo_reactor :: reactor where
  "demo_reactor = \<lparr>epfd = 3, listen_fd = 6, wakeup_fd = 4, r_port = 8080, doc_root = ''www'', max_events = 1024,
     active_conns = 0, conns = Map.empty, stop = False\<rparr>"

lemma demo_sizes: "sizes_ok (stats demo_world)"
  by (simp add: sizes_ok_def demo_world_def one_file_def)

lemma demo_create:
  "\<exists>w. reactor_create demo_setup demo_world (Some demo_config) = (w, Some demo_reactor) \<and> accepts w = [7, -1] \<and> allocs w = [] \<and>
     stats w = stats demo_world"
  by (simp add: reactor_create_def demo_setup_def demo_config_def demo_reactor_def demo_world_def one_file_def emit_def Let_def)





text \<open>C2. A request served from end to end. On an idle connection the text of any well-formed
  request may arrive cut into pieces in any way; handling the readable event then sends exactly the
  reply the specification gives for its method and path, with the persistence its version and
  Connection headers ask for, as one sequence of bytes: if the connection is still open, what went
  out followed by what is still pending is the reply, and it waits for input again only when all of
  it is out and it is persistent; if it was closed, what went out is an initial part of the reply,
  and all of it when no socket call failed.\<close>

theorem request_served:
  assumes "reading_ok c" "fd c = n" "parser c = http_parser_init" "allocs w = []" "sizes_ok (stats w)"
    and "line_ok m pa q v" "list_all header_ok hs" "num_headers (req c) + length hs \<le> MAX_HEADERS"
    and "v = ''HTTP/1.1'' \<longrightarrow> list_ex is_host hs" "length (doc_root r) + length pa + 11 < FULL_SIZE"
    and "reads w = map RData chunks @ rs" "\<forall>b \<in> set chunks. b \<noteq> []"
    and "concat chunks = render_line m pa q v @ render_headers hs @ CRLF"
  defines "ka \<equiv> fold connection_override (map (header_str (req c)) [0..<num_headers (req c)] @ map header_text hs) (v = ''HTTP/1.1'')"
    and "rep \<equiv> reply_of (stats w) (opens w \<noteq> [] \<and> 0 \<le> hd (opens w)) (doc_root r) (method_from_token m) pa"
  shows "\<exists>w' r' cs. on_readable w r n c = Some (w', r') \<and> trace w' = trace w @ cs \<and>
    (case conns r' n of
       None \<Rightarrow> prefix (wire content n cs) (reply_bytes content (hd (opens w)) ka rep) \<and>
         (reliable w \<longrightarrow> \<not> ka \<and> wire content n cs = reply_bytes content (hd (opens w)) ka rep)
     | Some c' \<Rightarrow> wire content n cs @ pending content c' = reply_bytes content (hd (opens w)) ka rep \<and>
         armed w' n = Some (awaits c') \<and>
         (c_state c' = ST_READING \<longrightarrow> ka \<and> wire content n cs = reply_bytes content (hd (opens w)) ka rep))"
proof -
  let ?t = "render_line m pa q v @ render_headers hs @ CRLF"
  from feed_render(1) [OF assms(6-9), of "[]"] obtain p' r1 where
    f: "http_parser_feed http_parser_init (req c) ?t = Some (HTTP_PARSE_DONE, p', parser_finalize r1)"
    "req_method r1 = method_from_token m" "path_str r1 = pa" "version_str r1 = v"
    "map (header_str r1) [0..<num_headers r1] = map (header_str (req c)) [0..<num_headers (req c)] @ map header_text hs" by auto
  have "butlast ?t = render_line m pa q v @ render_headers hs @ [CR]" by (simp add: butlast_append)
  then have d: "decided_by (parser c) (req c) (concat chunks) HTTP_PARSE_DONE p' (parser_finalize r1)"
    using f(1) feed_render(2) [OF assms(6-9)] assms(3,13) by (simp add: decided_by_def)
  have ka: "req_keep_alive (parser_finalize r1) = ka" using f(4,5) by (simp add: finalize_keep_alive ka_def)
  have rp: "reply_of (stats w) (opens w \<noteq> [] \<and> 0 \<le> hd (opens w)) (doc_root r) (req_method (parser_finalize r1))
      (path_str (parser_finalize r1)) = rep" using f(2,3) by (simp add: rep_def)
  have short: "length (doc_root r) + length (path_str (parser_finalize r1)) + 11 < FULL_SIZE" using assms(10) f(3) by simp
  show ?thesis
    using readable_answer [OF assms(1,2,11,12) d assms(4,5) short, of content] unfolding rp ka sent_def .
qed

definition request_text :: string where
  "request_text = render_line ''GET'' ''/a.css'' None ''HTTP/1.1'' @ render_headers [(''Host'', ''x'')] @ CRLF"

theorem request_served_witness:
  "\<exists>w' r' cs. on_readable ((one_file ''www/a.css'' 2)\<lparr>reads := [RData (take 7 request_text), RData (drop 7 request_text), RAgain],
        writes := [Moved 20, Interrupted, Moved 1000], sends := [Moved 1, Moved 1]\<rparr>) demo_reactor 7 (new_conn 7) = Some (w', r') \<and>
     (\<forall>c'. conns r' 7 = Some c' \<longrightarrow> wire (\<lambda>_ _. CHR ''x'') 7 cs @ pending (\<lambda>_ _. CHR ''x'') c' =
        head_text 200 ''text/css'' 2 True @ ''xx'')"
proof -
  let ?w = "(one_file ''www/a.css'' 2)\<lparr>reads := [RData (take 7 request_text), RData (drop 7 request_text), RAgain],
    writes := [Moved 20, Interrupted, Moved 1000], sends := [Moved 1, Moved 1]\<rparr>"
  have ok: "reading_ok (new_conn 7)" using new_conn_ok [of 7] by (simp add: conn_ok_def writing_ok_def new_conn_def)
  have cp: "fd (new_conn 7) = 7" "parser (new_conn 7) = http_parser_init" "req (new_conn 7) = zero_request" by (simp_all add: new_conn_def)
  have w: "allocs ?w = []" "sizes_ok (stats ?w)" by (simp_all add: one_file_def sizes_ok_def)
  have line: "line_ok ''GET'' ''/a.css'' None ''HTTP/1.1''" "list_all header_ok [(''Host'', ''x'')]"
    by (simp_all add: line_ok_def header_ok_def token_ok_def header_text_def NUL_def)
  have num: "num_headers (req (new_conn 7)) + length [(''Host'', ''x'')] \<le> MAX_HEADERS" by (simp add: cp zero_request_def)
  have host: "''HTTP/1.1'' = ''HTTP/1.1'' \<longrightarrow> list_ex is_host [(''Host'', ''x'')]" by code_simp
  have len: "length (doc_root demo_reactor) + length ''/a.css'' + 11 < FULL_SIZE" by (simp add: demo_reactor_def)
  have rd: "reads ?w = map RData [take 7 request_text, drop 7 request_text] @ [RAgain]" by simp
  have ne: "\<forall>b \<in> set [take 7 request_text, drop 7 request_text]. b \<noteq> []" by code_simp
  have cc: "concat [take 7 request_text, drop 7 request_text] = render_line ''GET'' ''/a.css'' None ''HTTP/1.1'' @
    render_headers [(''Host'', ''x'')] @ CRLF" by (simp flip: request_text_def)
  have ka: "fold connection_override (map (header_str (req (new_conn 7))) [0..<num_headers (req (new_conn 7))] @
      map header_text [(''Host'', ''x'')]) (''HTTP/1.1'' = ''HTTP/1.1'') = True"
    by (simp add: cp zero_request_def) code_simp
  have "\<not> sublist ''..'' ''/a.css''" unfolding str_contains_sublist [symmetric] by simp
  then have rep: "reply_of (stats ?w) (opens ?w \<noteq> [] \<and> 0 \<le> hd (opens ?w)) (doc_root demo_reactor) (method_from_token ''GET'') ''/a.css'' =
      Send_File ''/a.css'' 2"
    by (simp add: reply_of_def method_from_token_def one_file_def target_def demo_reactor_def)
  have mime: "reactor_mime_type ''/a.css'' = ''text/css''" by code_simp
  have out: "reply_bytes (\<lambda>_ _. CHR ''x'') (hd (opens ?w)) True (Send_File ''/a.css'' 2) = head_text 200 ''text/css'' 2 True @ ''xx''"
    by (simp add: mime upt_rec)
  from request_served [OF ok cp(1,2) w line num host len rd ne cc, of "\<lambda>_ _. CHR ''x''", unfolded ka rep out] show ?thesis
    by (auto split: option.splits)
qed

text \<open>C19. Malformed input is refused, and cuts the connection off. Whatever bytes arrive on an idle
  connection, in pieces of any sizes, if the parser rejects them, handling the readable event sends
  exactly the page for a bad request, in one reply that is not persistent; nothing behind the offending byte
  is answered, even if it is a well-formed request. If the connection is still open, the rest
  of the page is pending and it waits for the socket; if it was closed, an initial part of the page went
  out, and all of it when no socket call failed.\<close>

theorem malformed_answered:
  fixes content :: "int \<Rightarrow> nat \<Rightarrow> char"
  assumes "reading_ok c" "fd c = n" "allocs w = []" "reads w = map RData chunks @ rs" "\<forall>b \<in> set chunks. b \<noteq> []"
    and "http_parser_feed (parser c) (req c) (concat chunks) = Some (HTTP_PARSE_ERROR, p, q)"
  defines "page \<equiv> head_text 400 ''text/plain'' (length bad_request) False @ bad_request"
  shows "\<exists>w' r' cs. on_readable w r n c = Some (w', r') \<and> trace w' = trace w @ cs \<and>
    (case conns r' n of
       None \<Rightarrow> prefix (wire content n cs) page \<and> (reliable w \<longrightarrow> wire content n cs = page)
     | Some c' \<Rightarrow> wire content n cs @ pending content c' = page \<and> c_state c' = ST_WRITING \<and> \<not> keep_alive c' \<and> armed w' n = Some EPOLLOUT)"
proof -
  have "\<not> p_done (parser c)" using assms(1) by (simp add: reading_ok_def)
  from feed_decided [OF assms(6) _ this] obtain bs extra where
    d: "concat chunks = bs @ extra" "decided_by (parser c) (req c) bs HTTP_PARSE_ERROR p q" by auto
  from conn_read_decided [OF assms(1,4,5) d(2,1), of r] obtain c1 ms where
    rd: "conn_read w r c = map_option (\<lambda>(w, c). (w, store r c)) (answer (w\<lparr>reads := map RData ms @ rs\<rparr>) (doc_root r) c1 HTTP_PARSE_ERROR)"
      "fd c1 = n" using assms(2) by auto
  let ?w = "w\<lparr>reads := map RData ms @ rs\<rparr>" and ?c = "(inline (c1\<lparr>keep_alive := False\<rparr>) 400 ''text/plain'' bad_request)\<lparr>c_state := ST_WRITING\<rparr>"
  have run: "conn_read w r c = Some (?w, store r ?c)" using rd(1) build_error_page [of ?w c1] assms(3) by (simp add: answer_def)
  have c: "out_ok ?c" "c_state ?c = ST_WRITING" "\<not> keep_alive ?c" "fd ?c = n" "pending content ?c = page"
    using rd(2) by (simp_all add: inline_def out_ok_def head_ok_def pending_def head_bytes_def file_part_def page_def)
  obtain e w1 c2 where f: "flush ?w ?c = (e, w1, c2)" by (metis prod_cases3)
  from conn_write_stops [OF c(1,2) f, of "store r ?c" content] c(3-5) obtain w' r' cs where
    wr: "conn_write ?w (store r ?c) ?c = Some (w', r')" "trace w' = trace w @ cs" "sent content ?w n False page w' r' (wire content n cs)"
    and kept: "\<And>c'. conns r' n = Some c' \<Longrightarrow> \<not> keep_alive c' \<and> c_state c' \<noteq> ST_CLOSED" by auto
  have "on_readable w r n c = Some (w', r')" using run wr(1) c(2,4) by (simp add: on_readable_def store_def)
  moreover have "case conns r' n of
       None \<Rightarrow> prefix (wire content n cs) page \<and> (reliable w \<longrightarrow> wire content n cs = page)
     | Some c' \<Rightarrow> wire content n cs @ pending content c' = page \<and> c_state c' = ST_WRITING \<and> \<not> keep_alive c' \<and> armed w' n = Some EPOLLOUT"
  proof (cases "conns r' n")
    case None
    with wr(3) show ?thesis by (simp add: sent_def reliable_def)
  next
    case (Some c')
    with wr(3) kept show ?thesis by (cases "c_state c'") (auto simp: sent_def awaits_def)
  qed
  ultimately show ?thesis using wr(2) by blast
qed

theorem malformed_answered_witness:
  "\<exists>w' r'. on_readable ((one_file ''x'' 0)\<lparr>reads := [RData ''GE'', RData (''T / HTTP/1.1'' @ CRLF @ CRLF @ ''GET''), RAgain],
        writes := [Moved 30, Interrupted, Moved 1000]\<rparr>) demo_reactor 7 (new_conn 7) = Some (w', r') \<and>
     (conns r' 7 = None \<longrightarrow> wire (\<lambda>_ _. NUL) 7 (trace w') = head_text 400 ''text/plain'' (length bad_request) False @ bad_request)"
proof -
  let ?ch = "[''GE'', ''T / HTTP/1.1'' @ CRLF @ CRLF @ ''GET'']"
  let ?w = "(one_file ''x'' 0)\<lparr>reads := [RData ''GE'', RData (''T / HTTP/1.1'' @ CRLF @ CRLF @ ''GET''), RAgain],
        writes := [Moved 30, Interrupted, Moved 1000]\<rparr>"
  have ok: "reading_ok (new_conn 7)" "fd (new_conn 7) = 7" using new_conn_ok [of 7] by (simp_all add: conn_ok_def writing_ok_def new_conn_def)
  have w: "allocs ?w = []" "reads ?w = map RData ?ch @ [RAgain]" "trace ?w = []" "reliable ?w" by (simp_all add: one_file_def reliable_def)
  have ne: "\<forall>b \<in> set ?ch. b \<noteq> []" by simp
  have "map_option fst (http_parser_feed http_parser_init zero_request (concat ?ch)) = Some HTTP_PARSE_ERROR" by code_simp
  then obtain p q where "http_parser_feed (parser (new_conn 7)) (req (new_conn 7)) (concat ?ch) = Some (HTTP_PARSE_ERROR, p, q)"
    by (auto simp: new_conn_def)
  from malformed_answered [OF ok w(1,2) ne this, of demo_reactor "\<lambda>_ _. NUL"] w(3,4) show ?thesis by (auto split: option.splits)
qed

text \<open>C8. Partial writes never lose, repeat or reorder a byte. When \<open>conn_write\<close> returns, the bytes it
  put on the connection's socket either contain the whole of the pending response first (and a later,
  pipelined response only behind it), or are its first part: then the connection keeps exactly
  the rest and is registered for EPOLLOUT, or was closed because a socket call failed.\<close>

theorem conn_write_in_order:
  assumes "conn_write w r c = Some (w', r')" "writing_ok c" "sizes_ok (stats w)"
  shows "\<exists>cs. trace w' = trace w @ cs \<and>
    (prefix (pending content c) (wire content (fd c) cs) \<or>
     (case conns r' (fd c) of
        None \<Rightarrow> prefix (wire content (fd c) cs) (pending content c) \<and> \<not> reliable w
      | Some c' \<Rightarrow> wire content (fd c) cs @ pending content c' = pending content c \<and> c_state c' = ST_WRITING \<and>
          armed w' (fd c) = Some EPOLLOUT))"
  using assms by (rule conn_write_order)

definition half_sent :: conn where
  "half_sent = (new_conn 7)\<lparr>c_state := ST_WRITING, c_head := Some (head_text 404 ''text/plain'' 0 True), file_fd := -1,
     head_len := length (head_text 404 ''text/plain'' 0 True), head_off := 4\<rparr>"

lemma half_sent_ok: "writing_ok half_sent"
  using head_text_served [of 404 "''text/plain''" 0 True "[]"]
  by (auto simp: writing_ok_def half_sent_def new_conn_def buffer_ok_def out_ok_def head_ok_def served_codes_def head_text_def)

theorem conn_write_in_order_witness:
  "\<exists>cs w' r'. conn_write ((one_file ''x'' 0)\<lparr>writes := [Moved 5, Would_Block]\<rparr>) demo_reactor half_sent = Some (w', r') \<and>
     trace w' = cs \<and> (\<forall>c'. conns r' 7 = Some c' \<longrightarrow> prefix (pending (\<lambda>_ _. NUL) half_sent) (wire (\<lambda>_ _. NUL) 7 cs) \<or>
       wire (\<lambda>_ _. NUL) 7 cs @ pending (\<lambda>_ _. NUL) c' = pending (\<lambda>_ _. NUL) half_sent)"
proof -
  let ?w = "(one_file ''x'' 0)\<lparr>writes := [Moved 5, Would_Block]\<rparr>"
  have i: "input half_sent = []" "fd half_sent = 7" "c_state half_sent = ST_WRITING" by (simp_all add: half_sent_def new_conn_def input_def)
  obtain w' r' where run: "conn_write ?w demo_reactor half_sent = Some (w', r')"
    using conn_write_sent [OF _ i(3,1)] half_sent_ok by (metis writing_ok_def)
  have "sizes_ok (stats ?w)" "trace ?w = []" by (simp_all add: one_file_def sizes_ok_def)
  with conn_write_in_order [OF run half_sent_ok, of "\<lambda>_ _. NUL"] i(2) run show ?thesis by (auto split: option.splits)
qed

text \<open>C35. The request structure is not cleared between the requests of a persistent connection:
  headers are counted on. When the headers of the requests served so far and those of the next
  pipelined request are together more than the array has rows for, handling that request writes
  outside the array, although each request alone may be within the limit.\<close>

theorem keepalive_overflow:
  assumes "writing_ok c" "sizes_ok (stats w)" "keep_alive c" "flush w c = (Flushed, w1, c1)"
    and "line_ok m pa q v" "list_all header_ok hs" "num_headers (req c) \<le> MAX_HEADERS"
    and "MAX_HEADERS < num_headers (req c) + length hs" "input c = render_line m pa q v @ render_headers hs @ rest"
  shows "conn_write w r c = None"
proof -
  have out: "out_ok c" using assms(1) by (simp add: writing_ok_def)
  note same = flush_same [OF assms(4)]
  let ?c = "c1\<lparr>c_state := ST_READING, parser := http_parser_init\<rparr>"
  have "http_parser_feed (parser ?c) (req ?c) (input ?c) = None"
    using feed_too_many [OF assms(5-8)] assms(9) same by (simp add: input_def)
  moreover have "sizes_ok (stats w1)" using flush_frame(1) [OF assms(4) out] assms(2) by simp
  moreover have "\<not> p_done (parser ?c)" by (simp add: http_parser_init_def)
  ultimately have "conn_process_input w1 (doc_root r) ?c = None" using process_input_fault [of ?c w1] by simp
  with conn_write_flush [OF out, of w r] assms(3,4) same show ?thesis by simp
qed

definition second_request :: string where
  "second_request = render_line ''GET'' ''/'' None ''HTTP/1.1'' @ render_headers (replicate 40 plain_header) @ replicate 500 NUL"

definition full_conn :: conn where
  "full_conn = half_sent\<lparr>keep_alive := True, req := zero_request\<lparr>num_headers := 40\<rparr>,
     inbuf := (\<lambda>i. if i < 500 then second_request ! i else NUL),
     in_tail := 500\<rparr>"

theorem keepalive_overflow_witness:
  "conn_write ((one_file ''x'' 0)\<lparr>writes := [Moved 1000]\<rparr>) demo_reactor full_conn = None"
proof -
  let ?w = "(one_file ''x'' 0)\<lparr>writes := [Moved 1000]\<rparr>" and ?hs = "replicate 40 plain_header"
  let ?t = "render_line ''GET'' ''/'' None ''HTTP/1.1'' @ render_headers ?hs"
  have ok: "writing_ok full_conn"
    using half_sent_ok by (simp add: full_conn_def writing_ok_def buffer_ok_def out_ok_def head_ok_def half_sent_def new_conn_def)
  have sz: "sizes_ok (stats ?w)" by (simp add: one_file_def sizes_ok_def)
  have len: "length ?t = 256" by code_simp
  have "length second_request = 756" using len by (simp add: second_request_def)
  then have "input full_conn = take 500 second_request"
    by (intro nth_equalityI) (auto simp: input_def full_conn_def half_sent_def new_conn_def)
  then have inp: "input full_conn = render_line ''GET'' ''/'' None ''HTTP/1.1'' @ render_headers ?hs @ replicate 244 NUL"
    using len by (simp add: second_request_def)
  have "length (head_text 404 ''text/plain'' 0 True) < HEAD_SIZE" by (rule head_text_length) simp_all
  then have "flush ?w full_conn = (Flushed, snd (flush ?w full_conn))"
    by (simp add: flush_def write_head_def write_file_def full_conn_def half_sent_def new_conn_def one_file_def head_bytes_def Let_def)
  then obtain w1 c1 where fl: "flush ?w full_conn = (Flushed, w1, c1)" by (metis prod.collapse)
  have k: "keep_alive full_conn" "num_headers (req full_conn) \<le> MAX_HEADERS" "MAX_HEADERS < num_headers (req full_conn) + length ?hs"
    by (simp_all add: full_conn_def)
  show ?thesis
    by (rule keepalive_overflow [OF ok sz k(1) fl plain_line_ok plain_headers_ok k(2,3) inp])
qed

text \<open>C37. A connection that ends before its first request was answered takes the standard input of the
  server with it: the structure comes from \<open>calloc\<close> with 0 as the descriptor of the file to send,
  and closing the connection, after the client's end of stream or an error event, closes
  descriptor 0 as well.\<close>

theorem fresh_close_hits_stdin:
  assumes "conns r n = Some (new_conn n)" "reads w = RData [] # rs"
    and "evs = [EPOLLIN] \<or> EPOLLHUP \<in> set evs \<or> EPOLLERR \<in> set evs"
  shows "\<exists>w' r'. handle_event w r (n, evs) = Some (w', r') \<and> conns r' n = None \<and>
    trace w' = trace w @ [Epoll_Del n, Close (int n), Close 0]"
proof -
  have new: "fd (new_conn n) = n" "file_fd (new_conn n) = 0" "compact (new_conn n) = new_conn n" "in_tail (new_conn n) = 0"
    by (simp_all add: new_conn_def compact_def)
  have rd: "conn_read w r (new_conn n) = Some (conn_close (w\<lparr>reads := rs\<rparr>) r (new_conn n))"
    using assms(2) by (subst conn_read.simps) (simp add: new Let_def)
  consider "EPOLLHUP \<in> set evs \<or> EPOLLERR \<in> set evs" | "evs = [EPOLLIN]" using assms(3) by blast
  then show ?thesis
    using assms(1) by cases (auto simp: handle_event_def on_readable_def rd conn_close_def new)
qed

theorem fresh_close_hits_stdin_witness:
  "\<exists>w' r'. handle_event ((one_file ''x'' 0)\<lparr>reads := [RData []]\<rparr>) (demo_reactor\<lparr>conns := [7 \<mapsto> new_conn 7], active_conns := 1\<rparr>) (7, [EPOLLIN]) =
     Some (w', r') \<and> trace w' = [Epoll_Del 7, Close 7, Close 0]"
  using fresh_close_hits_stdin [of "demo_reactor\<lparr>conns := [7 \<mapsto> new_conn 7], active_conns := 1\<rparr>" 7
      "(one_file ''x'' 0)\<lparr>reads := [RData []]\<rparr>" "[]" "[EPOLLIN]"]
  by (auto simp: one_file_def)

text \<open>C27. A wakeup ends the loop: of the batch in which the wakeup descriptor is ready the events before
  it are handled, those behind it are not, \<open>epoll_wait\<close> is not called again, and the reactor is
  left with its stop flag set.\<close>

theorem wakeup_stops:
  assumes "\<not> stop r" "\<forall>ev \<in> set pre. fst ev \<noteq> wakeup_fd r"
  shows "run_loop (Ready (pre @ (wakeup_fd r, es) # post) # xs) w r =
    (case run_batch pre w r of None \<Rightarrow> None | Some (w', r') \<Rightarrow> Some (w', r'\<lparr>stop := True\<rparr>))"
proof -
  have "run_batch ((wakeup_fd r, es) # post) w' r' = Some (w', r'\<lparr>stop := True\<rparr>)" if "run_batch pre w r = Some (w', r')" for w' r'
    using run_batch_fds [OF that assms(2)] by simp
  moreover have "run_loop xs w' (r'\<lparr>stop := True\<rparr>) = Some (w', r'\<lparr>stop := True\<rparr>)" for w' r' by (cases xs) simp_all
  ultimately show ?thesis using assms(1) run_batch_append [OF assms(2), of "(wakeup_fd r, es) # post" w] by (simp split: option.splits)
qed

theorem wakeup_stops_witness:
  "\<not> stop demo_reactor \<and> run_loop [Ready [(9, [EPOLLIN]), (4, [EPOLLIN]), (6, [EPOLLIN])], Wait_Intr] demo_world demo_reactor =
     Some (demo_world, demo_reactor\<lparr>stop := True\<rparr>)"
proof -
  have w: "wakeup_fd demo_reactor = 4" "\<not> stop demo_reactor" "conns demo_reactor 9 = None" "listen_fd demo_reactor = 6"
    by (simp_all add: demo_reactor_def)
  have "run_batch [(9, [EPOLLIN])] demo_world demo_reactor = Some (demo_world, demo_reactor)" by (simp add: w handle_event_def)
  with wakeup_stops [of demo_reactor "[(9, [EPOLLIN])]" "[EPOLLIN]" "[(6, [EPOLLIN])]" "[Wait_Intr]" demo_world] w show ?thesis by simp
qed

text \<open>The descriptors \<open>reactor_create\<close> has obtained when it returns, and those a trace closes.\<close>

definition obtained :: "create_env \<Rightarrow> int list" where
  "obtained su =
     (if \<not> (su_reactor su \<and> su_conns su \<and> su_strdup su) \<or> su_epoll su < 0 then []
      else if su_eventfd su < 0 then [su_epoll su]
      else if su_socket su < 0 then [su_epoll su, su_eventfd su]
      else [su_epoll su, su_eventfd su, su_socket su])"

fun closed_fds :: "syscall list \<Rightarrow> int list" where
  "closed_fds [] = []"
| "closed_fds (Close n # cs) = n # closed_fds cs"
| "closed_fds (_ # cs) = closed_fds cs"

lemma closed_fds_append: "closed_fds (xs @ ys) = closed_fds xs @ closed_fds ys"
  by (induction xs rule: closed_fds.induct) auto

text \<open>C29. \<open>reactor_create\<close> leaks no descriptor: whichever of its calls fails, every descriptor it
  had obtained by then is closed, once, and no other. When it succeeds, it has closed none, the
  listening socket and the wakeup descriptor are registered, and no connection exists.\<close>

theorem reactor_create_releases:
  "\<exists>w' res cs. reactor_create su w (Some cfg) = (w', res) \<and> trace w' = trace w @ cs \<and>
     (case res of
        None \<Rightarrow> mset (closed_fds cs) = mset (obtained su)
      | Some r \<Rightarrow> closed_fds cs = [] \<and> obtained su = [epfd r, int (wakeup_fd r), int (listen_fd r)] \<and>
          armed w' (listen_fd r) = Some EPOLLIN \<and> armed w' (wakeup_fd r) = Some EPOLLIN \<and> conns r = Map.empty)"
proof -
  consider (mem) "\<not> (su_reactor su \<and> su_conns su \<and> su_strdup su)"
    | (epoll) "su_reactor su \<and> su_conns su \<and> su_strdup su" "su_epoll su < 0"
    | (eventfd) "su_reactor su \<and> su_conns su \<and> su_strdup su" "0 \<le> su_epoll su" "su_eventfd su < 0"
    | (sock) "su_reactor su \<and> su_conns su \<and> su_strdup su" "0 \<le> su_epoll su" "0 \<le> su_eventfd su" "su_socket su < 0"
    | (bind) "su_reactor su \<and> su_conns su \<and> su_strdup su" "0 \<le> su_epoll su" "0 \<le> su_eventfd su" "0 \<le> su_socket su" "\<not> su_bind su"
    | (listen) "su_reactor su \<and> su_conns su \<and> su_strdup su" "0 \<le> su_epoll su" "0 \<le> su_eventfd su" "0 \<le> su_socket su" "su_bind su" "\<not> su_listen su"
    | (ok) "su_reactor su \<and> su_conns su \<and> su_strdup su" "0 \<le> su_epoll su" "0 \<le> su_eventfd su" "0 \<le> su_socket su" "su_bind su" "su_listen su"
    by linarith
  then show ?thesis
    by cases (simp_all add: reactor_create_def obtained_def Let_def closed_fds_append not_less add.commute add_mset_commute)
qed

text \<open>The loop of \<open>reactor_destroy\<close> over the first \<open>k\<close> descriptors.\<close>

lemma closed_fds_set: "n \<in> set (closed_fds cs) \<longleftrightarrow> Close n \<in> set cs"
  by (induction cs rule: closed_fds.induct) auto

definition destroy_loop :: "reactor \<Rightarrow> nat \<Rightarrow> syscall list" where
  "destroy_loop r k = concat (map (destroy_conn r) [0..<k])"

lemma destroy_loop_closes:
  "Close x \<in> set (destroy_loop r k) \<longleftrightarrow> (\<exists>n c. n < k \<and> conns r n = Some c \<and> (x = int n \<or> 0 \<le> x \<and> x = file_fd c))"
proof -
  have "Close x \<in> set (destroy_conn r n) \<longleftrightarrow> (\<exists>c. conns r n = Some c \<and> (x = int n \<or> 0 \<le> x \<and> x = file_fd c))" for n
    by (cases "conns r n") (auto simp: destroy_conn_def)
  then show ?thesis by (auto simp: destroy_loop_def)
qed

lemma destroy_loop_once: "count_list (destroy_loop r k) (Epoll_Del n) = (if n < k \<and> conns r n \<noteq> None then 1 else 0)"
proof (induction k)
  case (Suc k)
  have "count_list (destroy_conn r k) (Epoll_Del n) = (if n = k \<and> conns r n \<noteq> None then 1 else 0)"
    by (auto simp: destroy_conn_def split: option.splits)
  with Suc show ?case by (auto simp: destroy_loop_def)
qed (simp add: destroy_loop_def)



end
