(* ===== verification/Pipeline.thy ===== *)
theory Pipeline
  imports Reactor_Runs
begin

text \<open>
  Pipelined requests on one connection of \<^verbatim>\<open>src/src/reactor.c\<close>: a client sends several requests at once, and
  the server owes it their replies in the order of the requests. \<open>owed\<close> is what is still to be sent,
  for the response in progress and for the requests that wait in the input buffer; sending moves
  bytes from it onto the wire and loses none.
\<close>

section \<open>Requests and what is owed for them\<close>

record request =
  rq_method :: string
  rq_path :: string
  rq_query :: "string option"
  rq_version :: string
  rq_headers :: "header list"

definition request_bytes :: "request \<Rightarrow> string" where
  "request_bytes x = render_line (rq_method x) (rq_path x) (rq_query x) (rq_version x) @ render_headers (rq_headers x) @ CRLF"

definition request_ok :: "request \<Rightarrow> bool" where
  "request_ok x \<longleftrightarrow> line_ok (rq_method x) (rq_path x) (rq_query x) (rq_version x) \<and> list_all header_ok (rq_headers x) \<and>
     (rq_version x = ''HTTP/1.1'' \<longrightarrow> list_ex is_host (rq_headers x))"

text \<open>
  The replies to a sequence of requests: \<open>hist\<close> are the header lines of the requests before, which
  the server still looks at, \<open>fds\<close> the outcomes of the coming \<open>open\<close> calls. After a reply that is
  not persistent there is no other.
\<close>

fun replies :: "(int \<Rightarrow> nat \<Rightarrow> char) \<Rightarrow> (string \<Rightarrow> stat_result) \<Rightarrow> string \<Rightarrow> int list \<Rightarrow> string list \<Rightarrow> request list \<Rightarrow> string" where
  "replies content st root fds hist [] = []"
| "replies content st root fds hist (x # xs) =
     (let m = method_from_token (rq_method x);
          lines = hist @ map header_text (rq_headers x);
          ka = fold connection_override lines (rq_version x = ''HTTP/1.1'') in
      reply_bytes content (hd fds) ka (reply_of st (fds \<noteq> [] \<and> 0 \<le> hd fds) root m (rq_path x)) @
      (if ka then replies content st root (opens_after st root m (rq_path x) fds) lines xs else []))"

text \<open>What the server has left for the requests that follow: the outcomes of \<open>open\<close> and the header lines.\<close>

fun after_requests :: "(string \<Rightarrow> stat_result) \<Rightarrow> string \<Rightarrow> int list \<times> string list \<Rightarrow> request list \<Rightarrow> (int list \<times> string list) option" where
  "after_requests st root s [] = Some s"
| "after_requests st root s (x # xs) =
     (let lines = snd s @ map header_text (rq_headers x) in
      if fold connection_override lines (rq_version x = ''HTTP/1.1'') then
        after_requests st root (opens_after st root (method_from_token (rq_method x)) (rq_path x) (fst s), lines) xs
      else None)"

lemma after_append: "after_requests st root s (xs @ ys) = Option.bind (after_requests st root s xs) (\<lambda>s'. after_requests st root s' ys)"
  by (induction xs arbitrary: s) (simp_all add: Let_def)

lemma replies_append:
  "replies content st root fds hist (xs @ ys) = replies content st root fds hist xs @
     (case after_requests st root (fds, hist) xs of None \<Rightarrow> [] | Some (fds', hist') \<Rightarrow> replies content st root fds' hist' ys)"
  by (induction xs arbitrary: fds hist) (simp_all add: Let_def)

definition header_lines :: "http_request \<Rightarrow> string list" where
  "header_lines q = map (header_str q) [0..<num_headers q]"

definition owed :: "(int \<Rightarrow> nat \<Rightarrow> char) \<Rightarrow> world \<Rightarrow> string \<Rightarrow> conn \<Rightarrow> request list \<Rightarrow> string" where
  "owed content w root c xs =
     pending content c @ (if keep_alive c then replies content (stats w) root (opens w) (header_lines (req c)) xs else [])"

text \<open>The requests a connection can take: well formed, few enough headers in all, and paths that fit.\<close>

definition requests_ok :: "string \<Rightarrow> nat \<Rightarrow> request list \<Rightarrow> bool" where
  "requests_ok root n xs \<longleftrightarrow> list_all (\<lambda>x. request_ok x \<and> length root + length (rq_path x) + 11 < FULL_SIZE) xs \<and>
     n + length (concat (map rq_headers xs)) \<le> MAX_HEADERS"

lemma requests_ok_Cons:
  "requests_ok root n (x # xs) \<longleftrightarrow> request_ok x \<and> length root + length (rq_path x) + 11 < FULL_SIZE \<and>
     n + length (rq_headers x) \<le> MAX_HEADERS \<and> requests_ok root (n + length (rq_headers x)) xs"
  by (auto simp: requests_ok_def)

section \<open>One request of the sequence\<close>

text \<open>The request structure \<open>q\<close> when \<open>x\<close> was parsed into \<open>q0\<close>.\<close>

definition completes :: "http_request \<Rightarrow> request \<Rightarrow> http_request \<Rightarrow> bool" where
  "completes q0 x q \<longleftrightarrow> req_method q = method_from_token (rq_method x) \<and> path_str q = rq_path x \<and>
     header_lines q = header_lines q0 @ map header_text (rq_headers x) \<and> num_headers q = num_headers q0 + length (rq_headers x) \<and>
     req_keep_alive q = fold connection_override (header_lines q) (rq_version x = ''HTTP/1.1'')"

lemma request_decided:
  assumes "request_ok x" "num_headers q + length (rq_headers x) \<le> MAX_HEADERS"
  obtains p' q' where "decided_by http_parser_init q (request_bytes x) HTTP_PARSE_DONE p' q'" "completes q x q'"
proof -
  have ok: "line_ok (rq_method x) (rq_path x) (rq_query x) (rq_version x)" "list_all header_ok (rq_headers x)"
    "rq_version x = ''HTTP/1.1'' \<longrightarrow> list_ex is_host (rq_headers x)" using assms(1) by (auto simp: request_ok_def)
  note fr = feed_render [OF ok(1,2) assms(2) ok(3)]
  from fr(1) [of "[]"] obtain p1 q1 where
    f: "http_parser_feed http_parser_init q (request_bytes x) = Some (HTTP_PARSE_DONE, p1, parser_finalize q1)"
    "req_method q1 = method_from_token (rq_method x)" "path_str q1 = rq_path x" "version_str q1 = rq_version x"
    "num_headers q1 = num_headers q + length (rq_headers x)"
    "map (header_str q1) [0..<num_headers q1] = map (header_str q) [0..<num_headers q] @ map header_text (rq_headers x)"
    by (auto simp: request_bytes_def)
  have "butlast (request_bytes x) = render_line (rq_method x) (rq_path x) (rq_query x) (rq_version x) @ render_headers (rq_headers x) @ [CR]"
    by (simp add: request_bytes_def butlast_append)
  then have "decided_by http_parser_init q (request_bytes x) HTTP_PARSE_DONE p1 (parser_finalize q1)"
    using f(1) fr(2) by (simp add: decided_by_def request_bytes_def)
  then show ?thesis
    using f by (intro that [of p1 "parser_finalize q1"]) (simp_all add: completes_def header_lines_def finalize_keep_alive)
qed

text \<open>
  A connection that has parsed the first part \<open>pre\<close> of a request, begun with \<open>q0\<close> in its request
  structure.
\<close>

definition parsing :: "http_request \<Rightarrow> string \<Rightarrow> conn \<Rightarrow> bool" where
  "parsing q0 pre c \<longleftrightarrow> http_parser_feed http_parser_init q0 pre = Some (HTTP_PARSE_INCOMPLETE, parser c, req c)"

lemma init_not_done: "\<not> p_done http_parser_init"
  by (simp add: http_parser_init_def)

lemma parsing_Nil: "parsing q0 [] c \<longleftrightarrow> parser c = http_parser_init \<and> req c = q0"
  by (auto simp: parsing_def http_parser_feed_def init_not_done)

text \<open>What was parsed of a request is never the whole of it.\<close>

lemma parsing_short:
  assumes "parsing q0 pre c" "pre @ fut = concat (map request_bytes xs)" "requests_ok root (num_headers q0) xs"
  shows "(xs = [] \<and> pre = []) \<or> (\<exists>x ys. xs = x # ys \<and> strict_prefix pre (request_bytes x))"
proof (cases xs)
  case (Cons x ys)
  with assms(3) have "request_ok x" "num_headers q0 + length (rq_headers x) \<le> MAX_HEADERS" by (simp_all add: requests_ok_Cons)
  then obtain p' q' where "decided_by http_parser_init q0 (request_bytes x) HTTP_PARSE_DONE p' q'" using request_decided by metis
  then have "\<not> prefix (request_bytes x) pre"
    using assms(1) feed_final [of http_parser_init q0 "request_bytes x"] by (auto simp: prefix_def decided_by_def parsing_def)
  moreover have "pre @ fut = request_bytes x @ concat (map request_bytes ys)" using assms(2) Cons by simp
  then have "prefix pre (request_bytes x) \<or> prefix (request_bytes x) pre" by (metis prefixI prefix_same_cases)
  ultimately show ?thesis using Cons by (auto simp: strict_prefix_def)
qed (use assms(2) in simp)

lemma parsing_all:
  assumes "parsing q0 (concat (map request_bytes xs)) c" "requests_ok root (num_headers q0) xs"
  shows "xs = []"
  using parsing_short [OF assms(1) _ assms(2), of "[]"] by (auto dest!: prefix_length_less)

text \<open>The bytes that come next complete the request or leave it incomplete.\<close>

lemma next_request:
  assumes "parsing q0 pre c" "pre @ bs @ fut = concat (map request_bytes xs)" "requests_ok root (num_headers q0) xs"
  obtains (whole) x ys b rest where "xs = x # ys" "bs = b @ rest" "pre @ b = request_bytes x" "rest @ fut = concat (map request_bytes ys)"
  | (part) p q where "http_parser_feed http_parser_init q0 (pre @ bs) = Some (HTTP_PARSE_INCOMPLETE, p, q)"
proof -
  consider (none) "xs = []" "pre = []" | (some) x ys where "xs = x # ys" "strict_prefix pre (request_bytes x)"
    using parsing_short [OF assms] by blast
  then show ?thesis
  proof cases
    case none
    with assms(1,2) show ?thesis by (auto simp: parsing_def intro: part)
  next
    case (some x ys)
    then obtain b where b: "request_bytes x = pre @ b" by (auto simp: strict_prefix_def prefix_def)
    with some assms(2) have eq: "bs @ fut = b @ concat (map request_bytes ys)" by simp
    then consider (more) t where "b = bs @ t" "t \<noteq> []" | (all) rest where "bs = b @ rest" "rest @ fut = concat (map request_bytes ys)"
      by (auto simp: append_eq_append_conv2) (metis append_Nil append_Nil2)
    then show ?thesis
    proof cases
      case (more t)
      have "request_ok x" "num_headers q0 + length (rq_headers x) \<le> MAX_HEADERS" using some(1) assms(3) by (simp_all add: requests_ok_Cons)
      then obtain p' q' where "decided_by http_parser_init q0 ((pre @ bs) @ t) HTTP_PARSE_DONE p' q'"
        using request_decided b more(1) by (metis append.assoc)
      from this init_not_done show ?thesis using more(2) by (cases rule: decided_by_split) (auto intro: part)
    next
      case (all rest)
      with some(1) b show ?thesis by (auto intro: whole)
    qed
  qed
qed

text \<open>The rest of the request in the buffer, of which \<open>pre\<close> was parsed before.\<close>

lemma parsing_decided:
  assumes "parsing q0 pre c" "pre @ b = request_bytes x" "request_ok x" "num_headers q0 + length (rq_headers x) \<le> MAX_HEADERS"
  obtains p' q' where "decided_by (parser c) (req c) b HTTP_PARSE_DONE p' q'" "completes q0 x q'"
proof -
  obtain p' q' where d: "decided_by http_parser_init q0 (pre @ b) HTTP_PARSE_DONE p' q'" "completes q0 x q'"
    using request_decided [OF assms(3,4)] assms(2) by metis
  from d(1) init_not_done have "decided_by (parser c) (req c) b HTTP_PARSE_DONE p' q'"
    using assms(1) by (cases rule: decided_by_split) (auto simp: parsing_def decided_by_def)
  then show ?thesis using d(2) by (rule that)
qed

text \<open>The requests \<open>zs\<close> since the state \<open>s\<close>, up to and with the one whose reply is in progress.\<close>

definition behind :: "world \<Rightarrow> string \<Rightarrow> conn \<Rightarrow> int list \<times> string list \<Rightarrow> request list \<Rightarrow> bool" where
  "behind w root c s zs \<longleftrightarrow> (keep_alive c \<longrightarrow> after_requests (stats w) root s zs = Some (opens w, header_lines (req c)))"

text \<open>The reply to \<open>x\<close> is ready: with it, the connection owes what the specification gives for \<open>x\<close> and the requests behind it.\<close>

definition answered :: "(int \<Rightarrow> nat \<Rightarrow> char) \<Rightarrow> world \<Rightarrow> string \<Rightarrow> http_request \<Rightarrow> request \<Rightarrow> request list \<Rightarrow> world \<Rightarrow> conn \<Rightarrow> bool" where
  "answered content w root q0 x xs w' c' \<longleftrightarrow> (\<exists>ds. trace w' = trace w @ ds \<and> wire content (fd c') ds = []) \<and> allocs w' = [] \<and> same_scripts w w' \<and>
     writing_ok c' \<and> phase c' = RSP_HEAD \<and> head_off c' = 0 \<and> num_headers (req c') = num_headers q0 + length (rq_headers x) \<and>
     pending content c' \<noteq> [] \<and> behind w' root c' (opens w, header_lines q0) [x] \<and>
     owed content w' root c' xs = replies content (stats w) root (opens w) (header_lines q0) (x # xs)"

lemma answer_done:
  assumes c: "buffer_ok c" "c_head c = None" "completes q0 x (req c)"
    and env: "allocs w = []" "sizes_ok (stats w)" "length root + length (rq_path x) + 11 < FULL_SIZE"
  obtains w' c' where "answer w root c HTTP_PARSE_DONE = Some (w', c')" "answered content w root q0 x xs w' c'" "fd c' = fd c" "input c' = input c"
proof -
  define rep where "rep = reply_of (stats w) (opens w \<noteq> [] \<and> 0 \<le> hd (opens w)) root (method_from_token (rq_method x)) (rq_path x)"
  note q = c(3) [unfolded completes_def]
  from build_response_memory [of w root c] env q obtain w' c2 where
    b: "build_response w root c = Some (w', c2)" "ready c2 (hd (opens w)) rep" "head_ok c2" "head_off c2 = 0"
    "phase c2 = RSP_HEAD" "keep_alive c2 = req_keep_alive (req c)" "allocs w' = []"
    "opens w' = opens_after (stats w) root (method_from_token (rq_method x)) (rq_path x) (opens w)"
    "trace w' = trace w @ (case rep of File_Head _ _ \<Rightarrow> [Close (hd (opens w))] | _ \<Rightarrow> [])"
    unfolding rep_def by (auto cong: reply.case_cong)
  note same = build_response_same [OF b(1)]
  have opened: "\<forall>f sz. rep = Send_File f sz \<longrightarrow> 0 \<le> hd (opens w)"
    by (auto simp: rep_def reply_of_def split: if_splits stat_result.splits)
  note pend = ready_pending [OF b(2,5,4,3) opened]
  have more: "pending content c2 \<noteq> []" unfolding pend(1) by (cases rep) (simp_all add: head_text_def)
  let ?d = "c2\<lparr>c_state := ST_WRITING\<rparr>" and ?ds = "case rep of File_Head _ _ \<Rightarrow> [Close (hd (opens w))] | _ \<Rightarrow> []"
  have in2: "fd ?d = fd c" "input ?d = input c" "buffer_ok ?d" "req ?d = req c" "stats w' = stats w"
    using same c(1) by (simp_all add: same_input_def same_scripts_def buffer_ok_def input_def)
  have "built w c (Some (w', c2))" using build_response_built [OF env(2), of c root] b(1) by simp
  with c(2) have "\<forall>h. c_head c2 = Some h \<longrightarrow> served h" by (auto simp: built_def response_set_def)
  with in2 pend have wr: "writing_ok ?d" by (simp add: writing_ok_def)
  have "wire content (fd ?d) ?ds = []" by (cases rep) simp_all
  with b(9) have tr: "\<exists>ds. trace w' = trace w @ ds \<and> wire content (fd ?d) ds = []" by blast
  have past: "behind w' root ?d (opens w, header_lines q0) [x]" using b(6,8) in2(4,5) q by (simp add: behind_def)
  have owed: "owed content w' root ?d xs = replies content (stats w) root (opens w) (header_lines q0) (x # xs)"
    using b(6,8) in2(4,5) q pend(1) by (simp add: owed_def Let_def rep_def)
  have "answered content w root q0 x xs w' ?d"
    unfolding answered_def using tr past owed wr more b(4,5,7) same in2(4) q by simp
  moreover have "answer w root c HTTP_PARSE_DONE = Some (w', ?d)" using b(1) by (simp add: answer_def)
  ultimately show ?thesis using in2(1,2) by (intro that [of w' ?d])
qed

text \<open>Parsing and answering the request at the front of the input.\<close>

lemma answer_next:
  assumes c: "c_state c = ST_READING" "\<not> p_done (parser c)" "buffer_ok c" "c_head c = None"
    and inp: "parsing q0 pre c" "input c = b @ rest" "pre @ b = request_bytes x"
    and ok: "requests_ok root (num_headers q0) (x # xs)" and env: "allocs w = []" "sizes_ok (stats w)"
  obtains w' c' where "conn_process_input w root c = Some (w', c')" "answered content w root q0 x xs w' c'" "fd c' = fd c" "input c' = rest"
proof -
  have x: "request_ok x" "num_headers q0 + length (rq_headers x) \<le> MAX_HEADERS" "length root + length (rq_path x) + 11 < FULL_SIZE"
    using ok by (simp_all add: requests_ok_Cons)
  obtain p q where d: "decided_by (parser c) (req c) b HTTP_PARSE_DONE p q" "completes q0 x q" using parsing_decided [OF inp(1,3) x(1,2)] .
  let ?c = "c\<lparr>parser := p, req := q, in_head := in_head c + length b\<rparr>"
  have run: "conn_process_input w root c = answer w root ?c HTTP_PARSE_DONE"
    using c inp(2) d(1) by (intro process_input_decided)
  have "buffer_ok ?c" using arg_cong [OF inp(2), of length] c(3) by (auto simp: input_def buffer_ok_def)
  moreover have "input ?c = rest" using input_drop [of c "length b"] inp(2) by (simp add: input_def)
  moreover have "c_head ?c = None" "completes q0 x (req ?c)" "fd ?c = fd c" using c(4) d(2) by simp_all
  ultimately show ?thesis using answer_done [of ?c q0 x w root content xs] env x(3) that unfolding run by metis
qed

section \<open>Sending the replies\<close>

lemma head_loop_rest: "head_loop sock h off len ws = (e, off', cs, ws') \<Longrightarrow> set ws' \<subseteq> set ws"
  by (induction ws arbitrary: off cs) (auto split: if_splits io_result.splits prod.splits simp: Let_def)

lemma send_loop_rest: "send_loop sock f off len ss = (e, off', cs, ss') \<Longrightarrow> set ss' \<subseteq> set ss"
  by (induction ss arbitrary: off cs) (auto split: if_splits io_result.splits prod.splits simp: Let_def)

lemma flush_scripts:
  assumes "flush w c = (e, w', c')"
  shows "allocs w' = allocs w" "opens w' = opens w" "reads w' = reads w" "reliable w \<Longrightarrow> reliable w'"
  using assms
  by (auto simp: flush_def write_head_def write_file_def reliable_def Let_def
      split: if_splits prod.splits io_end.splits dest!: head_loop_rest send_loop_rest)

text \<open>
  A connection in the middle of a reply: the requests still to be answered are in its input
  followed by \<open>fut\<close>, what the client has yet to send or the server to read.
\<close>

definition owing :: "(int \<Rightarrow> nat \<Rightarrow> char) \<Rightarrow> nat \<Rightarrow> world \<Rightarrow> string \<Rightarrow> conn \<Rightarrow> string \<Rightarrow> request list \<Rightarrow> bool" where
  "owing content n w root c fut xs \<longleftrightarrow> fd c = n \<and> writing_ok c \<and> input c @ fut = concat (map request_bytes xs) \<and>
     requests_ok root (num_headers (req c)) xs \<and> allocs w = [] \<and> sizes_ok (stats w) \<and> pending content c \<noteq> []"

text \<open>A connection that waits for the rest of a request, or for the first byte of one.\<close>

definition midway :: "nat \<Rightarrow> world \<Rightarrow> string \<Rightarrow> conn \<Rightarrow> string \<Rightarrow> http_request \<Rightarrow> string \<Rightarrow> request list \<Rightarrow> bool" where
  "midway n w root c fut q0 pre xs \<longleftrightarrow> fd c = n \<and> reading_ok c \<and> parsing q0 pre c \<and> pre @ fut = concat (map request_bytes xs) \<and>
     requests_ok root (num_headers q0) xs \<and> allocs w = [] \<and> sizes_ok (stats w)"

text \<open>
  What is due to the client of a connection between two events, when the requests \<open>zs\<close> were taken
  since the state \<open>s\<close>: \<open>out\<close>, the rest of the reply to the last of them and the replies to the
  requests \<open>xs\<close> that follow.
\<close>

definition due :: "(int \<Rightarrow> nat \<Rightarrow> char) \<Rightarrow> nat \<Rightarrow> world \<Rightarrow> string \<Rightarrow> conn \<Rightarrow> string \<Rightarrow> int list \<times> string list \<Rightarrow> request list \<Rightarrow>
    request list \<Rightarrow> string \<Rightarrow> bool" where
  "due content n w root c fut s zs xs out \<longleftrightarrow>
     (if c_state c = ST_READING then
        (\<exists>q0 pre. midway n w root c fut q0 pre xs \<and> after_requests (stats w) root s zs = Some (opens w, header_lines q0) \<and>
           out = replies content (stats w) root (opens w) (header_lines q0) xs)
      else owing content n w root c fut xs \<and> behind w root c s zs \<and> out = owed content w root c xs)"

text \<open>
  How a connection to whose client \<open>out\<close> is due is left after \<open>bytes\<close> went out: closed, or waiting
  with the rest due and the requests that belong to it still in the input or to come.
\<close>

definition delivered :: "(int \<Rightarrow> nat \<Rightarrow> char) \<Rightarrow> nat \<Rightarrow> string \<Rightarrow> int list \<times> string list \<Rightarrow> request list \<Rightarrow> string \<Rightarrow> world \<Rightarrow> world \<Rightarrow> reactor \<Rightarrow> string \<Rightarrow> bool" where
  "delivered content n fut s xs out w w' r' bytes \<longleftrightarrow>
     (case conns r' n of
        None \<Rightarrow> prefix bytes out \<and> (reliable w \<longrightarrow> bytes = out) \<and> armed w' n = None
      | Some c' \<Rightarrow> armed w' n = Some (awaits c') \<and>
          (\<exists>zs ys rest. xs = zs @ ys \<and> bytes @ rest = out \<and> due content n w' (doc_root r') c' fut s zs ys rest))"

lemma delivered_after:
  assumes "delivered content n fut s xs out w1 w' r' bytes" "reliable w \<Longrightarrow> reliable w1"
  shows "delivered content n fut s xs (pre @ out) w w' r' (pre @ bytes)"
  using assms unfolding delivered_def by (auto split: option.splits)

lemma conn_close_delivered:
  obtains w' r' ds where "conn_close w r c = (w', r')" "trace w' = trace w @ ds" "wire content sock ds = []" "conns r' (fd c) = None"
    "reads w' = reads w" "armed w' (fd c) = None"
  by (rule that [of "fst (conn_close w r c)" "snd (conn_close w r c)"]) (auto simp del: conn_close_fields, auto simp: conn_close_def)

lemma pipeline_stops:
  assumes ok: "writing_ok c" "input c @ fut = concat (map request_bytes xs)" and f: "flush w c = (e, w1, c1)"
    and stops: "e \<noteq> Flushed \<or> \<not> keep_alive c"
    and env: "requests_ok (doc_root r) (num_headers (req c)) xs" "allocs w = []" "sizes_ok (stats w)" "behind w (doc_root r) c s zs"
  shows "\<exists>w' r' cs. conn_write w r c = Some (w', r') \<and> trace w' = trace w @ cs \<and> reads w' = reads w \<and>
    delivered content (fd c) fut s (zs @ xs) (owed content w (doc_root r) c xs) w w' r' (wire content (fd c) cs)"
proof -
  have out: "out_ok c" "c_state c = ST_WRITING" "buffer_ok c" "\<forall>h. c_head c = Some h \<longrightarrow> served h" using ok(1) by (simp_all add: writing_ok_def)
  note same = flush_same [OF f] and cw = conn_write_flush [OF out(1), of w r, unfolded f prod.case] and scripts = flush_scripts [OF f]
  from flush_wire [OF f out(1), of content] obtain cs where tr: "trace w1 = trace w @ cs" "stats w1 = stats w"
    and fin: "e = Flushed \<Longrightarrow> wire content (fd c) cs = pending content c"
    and blk: "e = Blocked \<Longrightarrow> wire content (fd c) cs @ pending content c1 = pending content c \<and> out_ok c1 \<and> (c_head c1 = c_head c \<or> c_head c1 = None)"
    and brk: "e = Broken \<Longrightarrow> prefix (wire content (fd c) cs) (pending content c)" by (cases e) auto
  obtain w2 r2 ds where cl: "conn_close w1 r c1 = (w2, r2)" "trace w2 = trace w1 @ ds" "wire content (fd c) ds = []"
    "conns r2 (fd c1) = None" "reads w2 = reads w1" "armed w2 (fd c1) = None" using conn_close_delivered by metis
  consider (blocked) "e = Blocked" | (broken) "e = Broken" | (closed) "e = Flushed" "\<not> keep_alive c" using stops by (cases e) auto
  then show ?thesis
  proof cases
    case blocked
    let ?w = "mod_events w1 c1 EPOLLOUT"
    have "pending content c1 \<noteq> []" using f blocked flush_blocked [OF _ out(1)] by blast
    moreover have "writing_ok c1" using blk [OF blocked] out same by (auto simp: writing_ok_def buffer_ok_def)
    ultimately have "owing content (fd c) ?w (doc_root r) c1 fut xs"
      using ok(2) env scripts same tr by (simp add: owing_def mod_events_def input_def)
    moreover have "wire content (fd c) cs @ owed content ?w (doc_root r) c1 xs = owed content w (doc_root r) c xs"
      using blk [OF blocked] same scripts tr by (simp add: owed_def mod_events_def)
    moreover have "behind ?w (doc_root r) c1 s zs" using env(4) same scripts tr by (simp add: behind_def mod_events_def)
    ultimately have "delivered content (fd c) fut s (zs @ xs) (owed content w (doc_root r) c xs) w ?w (store r c1) (wire content (fd c) cs)"
      using same out(2) by (simp add: delivered_def store_def due_def awaits_def mod_events_def) blast
    with blocked cw tr scripts(3) show ?thesis
      by (intro exI [of _ ?w] exI [of _ "store r c1"] exI [of _ "cs @ [Epoll_Mod (fd c1) EPOLLOUT]"]) (simp add: mod_events_def)
  next
    case broken
    with f have "\<not> reliable w" by (auto dest: flush_reliable)
    with broken cw tr brk same scripts(3) cl show ?thesis
      by (intro exI [of _ w2] exI [of _ r2] exI [of _ "cs @ ds"]) (simp add: delivered_def owed_def)
  next
    case closed
    with cw tr fin same scripts(3) cl show ?thesis
      by (intro exI [of _ w2] exI [of _ r2] exI [of _ "cs @ ds"]) (simp add: delivered_def owed_def)
  qed
qed

text \<open>After the last byte of a reply, when the buffer holds no whole request.\<close>

lemma pipeline_idles:
  assumes ok: "writing_ok c" "input c @ fut = concat (map request_bytes xs)" and f: "flush w c = (Flushed, w1, c1)" "keep_alive c"
    and part: "http_parser_feed http_parser_init (req c) (input c) = Some (HTTP_PARSE_INCOMPLETE, p, q)"
    and env: "requests_ok (doc_root r) (num_headers (req c)) xs" "allocs w = []" "sizes_ok (stats w)" "behind w (doc_root r) c s zs"
  shows "\<exists>w' r' cs. conn_write w r c = Some (w', r') \<and> trace w' = trace w @ cs \<and> reads w' = reads w \<and>
    delivered content (fd c) fut s (zs @ xs) (owed content w (doc_root r) c xs) w w' r' (wire content (fd c) cs)"
proof -
  have out: "out_ok c" "buffer_ok c" using ok(1) by (simp_all add: writing_ok_def)
  note same = flush_same [OF f(1)] and scripts = flush_scripts [OF f(1)]
  from flush_wire [OF f(1) out(1), of content] obtain cs where tr: "trace w1 = trace w @ cs" "stats w1 = stats w"
    "wire content (fd c) cs = pending content c" "phase c1 = RSP_DONE" "out_ok c1" "c_head c1 = None" by auto
  let ?c = "c1\<lparr>c_state := ST_READING, parser := http_parser_init\<rparr>"
  let ?d = "?c\<lparr>parser := p, req := q, in_head := in_tail ?c\<rparr>" and ?w = "mod_events w1 c1 EPOLLIN"
  have inp: "input ?c = input c" "req ?c = req c" using same by (simp_all add: input_def)
  have "http_parser_feed (parser ?c) (req ?c) (input ?c) = Some (HTTP_PARSE_INCOMPLETE, p, q)" using part inp by simp
  from process_input_answer [OF _ _ _ this, of w1 "doc_root r"]
  have "conn_process_input w1 (doc_root r) ?c = Some (w1, ?d)"
    using same out(2) init_not_done by (auto simp: buffer_ok_def)
  then have run: "conn_write w r c = Some (mod_events w1 ?d EPOLLIN, store r ?d)"
    using conn_write_flush [OF out(1), of w r] f same by simp
  have "\<not> p_done p" using part init_not_done feed_loop_more [of http_parser_init "req c" "input c" p q] by (simp add: http_parser_feed_def)
  then have "reading_ok ?d" using out(2) same tr(4-6) by (auto simp: reading_ok_def buffer_ok_def out_ok_def head_ok_def)
  then have "midway (fd c) ?w (doc_root r) ?d fut (req c) (input c) xs"
    using ok(2) env part scripts same tr by (simp add: midway_def parsing_def mod_events_def)
  moreover have "owed content w (doc_root r) c xs =
      wire content (fd c) cs @ replies content (stats ?w) (doc_root r) (opens ?w) (header_lines (req c)) xs"
    using f(2) tr scripts by (simp add: owed_def mod_events_def)
  moreover have "after_requests (stats ?w) (doc_root r) s zs = Some (opens ?w, header_lines (req c))"
    using env(4) f(2) scripts tr by (simp add: behind_def mod_events_def)
  ultimately have "delivered content (fd c) fut s (zs @ xs) (owed content w (doc_root r) c xs) w ?w (store r ?d) (wire content (fd c) cs)"
    using same by (simp add: delivered_def store_def due_def awaits_def mod_events_def) blast
  with run tr scripts(3) show ?thesis
    by (intro exI [of _ ?w] exI [of _ "store r ?d"] exI [of _ "cs @ [Epoll_Mod (fd c1) EPOLLIN]"]) (simp add: mod_events_def)
qed

lemma pipeline_write:
  assumes "writing_ok c" "input c @ fut = concat (map request_bytes xs)" "requests_ok (doc_root r) (num_headers (req c)) xs"
    and "allocs w = []" "sizes_ok (stats w)" "behind w (doc_root r) c s zs"
  shows "\<exists>w' r' cs. conn_write w r c = Some (w', r') \<and> trace w' = trace w @ cs \<and> reads w' = reads w \<and>
    delivered content (fd c) fut s (zs @ xs) (owed content w (doc_root r) c xs) w w' r' (wire content (fd c) cs)"
  using assms
proof (induction "length xs" arbitrary: xs zs w c rule: less_induct)
  case (less xs zs w c)
  obtain e w1 c1 where f: "flush w c = (e, w1, c1)" by (metis prod_cases3)
  show ?case
  proof (cases "e = Flushed \<and> keep_alive c")
    case False
    with pipeline_stops [OF less.prems(1,2) f _ less.prems(3-6)] show ?thesis by simp
  next
    case True
    have out: "out_ok c" "c_state c = ST_WRITING" "buffer_ok c" using less.prems(1) by (simp_all add: writing_ok_def)
    note same = flush_same [OF f] and scripts = flush_scripts [OF f]
    obtain cs where tr: "trace w1 = trace w @ cs" "stats w1 = stats w" "wire content (fd c) cs = pending content c" "c_head c1 = None"
      using flush_sent [OF f out(1), where content = content] True by metis
    let ?c = "c1\<lparr>c_state := ST_READING, parser := http_parser_init\<rparr>"
    have hyp: "c_state ?c = ST_READING" "\<not> p_done (parser ?c)" "buffer_ok ?c" "c_head ?c = None" "parsing (req c) [] ?c" "fd ?c = fd c"
      "input ?c = input c"
      using same tr out(3) init_not_done by (simp_all add: buffer_ok_def input_def parsing_Nil)
    have "[] @ input c @ fut = concat (map request_bytes xs)" using less.prems(2) by simp
    from hyp(5) this less.prems(3) show ?thesis
    proof (cases rule: next_request)
      case (part p q)
      with pipeline_idles [OF less.prems(1,2) _ _ _ less.prems(3-6)] f True show ?thesis by simp
    next
      case (whole x ys b rest)
      have "input ?c = b @ rest" "requests_ok (doc_root r) (num_headers (req c)) (x # ys)" "allocs w1 = []" "sizes_ok (stats w1)"
        using whole less.prems(3-5) hyp(7) scripts(1) tr(2) by simp_all
      from answer_next [OF hyp(1-5) this(1) whole(3) this(2-4), of content] obtain w2 c2 where
        nx: "conn_process_input w1 (doc_root r) ?c = Some (w2, c2)" "fd c2 = fd c" "input c2 = rest"
        and an: "answered content w1 (doc_root r) (req c) x ys w2 c2" using hyp(6) by metis
      from an obtain ds where ds: "trace w2 = trace w1 @ ds" "wire content (fd c) ds = []" by (auto simp: answered_def nx(2))
      have a: "allocs w2 = []" "writing_ok c2" "c_state c2 = ST_WRITING" "c2\<lparr>phase := RSP_HEAD, head_off := 0\<rparr> = c2"
        "requests_ok (doc_root r) (num_headers (req c2)) ys" "stats w2 = stats w" "reads w2 = reads w" "reliable w \<Longrightarrow> reliable w2"
        using an less.prems(3) whole(1) tr(2) scripts(3,4) by (auto simp: answered_def writing_ok_def requests_ok_Cons same_scripts_def reliable_def)
      have run: "conn_write w r c = conn_write w2 r c2"
        using conn_write_flush [OF out(1), of w r] f True same nx(1) a(3,4) by simp
      have "behind w2 (doc_root r) c2 s (zs @ [x])"
        using an less.prems(6) True scripts(2) tr(2) a(6) by (simp add: answered_def behind_def after_append del: after_requests.simps)
      from less.hyps [of ys c2 w2 "zs @ [x]"] this a(1,2,5,6) nx(3) whole less.prems(5) obtain w' r' es where
        ih: "conn_write w2 r c2 = Some (w', r')" "trace w' = trace w2 @ es" "reads w' = reads w2"
          "delivered content (fd c) fut s (zs @ xs) (owed content w2 (doc_root r) c2 ys) w2 w' r' (wire content (fd c) es)"
        by (auto simp: nx(2))
      have owed: "owed content w (doc_root r) c xs = pending content c @ owed content w2 (doc_root r) c2 ys"
        using an True whole(1) scripts(2) tr(2) by (simp add: answered_def owed_def [of content w] del: replies.simps)
      have "delivered content (fd c) fut s (zs @ xs) (owed content w (doc_root r) c xs) w w' r' (pending content c @ wire content (fd c) es)"
        unfolding owed by (rule delivered_after [OF ih(4) a(8)])
      with run ih(1-3) ds tr(1,3) a(7) show ?thesis by (intro exI [of _ w'] exI [of _ r'] exI [of _ "cs @ ds @ es"]) simp
    qed
  qed
qed

lemma owing_write:
  assumes "owing content n w (doc_root r) c fut xs" "behind w (doc_root r) c s zs"
  shows "\<exists>w' r' cs. conn_write w r c = Some (w', r') \<and> trace w' = trace w @ cs \<and> reads w' = reads w \<and>
    delivered content n fut s (zs @ xs) (owed content w (doc_root r) c xs) w w' r' (wire content n cs)"
  using pipeline_write [of c fut xs r w s zs content] assms by (simp add: owing_def)

section \<open>Reading the requests\<close>

text \<open>
  What reading leaves when the pieces \<open>chunks\<close> in the socket complete the first request of \<open>xs\<close>: its reply is
  ready, and the pieces behind it are still in the socket.
\<close>

definition request_read :: "(int \<Rightarrow> nat \<Rightarrow> char) \<Rightarrow> nat \<Rightarrow> world \<Rightarrow> string \<Rightarrow> http_request \<Rightarrow> request list \<Rightarrow> string \<Rightarrow>
    string list \<Rightarrow> read_result list \<Rightarrow> world \<Rightarrow> conn \<Rightarrow> bool" where
  "request_read content n w root q0 xs fut chunks rs w' c' \<longleftrightarrow>
     (\<exists>more ds. trace w' = trace w @ ds \<and> wire content n ds = [] \<and> xs \<noteq> [] \<and> (reliable w \<longrightarrow> reliable w') \<and>
        reads w' = map RData more @ rs \<and> (\<forall>b \<in> set more. b \<noteq> []) \<and> length (concat more) < length (concat chunks) \<and>
        (list_all (\<lambda>b. length b \<le> BUFFER_SIZE) chunks \<longrightarrow> suffix more chunks) \<and>
        owing content n w' root c' (concat more @ fut) (tl xs) \<and> behind w' root c' (opens w, header_lines q0) [hd xs] \<and>
        owed content w' root c' (tl xs) = replies content (stats w) root (opens w) (header_lines q0) xs)"

text \<open>
  One readable event takes pieces from the socket until a request is complete, or goes on to what
  follows them there.
\<close>

lemma conn_read_stream:
  assumes "reading_ok c" "fd c = n" "reads w = map RData chunks @ rs" "\<forall>b \<in> set chunks. b \<noteq> []"
    and "parsing q0 pre c" "pre @ concat chunks @ fut = concat (map request_bytes xs)"
    and "requests_ok (doc_root r) (num_headers q0) xs" "allocs w = []" "sizes_ok (stats w)"
  shows "(\<exists>c'. conn_read w r c = conn_read (w\<lparr>reads := rs\<rparr>) r c' \<and> reading_ok c' \<and> fd c' = n \<and> parsing q0 (pre @ concat chunks) c') \<or>
    (\<exists>w' c'. conn_read w r c = Some (w', store r c') \<and> request_read content n w (doc_root r) q0 xs fut chunks rs w' c')"
proof -
  from assms(5-7) show ?thesis
  proof (cases rule: next_request)
    case (part p1 q1)
    then have "http_parser_feed (parser c) (req c) (concat chunks) = Some (HTTP_PARSE_INCOMPLETE, p1, q1)"
      using assms(5) feed_more by (simp add: parsing_def)
    from conn_read_more [OF assms(1,3,4) this, of r] part assms(2) show ?thesis by (auto simp: parsing_def)
  next
    case (whole x ys b rest)
    have x: "request_ok x" "num_headers q0 + length (rq_headers x) \<le> MAX_HEADERS" "length (doc_root r) + length (rq_path x) + 11 < FULL_SIZE"
      "requests_ok (doc_root r) (num_headers q0 + length (rq_headers x)) ys" using assms(7) whole(1) by (simp_all add: requests_ok_Cons)
    obtain p q where d: "decided_by (parser c) (req c) b HTTP_PARSE_DONE p q" "completes q0 x q" using parsing_decided [OF assms(5) whole(3) x(1,2)] .
    from conn_read_decided [OF assms(1,3,4) d(1) whole(2), of r] obtain c1 ms where
      c1: "conn_read w r c = map_option (\<lambda>(w, c). (w, store r c)) (answer (w\<lparr>reads := map RData ms @ rs\<rparr>) (doc_root r) c1 HTTP_PARSE_DONE)"
        "\<forall>b \<in> set ms. b \<noteq> []" "list_all (\<lambda>b. length b \<le> BUFFER_SIZE) chunks \<longrightarrow> suffix ms chunks" "input c1 @ concat ms = rest"
        "fd c1 = n" "req c1 = q" "buffer_ok c1" "c_head c1 = None" using assms(2) by auto
    let ?w = "w\<lparr>reads := map RData ms @ rs\<rparr>"
    have "completes q0 x (req c1)" "allocs ?w = []" "sizes_ok (stats ?w)" using d(2) c1(6) assms(8,9) by simp_all
    from answer_done [OF c1(7,8) this x(3), of content ys] obtain w' c' where
      an: "answer ?w (doc_root r) c1 HTTP_PARSE_DONE = Some (w', c')" "answered content ?w (doc_root r) q0 x ys w' c'" "fd c' = n" "input c' = input c1"
      using c1(5) by metis
    have short: "length (concat ms) < length (concat chunks)" using whole(2) d(1) by (auto simp: decided_by_def simp flip: c1(4))
    have scripts: "stats w' = stats w" "reads w' = map RData ms @ rs" "reliable w \<longrightarrow> reliable w'"
      using an(2) by (auto simp: answered_def same_scripts_def reliable_def)
    have "owing content n w' (doc_root r) c' (concat ms @ fut) ys"
      using an scripts(1) assms(9) x(4) whole(4) by (simp add: answered_def owing_def flip: c1(4))
    then have "request_read content n w (doc_root r) q0 xs fut chunks rs w' c'"
      using an(2,3) scripts whole(1) c1(2,3) short unfolding request_read_def answered_def
      by (auto simp: an(3) simp del: replies.simps intro!: exI [of _ ms])
    with c1(1) an(1) show ?thesis by auto
  qed
qed

text \<open>Several requests in one read.\<close>

lemma pipeline_readable:
  fixes content :: "int \<Rightarrow> nat \<Rightarrow> char"
  assumes "reading_ok c" "fd c = n" "parser c = http_parser_init" "allocs w = []" "sizes_ok (stats w)" "xs \<noteq> []"
    and "requests_ok (doc_root r) (num_headers (req c)) xs" "reads w = RData (concat (map request_bytes xs)) # rs"
    and "length (concat (map request_bytes xs)) \<le> BUFFER_SIZE"
  defines "out \<equiv> replies content (stats w) (doc_root r) (opens w) (header_lines (req c)) xs"
  shows "\<exists>w' r' cs. on_readable w r n c = Some (w', r') \<and> trace w' = trace w @ cs \<and> 
    delivered content n [] (opens w, header_lines (req c)) xs out w w' r' (wire content n cs)"
proof -
  have "parsing (req c) [] c" using assms(3) by (simp add: parsing_Nil)
  moreover have "reads w = map RData [concat (map request_bytes xs)] @ rs" using assms(8) by simp
  moreover have "concat (map request_bytes xs) \<noteq> []" using assms(6) by (cases xs) (simp_all add: request_bytes_def)
  ultimately consider (part) c' where "parsing (req c) (concat (map request_bytes xs)) c'"
    | (whole) w1 c1 where "conn_read w r c = Some (w1, store r c1)"
       "request_read content n w (doc_root r) (req c) xs [] [concat (map request_bytes xs)] rs w1 c1"
    using conn_read_stream [OF assms(1,2), of w "[concat (map request_bytes xs)]" rs "req c" "[]" "[]" xs r content] assms(4,5,7) by auto
  then show ?thesis
  proof cases
    case part
    from parsing_all [OF part assms(7)] assms(6) show ?thesis by simp
  next
    case (whole w1 c1)
    from whole(2) assms(9) obtain more ds where q: "trace w1 = trace w @ ds" "wire content n ds = []" "reliable w \<Longrightarrow> reliable w1"
      "length (concat more) < length (concat (map request_bytes xs))" "suffix more [concat (map request_bytes xs)]"
      "owing content n w1 (doc_root r) c1 (concat more) (tl xs)" "behind w1 (doc_root (store r c1)) c1 (opens w, header_lines (req c)) [hd xs]" "owed content w1 (doc_root r) c1 (tl xs) = out"
      by (auto simp: request_read_def out_def store_def)
    have "more = []" using q(4,5) by (auto simp: suffix_Cons)
    with q(6) have own: "owing content n w1 (doc_root (store r c1)) c1 [] (tl xs)" by (simp add: store_def)
    from owing_write [OF this q(7)] obtain w' r' cs where
      wr: "conn_write w1 (store r c1) c1 = Some (w', r')" "trace w' = trace w1 @ cs"
        "delivered content n [] (opens w, header_lines (req c)) xs out w1 w' r' (wire content n cs)" using q(8) assms(6) by (auto simp: store_def)
    from delivered_after [where w = w and pre = "[]", OF wr(3)] q(3)
    have "delivered content n [] (opens w, header_lines (req c)) xs out w w' r' (wire content n cs)" by simp
    moreover have "on_readable w r n c = Some (w', r')"
      using wr(1) whole(1) own by (simp add: on_readable_def store_def owing_def writing_ok_def)
    ultimately show ?thesis using q(1,2) wr(2) by (intro exI [of _ w'] exI [of _ r'] exI [of _ "ds @ cs"]) simp
  qed
qed

section \<open>Draining what is owed\<close>

text \<open>Outcomes of the calls of one writable event: the socket takes something at once, and does not fail.\<close>

definition takes :: "io_result list \<Rightarrow> bool" where
  "takes xs = (case xs of Moved m # _ \<Rightarrow> 0 < m | _ \<Rightarrow> False)"

definition productive :: "io_result list \<times> io_result list \<Rightarrow> bool" where
  "productive x \<longleftrightarrow> takes (fst x) \<and> takes (snd x) \<and> Failed \<notin> set (fst x) \<and> Moved 0 \<notin> set (fst x) \<and> Failed \<notin> set (snd x)"

text \<open>Writable events on a connection as long as it is registered for them.\<close>

fun drain :: "(io_result list \<times> io_result list) list \<Rightarrow> nat \<Rightarrow> world \<Rightarrow> reactor \<Rightarrow> (world \<times> reactor) option" where
  "drain [] n w r = Some (w, r)"
| "drain (x # io) n w r =
     (if armed w n = Some EPOLLOUT then
        (case handle_event (w\<lparr>writes := fst x, sends := snd x\<rparr>) r (n, [EPOLLOUT]) of None \<Rightarrow> None | Some (w, r) \<Rightarrow> drain io n w r)
      else Some (w, r))"

lemma drain_done: "armed w n \<noteq> Some EPOLLOUT \<Longrightarrow> drain io n w r = Some (w, r)"
  by (cases io) simp_all

lemma head_loop_moves:
  assumes run: "head_loop sock h off len ws = (e, off', cs, ws')" and "off < len" "len = length h" "takes ws"
  shows "off < off'"
proof -
  obtain m rest where ws: "ws = Moved m # rest" "0 < m" using assms(4) by (auto simp: takes_def split: list.splits io_result.splits)
  obtain e1 off1 cs1 ws1 where h: "head_loop sock h (off + min m (len - off)) len rest = (e1, off1, cs1, ws1)" by (metis prod_cases4)
  have "off + min m (len - off) \<le> off1" using head_loop_wire [OF h _ assms(3)] assms(2) by auto
  with run ws h assms(2) show ?thesis by (auto simp: Let_def)
qed

lemma send_loop_moves:
  assumes run: "send_loop sock f off len ss = (e, off', cs, ss')" and "off < len" "takes ss"
  shows "off < off'"
proof -
  obtain m rest where ss: "ss = Moved m # rest" "0 < m" using assms(3) by (auto simp: takes_def split: list.splits io_result.splits)
  define n where "n = min m (min (len - off) SENDFILE_MAX)"
  obtain e1 off1 cs1 ss1 where h: "send_loop sock f (off + n) len rest = (e1, off1, cs1, ss1)" by (metis prod_cases4)
  have "off + n \<le> off1" "0 < n" using send_loop_wire [OF h] assms(2) ss(2) by (auto simp: n_def)
  moreover have "off' = off1" using run ss(1) h assms(2) by (auto simp: n_def Let_def)
  ultimately show ?thesis by simp
qed

lemma write_head_moves:
  assumes h: "write_head w c = (e, w', c')" and ok: "out_ok c" "takes (writes w)" and e: "e \<noteq> Flushed" and tr: "trace w' = trace w @ cs"
  shows "wire content (fd c) cs \<noteq> []"
proof -
  from h e obtain off ws where l: "head_loop (fd c) (head_bytes c) (head_off c) (head_len c) (writes w) = (e, off, cs, ws)"
    using tr by (auto simp: write_head_def Let_def split: if_splits prod.splits)
  have len: "head_off c \<le> head_len c" "head_len c = length (head_bytes c)" using ok(1) by (auto simp: out_ok_def head_ok_def head_bytes_length)
  note hw = head_loop_wire [OF l len, of content]
  have "head_off c < head_len c" using hw e len(1) by (cases "head_off c = head_len c") auto
  from head_loop_moves [OF l this len(2) ok(2)] have "length (drop off (head_bytes c)) < length (drop (head_off c) (head_bytes c))"
    using hw len(2) by auto
  moreover have "drop (head_off c) (head_bytes c) = wire content (fd c) cs @ drop off (head_bytes c)" using hw by simp
  ultimately show ?thesis by auto
qed

lemma write_file_moves:
  assumes f: "write_file w c = (e, w', c')" and ok: "out_ok c" "phase c \<noteq> RSP_HEAD" "takes (sends w)"
    and more: "pending content c \<noteq> []" and tr: "trace w' = trace w @ cs"
  shows "wire content (fd c) cs \<noteq> []"
proof -
  have p: "phase c = RSP_SENDFILE" "file_off c < file_len c"
    using ok(2) more by (cases "phase c"; simp add: pending_def file_part_def split: if_splits)+
  obtain e1 off ds ss where l: "send_loop (fd c) (file_fd c) (file_off c) (file_len c) (sends w) = (e1, off, ds, ss)" by (metis prod_cases4)
  have cs: "wire content (fd c) cs = wire content (fd c) ds"
    using f tr l p(1) by (cases e1) (auto simp: write_file_def)
  note sw = send_loop_wire [OF l less_imp_le [OF p(2)], of content]
  have "length [off..<file_len c] < length [file_off c..<file_len c]" using send_loop_moves [OF l p(2) ok(3)] sw p(2) by auto
  moreover have "map (content (file_fd c)) [file_off c..<file_len c] = wire content (fd c) ds @ map (content (file_fd c)) [off..<file_len c]"
    using sw by simp
  ultimately show ?thesis unfolding cs by (metis append_Nil length_map less_irrefl)
qed

lemma flush_moves:
  assumes f: "flush w c = (e, w', c')" and ok: "out_ok c" "takes (writes w)" "takes (sends w)"
    and more: "pending content c \<noteq> []" and tr: "trace w' = trace w @ cs"
  shows "wire content (fd c) cs \<noteq> []"
proof -
  obtain e1 w1 c1 where h: "write_head w c = (e1, w1, c1)" by (metis prod_cases3)
  from write_head_wire [OF h ok(1), of content] obtain cs1 where 1: "trace w1 = trace w @ cs1" "out_ok c1"
    "wire content (fd c) cs1 @ pending content c1 = pending content c" "e1 = Flushed \<longrightarrow> phase c1 \<noteq> RSP_HEAD" by blast
  show ?thesis
  proof (cases "e1 = Flushed")
    case False
    with f h have "w' = w1" "e = e1" by (auto simp: flush_def split: io_end.splits)
    with write_head_moves [OF h ok(1,2) False 1(1)] tr 1(1) show ?thesis by simp
  next
    case True
    with f h have g: "write_file w1 c1 = (e, w', c')" by (simp add: flush_def)
    from write_file_wire [OF g 1(2)] True 1(4) obtain cs2 where 2: "trace w' = trace w1 @ cs2" by blast
    have same: "fd c1 = fd c" "sends w1 = sends w"
      using write_head_same [OF h] h by (auto simp: write_head_def Let_def split: if_splits prod.splits)
    have "wire content (fd c) cs1 \<noteq> [] \<or> wire content (fd c) cs2 \<noteq> []"
      using write_file_moves [OF g 1(2) _ _ _ 2, of content] True 1(3,4) same ok(3) more by auto
    with tr 1(1) 2 show ?thesis by auto
  qed
qed

lemma owing_moves:
  assumes "owing content n w (doc_root r) c fut xs" "takes (writes w)" "takes (sends w)"
    and "conn_write w r c = Some (w', r')" "trace w' = trace w @ cs"
  shows "wire content n cs \<noteq> []"
proof -
  have o: "fd c = n" "writing_ok c" "sizes_ok (stats w)" "pending content c \<noteq> []" "out_ok c"
    using assms(1) by (auto simp: owing_def writing_ok_def)
  obtain e w2 c2 where f: "flush w c = (e, w2, c2)" by (metis prod_cases3)
  obtain es where "trace w2 = trace w @ es" "wire content n es \<noteq> []"
    using flush_sent [OF f o(5)] flush_moves [OF f o(5) assms(2,3) o(4)] o(1) by metis
  with conn_write_after [OF assms(4) o(2,3) f] assms(5) show ?thesis by (auto simp: prefix_def)
qed

text \<open>When nothing more is to come, a connection that waits for input owes nothing.\<close>

lemma due_idle:
  assumes "due content n w root c [] s zs xs out" "c_state c = ST_READING"
  shows "xs = []" "out = []"
proof -
  from assms obtain q0 pre where "parsing q0 (concat (map request_bytes xs)) c" "requests_ok root (num_headers q0) xs"
    and out: "out = replies content (stats w) root (opens w) (header_lines q0) xs" by (auto simp: due_def midway_def)
  from parsing_all [OF this(1,2)] show "xs = []" .
  with out show "out = []" by simp
qed

lemma due_buffered:
  assumes "due content n w root c [] s zs xs out"
  shows "input c = concat (map request_bytes xs) \<and> (if c_state c = ST_READING then xs = [] \<and> out = [] else owed content w root c xs = out)"
  using assms due_idle [OF assms] by (auto simp: due_def owing_def midway_def reading_ok_def input_def split: if_splits)

text \<open>Enough productive events send everything a connection owes.\<close>

lemma drain_due:
  assumes "due content n w (doc_root r) c [] s zs xs out" "conns r n = Some c" "armed w n = Some (awaits c)" "list_all productive io"
    and "length out \<le> length io"
  shows "\<exists>w' r' cs. drain io n w r = Some (w', r') \<and> trace w' = trace w @ cs \<and> wire content n cs = out"
  using assms
proof (induction io arbitrary: w r c zs xs out)
  case Nil
  then show ?case by simp
next
  case (Cons x io)
  show ?case
  proof (cases "c_state c = ST_READING")
    case True
    with due_idle [OF Cons.prems(1)] Cons.prems(3) show ?thesis by (simp add: drain_done awaits_def)
  next
    case False
    let ?w = "w\<lparr>writes := fst x, sends := snd x\<rparr>"
    have o: "owing content n ?w (doc_root r) c [] xs" "behind ?w (doc_root r) c s zs" and owed: "out = owed content ?w (doc_root r) c xs"
      using Cons.prems(1) False by (simp_all add: due_def owing_def owed_def behind_def)
    have rel: "reliable ?w" "takes (writes ?w)" "takes (sends ?w)" using Cons.prems(4) by (auto simp: productive_def reliable_def)
    from owing_write [OF o] obtain w1 r1 cs where
      w1: "conn_write ?w r c = Some (w1, r1)" "trace w1 = trace ?w @ cs" "delivered content n [] s (zs @ xs) out ?w w1 r1 (wire content n cs)"
      unfolding owed by blast
    note moved = owing_moves [OF o(1) rel(2,3) w1(1,2)]
    have step: "drain (x # io) n w r = drain io n w1 r1"
      using Cons.prems(2,3) False w1(1) by (simp add: handle_event_def awaits_def)
    show ?thesis
    proof (cases "conns r1 n")
      case None
      with w1(3) rel(1) have "armed w1 n = None" "wire content n cs = out" by (auto simp: delivered_def)
      with step w1(2) show ?thesis by (simp add: drain_done)
    next
      case (Some c')
      with w1(3) obtain zs' ys rest where a: "armed w1 n = Some (awaits c')" and rest: "wire content n cs @ rest = out"
        and due: "due content n w1 (doc_root r1) c' [] s zs' ys rest" by (auto simp: delivered_def)
      have "length rest < length out" using moved by (simp flip: rest)
      then have "length rest \<le> length io" using Cons.prems(5) by simp
      with Cons.IH [OF due Some a] Cons.prems(4) obtain w' r' ds where
        "drain io n w1 r1 = Some (w', r')" "trace w' = trace w1 @ ds" "wire content n ds = rest" by auto
      with step w1(2) rest show ?thesis by (intro exI [of _ w'] exI [of _ r'] exI [of _ "cs @ ds"]) simp
    qed
  qed
qed

lemma delivered_drained:
  assumes "delivered content n [] s xs out w w' r' bytes" "reliable w" "list_all productive io" "length out \<le> length io"
  shows "\<exists>w'' r'' ds. drain io n w' r' = Some (w'', r'') \<and> trace w'' = trace w' @ ds \<and> bytes @ wire content n ds = out"
proof (cases "conns r' n")
  case None
  with assms(1,2) show ?thesis by (auto simp: delivered_def drain_done)
next
  case (Some c')
  with assms(1) obtain zs ys rest where a: "armed w' n = Some (awaits c')" and rest: "bytes @ rest = out"
    and due: "due content n w' (doc_root r') c' [] s zs ys rest" by (auto simp: delivered_def)
  have "length rest \<le> length io" using assms(4) rest by auto
  with drain_due [OF due Some a assms(3)] rest show ?thesis by auto
qed

section \<open>Properties\<close>

text \<open>C3. Pipelined requests are answered in order. When one read on an idle connection brings the
  texts of several well-formed requests, handling the readable event sends the replies the
  specification gives, one after the other and nothing between them, up to and with the first that
  is not persistent. If the socket blocks, the connection stays with what it still owes: the rest of
  the reply in progress and the replies to the requests still in its buffer; when it waits for
  input again everything is out. It is closed early only if a socket call failed. And nothing stays owed: if no call fails, as
  many writable events as there are bytes in the replies, each of which finds the socket ready to take
  something, get them all out.\<close>

theorem pipeline_served:
  fixes content :: "int \<Rightarrow> nat \<Rightarrow> char"
  assumes "reading_ok c" "fd c = n" "parser c = http_parser_init" "allocs w = []" "sizes_ok (stats w)" "xs \<noteq> []"
    and "requests_ok (doc_root r) (num_headers (req c)) xs" "reads w = RData (concat (map request_bytes xs)) # rs"
    and "length (concat (map request_bytes xs)) \<le> BUFFER_SIZE"
  defines "out \<equiv> replies content (stats w) (doc_root r) (opens w) (header_lines (req c)) xs"
  shows "\<exists>w' r' cs. on_readable w r n c = Some (w', r') \<and> trace w' = trace w @ cs \<and>
    (case conns r' n of
       None \<Rightarrow> prefix (wire content n cs) out \<and> (reliable w \<longrightarrow> wire content n cs = out)
     | Some c' \<Rightarrow> armed w' n = Some (awaits c') \<and>
         (\<exists>ys. suffix ys xs \<and> input c' = concat (map request_bytes ys) \<and>
            (if c_state c' = ST_READING then ys = [] \<and> wire content n cs = out
             else wire content n cs @ owed content w' (doc_root r') c' ys = out))) \<and>
    (\<forall>io. reliable w \<and> list_all productive io \<and> length out \<le> length io \<longrightarrow>
       (\<exists>w'' r'' ds. drain io n w' r' = Some (w'', r'') \<and> trace w'' = trace w' @ ds \<and> wire content n (cs @ ds) = out))"
proof -
  from pipeline_readable [OF assms(1-9), of content] obtain w' r' cs where
    rd: "on_readable w r n c = Some (w', r')" "trace w' = trace w @ cs" and d: "delivered content n [] (opens w, header_lines (req c)) xs out w w' r' (wire content n cs)"
    unfolding out_def by blast
  from delivered_drained [OF d] have "\<forall>io. reliable w \<and> list_all productive io \<and> length out \<le> length io \<longrightarrow>
      (\<exists>w'' r'' ds. drain io n w' r' = Some (w'', r'') \<and> trace w'' = trace w' @ ds \<and> wire content n (cs @ ds) = out)" by simp
  moreover have "case conns r' n of
       None \<Rightarrow> prefix (wire content n cs) out \<and> (reliable w \<longrightarrow> wire content n cs = out)
     | Some c' \<Rightarrow> armed w' n = Some (awaits c') \<and>
         (\<exists>ys. suffix ys xs \<and> input c' = concat (map request_bytes ys) \<and>
            (if c_state c' = ST_READING then ys = [] \<and> wire content n cs = out
             else wire content n cs @ owed content w' (doc_root r') c' ys = out))"
  proof (cases "conns r' n")
    case None
    with d show ?thesis by (simp add: delivered_def)
  next
    case (Some c')
    with d obtain zs ys rest where y: "armed w' n = Some (awaits c')" "xs = zs @ ys" "wire content n cs @ rest = out"
      "due content n w' (doc_root r') c' [] (opens w, header_lines (req c)) zs ys rest" by (auto simp: delivered_def)
    from due_buffered [OF y(4)] y(1-3) Some show ?thesis
      by (simp add: suffix_def split del: if_split) (auto split: if_splits)
  qed
  ultimately show ?thesis using rd by blast
qed

definition two_requests :: "request list" where
  "two_requests =
     [\<lparr>rq_method = ''HEAD'', rq_path = ''/a.css'', rq_query = None, rq_version = ''HTTP/1.1'', rq_headers = [(''Host'', ''x'')]\<rparr>,
      \<lparr>rq_method = ''GET'', rq_path = ''/b'', rq_query = None, rq_version = ''HTTP/1.1'', rq_headers = [(''Host'', ''x'')]\<rparr>]"

definition two_replies :: string where
  "two_replies = head_text 200 ''text/css'' 2 True @ head_text 404 ''text/plain'' (length (page_body 404)) True @ page_body 404"

lemma two_requests_ok:
  "requests_ok (doc_root demo_reactor) (num_headers (req (new_conn 7))) two_requests"
  "length (concat (map request_bytes two_requests)) \<le> 100"
proof -
  show "requests_ok (doc_root demo_reactor) (num_headers (req (new_conn 7))) two_requests"
    by (simp add: new_conn_def zero_request_def requests_ok_def request_ok_def two_requests_def demo_reactor_def line_ok_def header_ok_def
        token_ok_def header_text_def NUL_def) code_simp
  show "length (concat (map request_bytes two_requests)) \<le> 100" by code_simp
qed

lemma two_requests_replies:
  "replies content (stats (one_file ''www/a.css'' 2)) (doc_root demo_reactor) (opens (one_file ''www/a.css'' 2))
     (header_lines (req (new_conn 7))) two_requests = two_replies"
proof -
  have c: "\<not> sublist ''..'' ''/a.css''" "\<not> sublist ''..'' ''/b''" unfolding str_contains_sublist [symmetric] by simp_all
  have m: "reactor_mime_type ''/a.css'' = ''text/css''" "header_lines zero_request = []" "req (new_conn 7) = zero_request"
    "fold connection_override [header_text (''Host'', ''x'')] True" "fold connection_override [header_text (''Host'', ''x''), header_text (''Host'', ''x'')] True"
    by (code_simp, simp add: header_lines_def zero_request_def, simp add: new_conn_def, code_simp, code_simp)
  show ?thesis
    using m(4,5)
    by (simp add: two_replies_def two_requests_def Let_def c m(1-3) reply_of_def method_from_token_def one_file_def target_def demo_reactor_def)
qed

lemma two_replies_length: "length two_replies \<le> 1900"
proof -
  have "length (page_body 404) = 14" by (simp add: page_body_def status_reason_def)
  then show ?thesis
    using head_text_length [of 2 "''text/css''" 200 True] head_text_length [of 14 "''text/plain''" 404 True] by (simp add: two_replies_def)
qed

lemma new_conn_reading: "reading_ok (new_conn n)" "parser (new_conn n) = http_parser_init"
  using new_conn_ok [of n] by (simp_all add: conn_ok_def writing_ok_def new_conn_def)

definition small_steps :: "(io_result list \<times> io_result list) list" where
  "small_steps = replicate 2000 ([Moved 3], [Moved 1])"

lemma small_steps_productive: "list_all productive small_steps" "length small_steps = 2000"
  by (simp_all add: small_steps_def list_all_iff productive_def takes_def)

theorem pipeline_served_witness:
  "\<exists>w' r' w'' r''. on_readable ((one_file ''www/a.css'' 2)\<lparr>reads := [RData (concat (map request_bytes two_requests))],
        writes := [Moved 20, Interrupted, Moved 1000, Moved 7, Would_Block]\<rparr>) demo_reactor 7 (new_conn 7) = Some (w', r') \<and>
     drain small_steps 7 w' r' = Some (w'', r'') \<and> wire (\<lambda>_ _. NUL) 7 (trace w'') = two_replies"
proof -
  let ?w = "(one_file ''www/a.css'' 2)\<lparr>reads := [RData (concat (map request_bytes two_requests))],
        writes := [Moved 20, Interrupted, Moved 1000, Moved 7, Would_Block]\<rparr>"
  have w: "allocs ?w = []" "sizes_ok (stats ?w)" "two_requests \<noteq> []" by (simp_all add: one_file_def sizes_ok_def two_requests_def)
  have rd: "reads ?w = RData (concat (map request_bytes two_requests)) # []" by simp
  have len: "length (concat (map request_bytes two_requests)) \<le> BUFFER_SIZE" using two_requests_ok(2) by simp
  have out: "replies (\<lambda>_ _. NUL) (stats ?w) (doc_root demo_reactor) (opens ?w) (header_lines (req (new_conn 7))) two_requests = two_replies"
    using two_requests_replies by simp
  have rel: "reliable ?w" "trace ?w = []" by (simp_all add: reliable_def one_file_def)
  have short: "length two_replies \<le> length small_steps" using two_replies_length small_steps_productive(2) by simp
  obtain w' r' cs where "on_readable ?w demo_reactor 7 (new_conn 7) = Some (w', r')" "trace w' = trace ?w @ cs" and
    drained: "\<And>io. reliable ?w \<Longrightarrow> list_all productive io \<Longrightarrow> length two_replies \<le> length io \<Longrightarrow>
       \<exists>w'' r'' ds. drain io 7 w' r' = Some (w'', r'') \<and> trace w'' = trace w' @ ds \<and> wire (\<lambda>_ _. NUL) 7 (cs @ ds) = two_replies"
    using pipeline_served [OF new_conn_reading(1) new_conn_ok(2) new_conn_reading(2) w two_requests_ok(1) rd len, of "\<lambda>_ _. NUL", unfolded out] by blast
  with drained [OF rel(1) small_steps_productive(1) short] rel(2) show ?thesis by fastforce
qed

end
