(* ===== verification/Conversation.thy ===== *)
theory Conversation
  imports Reactor_Runs Pipeline
begin

text \<open>
  A whole conversation on one connection of \<^verbatim>\<open>src/src/reactor.c\<close>: the client sends a stream of requests,
  cut into pieces in any way, and the event loop is woken for the connection any number of times in
  between. However the two interleave, the server sends the replies to the requests in order.
\<close>

section \<open>Events of a conversation\<close>

text \<open>
  Bytes of the client arrive in the socket; or \<open>epoll_wait\<close> reports the event the connection is
  registered for, and the calls on the socket have the outcomes given.
\<close>

datatype talk_event = Deliver string | Poll "io_result list" "io_result list"

fun session :: "talk_event list \<Rightarrow> nat \<Rightarrow> world \<Rightarrow> reactor \<Rightarrow> (world \<times> reactor) option" where
  "session [] n w r = Some (w, r)"
| "session (Deliver b # es) n w r = session es n (w\<lparr>reads := reads w @ [RData b]\<rparr>) r"
| "session (Poll ws ss # es) n w r =
     (case armed w n of
        None \<Rightarrow> session es n w r
      | Some ev \<Rightarrow>
          (case handle_event (w\<lparr>writes := ws, sends := ss\<rparr>) r (n, [ev]) of None \<Rightarrow> None | Some (w, r) \<Rightarrow> session es n w r))"

fun arrivals :: "talk_event list \<Rightarrow> string" where
  "arrivals [] = []"
| "arrivals (Deliver b # es) = b @ arrivals es"
| "arrivals (Poll ws ss # es) = arrivals es"

text \<open>The client does not close the connection, and no call on the socket fails; it may block at any time.\<close>

fun orderly :: "talk_event \<Rightarrow> bool" where
  "orderly (Deliver b) \<longleftrightarrow> b \<noteq> []"
| "orderly (Poll ws ss) \<longleftrightarrow> Failed \<notin> set ws \<and> Moved 0 \<notin> set ws \<and> Failed \<notin> set ss"

text \<open>The bytes in the socket.\<close>

fun unread :: "read_result list \<Rightarrow> string" where
  "unread (RData b # rs) = b @ unread rs"
| "unread _ = []"

definition clean :: "read_result list \<Rightarrow> bool" where
  "clean rs \<longleftrightarrow> (\<exists>chunks. rs = map RData chunks \<and> (\<forall>b \<in> set chunks. b \<noteq> []))"

lemma unread_map [simp]: "unread (map RData chunks) = concat chunks"
  by (induction chunks) simp_all

lemma clean_add: "clean rs \<Longrightarrow> b \<noteq> [] \<Longrightarrow> clean (rs @ [RData b]) \<and> unread (rs @ [RData b]) = unread rs @ b"
proof -
  assume "clean rs" "b \<noteq> []"
  then obtain chunks where "rs @ [RData b] = map RData (chunks @ [b])" "\<forall>b \<in> set (chunks @ [b]). b \<noteq> []" "rs = map RData chunks"
    by (auto simp: clean_def)
  then show ?thesis unfolding clean_def by (metis concat.simps concat_append append_Nil2 unread_map)
qed

lemma clean_Nil: "clean rs \<Longrightarrow> unread rs = [] \<longleftrightarrow> rs = []"
  by (auto simp: clean_def)

section \<open>What is due between events\<close>

text \<open>
  The connection between two events: it is closed and nothing is due any more, or it is registered for
  what it awaits, and \<open>out\<close> is due; the requests are \<open>xs\<close> in all, and they end in what is in the
  socket and what is \<open>later\<close> to come.
\<close>

definition talking :: "(int \<Rightarrow> nat \<Rightarrow> char) \<Rightarrow> nat \<Rightarrow> world \<times> reactor \<Rightarrow> string \<Rightarrow> int list \<times> string list \<Rightarrow> request list \<Rightarrow> string \<Rightarrow> bool" where
  "talking content n v later s xs out \<longleftrightarrow> (let (w, r) = v in
     case conns r n of
       None \<Rightarrow> armed w n = None \<and> out = []
     | Some c \<Rightarrow> armed w n = Some (awaits c) \<and> clean (reads w) \<and>
         (\<exists>zs ys. xs = zs @ ys \<and> due content n w (doc_root r) c (unread (reads w) @ later) s zs ys out))"

text \<open>How far the connection has come: what is left to read and to send.\<close>

definition left_to_do :: "world \<Rightarrow> string \<Rightarrow> nat" where
  "left_to_do w out = length (unread (reads w)) + length out"

lemma handle_in: "conns r n = Some c \<Longrightarrow> handle_event w r (n, [EPOLLIN]) = on_readable w r n c"
  by (auto simp: handle_event_def split: option.splits)

lemma handle_out: "conns r n = Some c \<Longrightarrow> handle_event w r (n, [EPOLLOUT]) = conn_write w r c"
  by (simp add: handle_event_def)

text \<open>Handling an event leaves the files and the document root as they are.\<close>

definition same_site :: "world \<times> reactor \<Rightarrow> world \<times> reactor \<Rightarrow> bool" where
  "same_site v v' \<longleftrightarrow> stats (fst v') = stats (fst v) \<and> doc_root (snd v') = doc_root (snd v)"

lemma same_site_left: "closes w w' r r' n \<or> keeps conn_ok w w' r r' n \<Longrightarrow> same_site (w, r) (w', r')"
  by (auto simp: closes_def keeps_def same_site_def)

lemma delivered_talking:
  assumes "delivered content n (unread (reads w') @ later) s xs out w w' r' bytes" "reliable w" "clean (reads w')"
  obtains rest where "bytes @ rest = out" "talking content n (w', r') later s xs rest"
proof (cases "conns r' n")
  case None
  with assms(1,2) that [of "[]"] show ?thesis by (simp add: delivered_def talking_def)
next
  case (Some c')
  with assms(1,3) that show ?thesis by (auto simp: delivered_def talking_def)
qed

text \<open>One readable event.\<close>

lemma readable_talking:
  fixes content :: "int \<Rightarrow> nat \<Rightarrow> char"
  assumes mid: "midway n w (doc_root r) c (unread (reads w) @ later) q0 pre xs" and c: "conns r n = Some c" "armed w n = Some EPOLLIN"
    and io: "clean (reads w)" "reliable w" and past: "after_requests (stats w) (doc_root r) s zs = Some (opens w, header_lines q0)"
  defines "out \<equiv> replies content (stats w) (doc_root r) (opens w) (header_lines q0) xs"
  shows "\<exists>w' r' cs rest. on_readable w r n c = Some (w', r') \<and> trace w' = trace w @ cs \<and> wire content n cs @ rest = out \<and>
    talking content n (w', r') later s (zs @ xs) rest \<and> length (unread (reads w')) \<le> length (unread (reads w)) \<and>
    (reads w \<noteq> [] \<longrightarrow> length (unread (reads w')) < length (unread (reads w)))"
proof -
  from io(1) obtain chunks where ch: "reads w = map RData chunks" "\<forall>b \<in> set chunks. b \<noteq> []" by (auto simp: clean_def)
  have m: "reading_ok c" "fd c = n" "parsing q0 pre c" "pre @ concat chunks @ later = concat (map request_bytes xs)"
    "requests_ok (doc_root r) (num_headers q0) xs" "allocs w = []" "sizes_ok (stats w)"
    using mid ch(1) by (simp_all add: midway_def)
  have rd: "reads w = map RData chunks @ []" using ch(1) by simp
  from conn_read_stream [OF m(1,2) rd ch(2) m(3-7), of content] consider
    (part) c' where "conn_read w r c = conn_read (w\<lparr>reads := []\<rparr>) r c'" "reading_ok c'" "fd c' = n" "parsing q0 (pre @ concat chunks) c'"
    | (whole) w1 c1 where "conn_read w r c = Some (w1, store r c1)" "request_read content n w (doc_root r) q0 xs later chunks [] w1 c1" by blast
  then show ?thesis
  proof cases
    case (part c')
    let ?w = "w\<lparr>reads := []\<rparr>" and ?c = "compact c'"
    note cp = compact_ok [OF part(2)]
    have same: "parser ?c = parser c'" "req ?c = req c'" by (simp_all add: compact_def)
    have "conn_read w r c = Some (?w, store r ?c)"
      unfolding part(1) using cp(2) by (subst conn_read.simps) (simp add: Let_def)
    then have on: "on_readable w r n c = Some (?w, store r ?c)"
      using cp(1,3) part(3) by (simp add: on_readable_def store_def reading_ok_def)
    have "midway n ?w (doc_root r) ?c later q0 (pre @ concat chunks) xs"
      using m cp(1,3) part(3,4) same by (simp add: midway_def parsing_def)
    then have "due content n ?w (doc_root r) ?c later s zs xs out" using past cp(1) by (auto simp: due_def out_def reading_ok_def)
    then have "talking content n (?w, store r ?c) later s (zs @ xs) out"
      using c(2) cp(1,3) part(3) by (auto simp: talking_def store_def clean_def awaits_def reading_ok_def)
    with on show ?thesis using ch by (intro exI [of _ ?w] exI [of _ "store r ?c"] exI [of _ "[]"] exI [of _ out]) auto
  next
    case (whole w1 c1)
    from whole(2) obtain more ds where q: "trace w1 = trace w @ ds" "wire content n ds = []" "xs \<noteq> []" "reliable w1"
      "reads w1 = map RData more" "\<forall>b \<in> set more. b \<noteq> []" "length (concat more) < length (concat chunks)"
      "owing content n w1 (doc_root r) c1 (concat more @ later) (tl xs)" "behind w1 (doc_root r) c1 (opens w, header_lines q0) [hd xs]"
      "owed content w1 (doc_root r) c1 (tl xs) = out"
      using io(2) by (auto simp: request_read_def out_def)
    have st: "stats w1 = stats w" using conn_read_ok [OF whole(1) m(1,7)] by (auto simp: closes_def read_into_def)
    from q(8) have own: "owing content n w1 (doc_root (store r c1)) c1 (unread (reads w1) @ later) (tl xs)" by (simp add: store_def q(5))
    have "behind w1 (doc_root (store r c1)) c1 s (zs @ [hd xs])"
      using q(9) past st by (simp add: behind_def store_def after_append del: after_requests.simps)
    from owing_write [OF own this] obtain w' r' cs where
      wr: "conn_write w1 (store r c1) c1 = Some (w', r')" "trace w' = trace w1 @ cs" "reads w' = reads w1"
        "delivered content n (unread (reads w') @ later) s (zs @ xs) out w1 w' r' (wire content n cs)"
      using q(3,10) by (auto simp: store_def)
    have "clean (reads w')" using wr(3) q(5,6) by (auto simp: clean_def)
    from delivered_talking [OF wr(4) q(4) this] obtain rest where
      t: "wire content n cs @ rest = out" "talking content n (w', r') later s (zs @ xs) rest" .
    have "on_readable w r n c = Some (w', r')"
      using wr(1) whole(1) own by (simp add: on_readable_def store_def owing_def writing_ok_def)
    moreover have "length (unread (reads w')) < length (unread (reads w))" using q(5,7) wr(3) ch(1) by simp
    ultimately show ?thesis using q(1,2) wr(2) t
      by (intro exI [of _ w'] exI [of _ r'] exI [of _ "ds @ cs"] exI [of _ rest]) simp
  qed
qed

text \<open>One event of either kind. If the socket takes something, the connection has less left to do.\<close>

definition poll :: "io_result list \<Rightarrow> io_result list \<Rightarrow> nat \<Rightarrow> world \<Rightarrow> reactor \<Rightarrow> (world \<times> reactor) option" where
  "poll ws ss n w r = (case armed w n of None \<Rightarrow> Some (w, r) | Some ev \<Rightarrow> handle_event (w\<lparr>writes := ws, sends := ss\<rparr>) r (n, [ev]))"

lemma session_Poll: "session (Poll ws ss # es) n w r = (case poll ws ss n w r of None \<Rightarrow> None | Some (w, r) \<Rightarrow> session es n w r)"
  by (simp add: poll_def split: option.splits)

text \<open>Both kinds of events are steps of the reactor.\<close>

lemma poll_steps:
  assumes "poll ws ss n w r = Some (w', r')" "sizes_ok (stats w)"
  shows "reactor_step\<^sup>*\<^sup>* (w, r) (w', r')"
proof (cases "armed w n")
  case None
  with assms(1) show ?thesis by (simp add: poll_def)
next
  case (Some ev)
  let ?w = "w\<lparr>writes := ws, sends := ss\<rparr>"
  have "reactor_step (w, r) (?w, r)" using assms(2) by (intro reactor_step.Environment) simp_all
  moreover have "reactor_step (?w, r) (w', r')"
    using assms(1) Some by (intro reactor_step.Event [of _ "(n, [ev])"]) (simp_all add: poll_def expected_def)
  ultimately show ?thesis by (meson r_into_rtranclp rtranclp_trans)
qed

lemma deliver_step: "sizes_ok (stats w) \<Longrightarrow> reactor_step (w, r) (w\<lparr>reads := rs\<rparr>, r)"
  by (intro reactor_step.Environment) simp_all

lemma poll_talking:
  assumes t: "talking content n (w, r) later s xs out" and io: "orderly (Poll ws ss)"
  shows "\<exists>w' r' cs rest. poll ws ss n w r = Some (w', r') \<and> trace w' = trace w @ cs \<and> wire content n cs @ rest = out \<and>
    talking content n (w', r') later s xs rest \<and> length (unread (reads w')) \<le> length (unread (reads w)) \<and> same_site (w, r) (w', r') \<and>
    (takes ws \<and> takes ss \<and> later = [] \<longrightarrow> out = [] \<or> left_to_do w' rest < left_to_do w out)"
proof (cases "conns r n")
  case None
  with t have "armed w n = None" "out = []" by (simp_all add: talking_def)
  with t show ?thesis by (intro exI [of _ w] exI [of _ r] exI [of _ "[]"] exI [of _ "[]"]) (simp add: poll_def same_site_def)
next
  case (Some c)
  let ?w = "w\<lparr>writes := ws, sends := ss\<rparr>"
  from t Some obtain zs ys where a: "armed w n = Some (awaits c)" "clean (reads w)" "xs = zs @ ys"
    and due: "due content n w (doc_root r) c (unread (reads w) @ later) s zs ys out" by (auto simp: talking_def)
  have rel: "reliable ?w" using io by (simp add: reliable_def)
  have site: "same_site (w, r) (w', r')" if "closes ?w w' r r' n \<or> keeps conn_ok ?w w' r r' n" for w' r'
    using same_site_left [OF that] by (simp add: same_site_def)
  show ?thesis
  proof (cases "c_state c = ST_READING")
    case True
    with due obtain q0 pre where mid: "midway n ?w (doc_root r) c (unread (reads ?w) @ later) q0 pre ys"
      and past: "after_requests (stats ?w) (doc_root r) s zs = Some (opens ?w, header_lines q0)"
      and out: "out = replies content (stats ?w) (doc_root r) (opens ?w) (header_lines q0) ys" by (auto simp: due_def midway_def)
    have ev: "armed ?w n = Some EPOLLIN" "clean (reads ?w)" using a True by (simp_all add: awaits_def)
    from readable_talking [OF mid Some ev rel past, of content] a(3) obtain w' r' cs rest where
      p: "on_readable ?w r n c = Some (w', r')" "trace w' = trace w @ cs" "wire content n cs @ rest = out"
        "talking content n (w', r') later s xs rest" "length (unread (reads w')) \<le> length (unread (reads w))"
        "reads w \<noteq> [] \<longrightarrow> length (unread (reads w')) < length (unread (reads w))" by (simp add: out) blast
    have "same_site (w, r) (w', r')" using on_readable_ok [OF p(1)] mid ev(1) by (intro site) (simp add: midway_def)
    moreover have "poll ws ss n w r = Some (w', r')" using p(1) a True Some by (simp add: poll_def awaits_def handle_in)
    moreover have "later = [] \<longrightarrow> out = [] \<or> left_to_do w' rest < left_to_do w out"
    proof (cases "reads w = []")
      case empty: True
      with due due_idle(2) [of content n w "doc_root r" c s zs ys out] True show ?thesis by auto
    next
      case False
      have "length rest \<le> length out" by (simp flip: p(3))
      with p(6) False show ?thesis by (simp add: left_to_do_def)
    qed
    ultimately show ?thesis using p(2-5) by blast
  next
    case False
    with due have o: "owing content n ?w (doc_root r) c (unread (reads w) @ later) ys" "behind ?w (doc_root r) c s zs"
      and out: "out = owed content ?w (doc_root r) c ys"
      by (simp_all add: due_def owing_def owed_def behind_def)
    from owing_write [OF o] a(3) obtain w' r' cs where wr: "conn_write ?w r c = Some (w', r')" "trace w' = trace ?w @ cs" "reads w' = reads w"
      "delivered content n (unread (reads w') @ later) s xs out ?w w' r' (wire content n cs)" unfolding out by auto
    have "clean (reads w')" using wr(3) a(2) by simp
    from delivered_talking [OF wr(4) rel this] obtain rest where
      p: "wire content n cs @ rest = out" "talking content n (w', r') later s xs rest" .
    have "left_to_do w' rest < left_to_do w out" if "takes ws" "takes ss"
      using owing_moves [OF o(1) _ _ wr(1,2)] that wr(3) by (simp add: left_to_do_def flip: p(1))
    moreover have "same_site (w, r) (w', r')" using conn_write_ok [OF wr(1)] o(1) by (intro site) (auto simp: owing_def)
    moreover have "poll ws ss n w r = Some (w', r')" using wr(1) a False Some by (simp add: poll_def awaits_def handle_out)
    ultimately show ?thesis using p wr(2,3)
      by (intro exI [of _ w'] exI [of _ r'] exI [of _ cs] exI [of _ rest]) simp
  qed
qed

lemma deliver_talking:
  assumes "talking content n (w, r) (b @ later) s xs out" "b \<noteq> []"
  shows "talking content n (w\<lparr>reads := reads w @ [RData b]\<rparr>, r) later s xs out"
  using assms clean_add [of "reads w" b]
  by (auto simp: talking_def due_def midway_def owing_def owed_def behind_def split: option.splits if_splits)

lemma unread_grows: "length (unread (rs @ [RData b])) \<le> length (unread rs) + length b"
  by (induction rs rule: unread.induct) auto

lemma session_talking:
  assumes "talking content n (w, r) (arrivals es @ later) s xs out" "list_all orderly es" "sizes_ok (stats w)"
  shows "\<exists>w' r' cs rest. session es n w r = Some (w', r') \<and> reactor_step\<^sup>*\<^sup>* (w, r) (w', r') \<and> trace w' = trace w @ cs \<and> wire content n cs @ rest = out \<and>
    talking content n (w', r') later s xs rest \<and> same_site (w, r) (w', r') \<and>
    length (unread (reads w')) \<le> length (unread (reads w)) + length (arrivals es)"
  using assms
proof (induction es arbitrary: w r out)
  case Nil
  then show ?case by (intro exI [of _ w] exI [of _ r] exI [of _ "[]"] exI [of _ out]) (simp add: same_site_def)
next
  case (Cons e es)
  show ?case
  proof (cases e)
    case (Deliver b)
    let ?w = "w\<lparr>reads := reads w @ [RData b]\<rparr>"
    have "talking content n (?w, r) (arrivals es @ later) s xs out" using Cons.prems Deliver by (simp add: deliver_talking)
    from Cons.IH [OF this] Cons.prems(2,3) Deliver obtain w' r' cs rest where
      "session es n ?w r = Some (w', r')" "reactor_step\<^sup>*\<^sup>* (?w, r) (w', r')" "trace w' = trace w @ cs" "wire content n cs @ rest = out"
      "talking content n (w', r') later s xs rest" "same_site (w, r) (w', r')"
      "length (unread (reads w')) \<le> length (unread (reads w @ [RData b])) + length (arrivals es)" by (auto simp: same_site_def)
    with deliver_step [OF Cons.prems(3), of r "reads w @ [RData b]"] Deliver unread_grows [of "reads w" b] show ?thesis
      by (intro exI [of _ w'] exI [of _ r'] exI [of _ cs] exI [of _ rest]) (auto intro: converse_rtranclp_into_rtranclp)
  next
    case (Poll ws ss)
    with Cons.prems have "talking content n (w, r) (arrivals es @ later) s xs out" "orderly (Poll ws ss)" by simp_all
    from poll_talking [OF this] obtain w1 r1 cs rest where
      p: "poll ws ss n w r = Some (w1, r1)" "trace w1 = trace w @ cs" "wire content n cs @ rest = out"
        "talking content n (w1, r1) (arrivals es @ later) s xs rest" "length (unread (reads w1)) \<le> length (unread (reads w))"
        "same_site (w, r) (w1, r1)" by blast
    have "sizes_ok (stats w1)" using p(6) Cons.prems(3) by (simp add: same_site_def)
    from Cons.IH [OF p(4) _ this] Cons.prems(2) obtain w' r' ds rest' where
      "session es n w1 r1 = Some (w', r')" "reactor_step\<^sup>*\<^sup>* (w1, r1) (w', r')" "trace w' = trace w1 @ ds" "wire content n ds @ rest' = rest"
      "talking content n (w', r') later s xs rest'" "same_site (w1, r1) (w', r')"
      "length (unread (reads w')) \<le> length (unread (reads w1)) + length (arrivals es)" by auto
    with p Poll poll_steps [OF p(1) Cons.prems(3)] show ?thesis
      by (intro exI [of _ w'] exI [of _ r'] exI [of _ "cs @ ds"] exI [of _ rest'])
        (auto simp: session_Poll same_site_def simp del: session.simps(3) intro: rtranclp_trans)
  qed
qed

definition polls :: "(io_result list \<times> io_result list) list \<Rightarrow> talk_event list" where
  "polls = map (\<lambda>x. Poll (fst x) (snd x))"

text \<open>Enough productive events, and all that is due is out.\<close>

lemma polls_talking:
  assumes "talking content n (w, r) [] s xs out" "list_all productive io" "out = [] \<or> left_to_do w out \<le> length io"
  shows "\<exists>w' r' cs. session (polls io) n w r = Some (w', r') \<and> trace w' = trace w @ cs \<and> wire content n cs = out"
  using assms
proof (induction io arbitrary: w r out)
  case Nil
  then show ?case by (auto simp: polls_def left_to_do_def)
next
  case (Cons x io)
  have x: "orderly (Poll (fst x) (snd x))" "takes (fst x)" "takes (snd x)" using Cons.prems(2) by (simp_all add: productive_def)
  from poll_talking [OF Cons.prems(1) x(1)] x(2,3) obtain w1 r1 cs rest where
    p: "poll (fst x) (snd x) n w r = Some (w1, r1)" "trace w1 = trace w @ cs" "wire content n cs @ rest = out"
      "talking content n (w1, r1) [] s xs rest" "out = [] \<or> left_to_do w1 rest < left_to_do w out" by blast
  have "rest = [] \<or> left_to_do w1 rest \<le> length io" using p(3,5) Cons.prems(3) by auto
  from Cons.IH [OF p(4) _ this] Cons.prems(2) obtain w' r' ds where
    "session (polls io) n w1 r1 = Some (w', r')" "trace w' = trace w1 @ ds" "wire content n ds = rest" by auto
  with p(1-3) show ?case
    by (intro exI [of _ w'] exI [of _ r'] exI [of _ "cs @ ds"]) (simp add: polls_def session_Poll del: session.simps(3))
qed

text \<open>A connection that waits with an empty socket has answered the requests that arrived completely.\<close>

lemma talking_idle:
  fixes fds :: "int list" and hist :: "string list"
  assumes t: "talking content n (w, r) later (fds, hist) xs rest" and idle: "armed w n = Some EPOLLIN" "reads w = []"
    and b: "got @ later = concat (map request_bytes xs)"
    and out: "bytes @ rest = replies content (stats w) (doc_root r) fds hist xs"
  shows "\<exists>zs ys pre. xs = zs @ ys \<and> got = concat (map request_bytes zs) @ pre \<and>
    (if ys = [] then pre = [] else strict_prefix pre (request_bytes (hd ys))) \<and>
    bytes = replies content (stats w) (doc_root r) fds hist zs"
proof -
  from t idle(1) obtain c where c: "conns r n = Some c" "c_state c = ST_READING" by (auto simp: talking_def awaits_def split: option.splits if_splits)
  with t idle(2) obtain zs ys q0 pre where m: "parsing q0 pre c" "pre @ later = concat (map request_bytes ys)" "requests_ok (doc_root r) (num_headers q0) ys"
    and xs: "xs = zs @ ys" and past: "after_requests (stats w) (doc_root r) (fds, hist) zs = Some (opens w, header_lines q0)"
    and rest: "rest = replies content (stats w) (doc_root r) (opens w) (header_lines q0) ys" by (auto simp: talking_def due_def midway_def)
  have "got @ later = (concat (map request_bytes zs) @ pre) @ later" using b xs m(2) by simp
  then have "got = concat (map request_bytes zs) @ pre" by (simp only: append_same_eq)
  moreover have "bytes = replies content (stats w) (doc_root r) fds hist zs"
    using out unfolding xs replies_append past rest by simp
  ultimately show ?thesis using xs parsing_short [OF m] by (intro exI [of _ zs] exI [of _ ys] exI [of _ pre]) auto
qed

section \<open>Properties\<close>

text \<open>C1. A whole conversation is served. On an idle connection a client sends the texts of well-formed
  requests, and they arrive cut into pieces in any way, while the event loop is woken for the
  connection any number of times before, between and after the pieces; the socket may block at any
  time, but no call on it fails. Then every event returns, all together are a run of the event loop, and at every moment what went out is an
  initial part of the replies the specification gives for the requests, in their order and with nothing
  between them. The connection is closed only when all of them are out. Whenever it waits for input and
  the socket is empty, what went out are exactly the replies to the requests that have arrived
  completely. And nothing stays owed: once all requests have arrived, as many events as there are bytes
  in the requests and the replies, each of which finds the socket ready to take something, get all
  replies out.\<close>

theorem conversation_served:
  fixes content :: "int \<Rightarrow> nat \<Rightarrow> char"
  assumes "reading_ok c" "conns r n = Some c" "fd c = n" "armed w n = Some EPOLLIN" "parser c = http_parser_init" "reads w = []"
    and "allocs w = []" "sizes_ok (stats w)" "requests_ok (doc_root r) (num_headers (req c)) xs"
    and "arrivals es @ later = concat (map request_bytes xs)" "list_all orderly es"
  defines "answers \<equiv> replies content (stats w) (doc_root r) (opens w) (header_lines (req c))"
  shows "\<exists>w' r' cs. session es n w r = Some (w', r') \<and> reactor_step\<^sup>*\<^sup>* (w, r) (w', r') \<and>
    trace w' = trace w @ cs \<and> prefix (wire content n cs) (answers xs) \<and>
    (conns r' n = None \<longrightarrow> wire content n cs = answers xs) \<and>
    (armed w' n = Some EPOLLIN \<and> reads w' = [] \<longrightarrow>
       (\<exists>zs ys pre. xs = zs @ ys \<and> arrivals es = concat (map request_bytes zs) @ pre \<and>
          (if ys = [] then pre = [] else strict_prefix pre (request_bytes (hd ys))) \<and> wire content n cs = answers zs)) \<and>
    (\<forall>io. later = [] \<and> list_all productive io \<and> length (concat (map request_bytes xs)) + length (answers xs) \<le> length io \<longrightarrow>
       (\<exists>w'' r'' ds. session (polls io) n w' r' = Some (w'', r'') \<and> trace w'' = trace w' @ ds \<and> wire content n (cs @ ds) = answers xs))"
proof -
  let ?s = "(opens w, header_lines (req c))"
  have "midway n w (doc_root r) c (arrivals es @ later) (req c) [] xs" using assms(1-11) by (simp add: midway_def parsing_Nil)
  then have "due content n w (doc_root r) c (arrivals es @ later) ?s [] xs (answers xs)"
    using assms(1) by (auto simp: due_def answers_def reading_ok_def)
  then have "talking content n (w, r) (arrivals es @ later) ?s xs (answers xs)"
    using assms(1,2,4,6) by (auto simp: talking_def awaits_def clean_def reading_ok_def)
  from session_talking [OF this assms(11,8)] assms(6) obtain w' r' cs rest where
    steps: "reactor_step\<^sup>*\<^sup>* (w, r) (w', r')" and
    s: "session es n w r = Some (w', r')" "trace w' = trace w @ cs" "wire content n cs @ rest = answers xs"
      "talking content n (w', r') later ?s xs rest" "same_site (w, r) (w', r')" "length (unread (reads w')) \<le> length (arrivals es)" by auto
  have closed: "wire content n cs = answers xs" if "conns r' n = None" using s(3,4) that by (simp add: talking_def)
  have idle: "\<exists>zs ys pre. xs = zs @ ys \<and> arrivals es = concat (map request_bytes zs) @ pre \<and>
      (if ys = [] then pre = [] else strict_prefix pre (request_bytes (hd ys))) \<and> wire content n cs = answers zs"
    if "armed w' n = Some EPOLLIN" "reads w' = []"
    using talking_idle [OF s(4) that assms(10), of "wire content n cs"] s(3,5) by (simp add: answers_def same_site_def)
  have "\<exists>w'' r'' ds. session (polls io) n w' r' = Some (w'', r'') \<and> trace w'' = trace w' @ ds \<and> wire content n (cs @ ds) = answers xs"
    if io: "later = []" "list_all productive io" "length (concat (map request_bytes xs)) + length (answers xs) \<le> length io" for io
  proof -
    have "length (arrivals es) \<le> length (concat (map request_bytes xs))" "length rest \<le> length (answers xs)" by (simp_all flip: assms(10) s(3))
    then have "left_to_do w' rest \<le> length io" using s(6) io(3) by (simp add: left_to_do_def)
    with polls_talking [of content n w' r' ?s xs rest io] s(3,4) io(1,2) show ?thesis by auto
  qed
  with s(1-3) steps closed idle show ?thesis by (intro exI [of _ w'] exI [of _ r'] exI [of _ cs]) (blast intro: prefixI [OF sym])
qed

definition talk :: "talk_event list" where
  "talk = (let t = concat (map request_bytes two_requests) in
     [Deliver (take 7 t), Poll [] [], Deliver (take 40 (drop 7 t)), Poll [Moved 20, Interrupted, Would_Block] [],
      Deliver (drop 47 t), Poll [] []])"

text \<open>The two requests of the example, cut in the middle of a request line and of a header.\<close>

theorem conversation_served_witness:
  "\<exists>w' r' w'' r''. session talk 7 ((one_file ''www/a.css'' 2)\<lparr>armed := [7 \<mapsto> EPOLLIN]\<rparr>) (demo_reactor\<lparr>conns := [7 \<mapsto> new_conn 7], active_conns := 1\<rparr>) =
       Some (w', r') \<and> session (polls small_steps) 7 w' r' = Some (w'', r'') \<and> wire (\<lambda>_ _. NUL) 7 (trace w'') = two_replies"
proof -
  let ?w = "(one_file ''www/a.css'' 2)\<lparr>armed := [7 \<mapsto> EPOLLIN]\<rparr>"
  let ?r = "demo_reactor\<lparr>conns := [7 \<mapsto> new_conn 7], active_conns := 1\<rparr>" and ?t = "concat (map request_bytes two_requests)"
  have w: "conns ?r 7 = Some (new_conn 7)" "armed ?w 7 = Some EPOLLIN" "reads ?w = []" "allocs ?w = []" "sizes_ok (stats ?w)" "trace ?w = []"
    by (simp_all add: one_file_def sizes_ok_def)
  have rq: "requests_ok (doc_root ?r) (num_headers (req (new_conn 7))) two_requests" using two_requests_ok(1) by simp
  have es: "arrivals talk @ [] = ?t" "list_all orderly talk"
  proof -
    show "arrivals talk @ [] = ?t" unfolding talk_def Let_def arrivals.simps by (simp add: append_take_drop_id [of 40 "drop 7 ?t", simplified])
    have "take 7 ?t \<noteq> []" "take 40 (drop 7 ?t) \<noteq> []" "drop 47 ?t \<noteq> []" by code_simp+
    then show "list_all orderly talk" unfolding talk_def Let_def by simp
  qed
  have out: "replies (\<lambda>_ _. NUL) (stats ?w) (doc_root ?r) (opens ?w) (header_lines (req (new_conn 7))) two_requests = two_replies"
    using two_requests_replies by simp
  have enough: "length ?t + length two_replies \<le> length small_steps"
    using two_requests_ok(2) two_replies_length small_steps_productive(2) by simp
  obtain w' r' cs where run: "session talk 7 ?w ?r = Some (w', r')" "trace w' = trace ?w @ cs" and
    drained: "\<And>io. list_all productive io \<Longrightarrow> length ?t + length two_replies \<le> length io \<Longrightarrow>
       \<exists>w'' r'' ds. session (polls io) 7 w' r' = Some (w'', r'') \<and> trace w'' = trace w' @ ds \<and> wire (\<lambda>_ _. NUL) 7 (cs @ ds) = two_replies"
    using conversation_served [OF new_conn_reading(1) w(1) new_conn_ok(2) w(2) new_conn_reading(2) w(3-5) rq es, of "\<lambda>_ _. NUL", unfolded out] by blast
  with drained [OF small_steps_productive(1) enough] w(6) show ?thesis by fastforce
qed

end
