(* ===== verification/Thread_Pool.thy ===== *)
theory Thread_Pool
  imports Reactor
begin

text \<open>
  The worker pool of \<^verbatim>\<open>src/src/thread_pool.c\<close>. Reactors and threads are named by handles:
  \<open>live\<close> holds the reactors that exist, and an access to a handle that is not live is the
  value \<open>None\<close>, as is a write outside the array of workers. The functions run under the pool's
  mutex and are atomic here; between them the worker threads run their reactors. What
  \<open>reactor_create\<close> and \<open>pthread_create\<close> return is taken from scripts.
\<close>

section \<open>Data\<close>

record pool_config =
  pc_port :: int
  pc_doc_root :: "string option"
  min_workers :: int
  max_workers :: int
  load_high :: int
  load_low :: int
  tune_interval_ms :: int

record worker =
  w_id :: nat
  w_reactor :: nat
  w_thread :: nat

record thread_pool =
  tp_cfg :: pool_config
  tp_port :: int
  workers :: "nat \<Rightarrow> worker"
  num_workers :: nat
  tp_stop :: bool

datatype pool_call = Thread_Create nat | Monitor_Create | Reactor_Stop nat | Thread_Join nat | Monitor_Join
  | Reactor_Destroy nat | Timedwait "int \<times> int"

record machine =
  os :: world
  setups :: "create_env list"
  thread_results :: "bool list"
  live :: "nat \<rightharpoonup> reactor"
  fresh :: nat
  calls :: "pool_call list"

section \<open>Calls on reactors and threads\<close>

definition call :: "pool_call \<Rightarrow> machine \<Rightarrow> machine" where
  "call k e = e\<lparr>calls := calls e @ [k]\<rparr>"

definition no_setup :: create_env where
  "no_setup = \<lparr>su_reactor = False, su_conns = False, su_strdup = False, su_epoll = -1, su_eventfd = -1, su_socket = -1,
     su_bind = False, su_listen = False, su_sockname = None\<rparr>"

definition create_worker_reactor :: "machine \<Rightarrow> reactor_config \<Rightarrow> machine \<times> nat option" where
  "create_worker_reactor e rc =
     (case reactor_create (case setups e of [] \<Rightarrow> no_setup | su # _ \<Rightarrow> su) (os e) (Some rc) of
        (w, None) \<Rightarrow> (e\<lparr>os := w, setups := tl (setups e)\<rparr>, None)
      | (w, Some r) \<Rightarrow> (e\<lparr>os := w, setups := tl (setups e), live := (live e)(fresh e \<mapsto> r), fresh := fresh e + 1\<rparr>, Some (fresh e)))"

definition start_thread :: "machine \<Rightarrow> nat \<Rightarrow> bool \<times> machine" where
  "start_thread e h =
     (let ok = (case thread_results e of [] \<Rightarrow> True | b # _ \<Rightarrow> b); e = e\<lparr>thread_results := tl (thread_results e)\<rparr> in
      (ok, if ok then call (Thread_Create h) e else e))"

definition stop_reactor :: "machine \<Rightarrow> nat \<Rightarrow> machine option" where
  "stop_reactor e h = map_option (\<lambda>r. call (Reactor_Stop h) (e\<lparr>os := reactor_stop (os e) r\<rparr>)) (live e h)"

definition destroy_reactor :: "machine \<Rightarrow> nat \<Rightarrow> machine option" where
  "destroy_reactor e h =
     map_option (\<lambda>r. call (Reactor_Destroy h) (e\<lparr>os := reactor_destroy (os e) (Some r), live := (live e)(h := None)\<rparr>)) (live e h)"

section \<open>The pool\<close>

record pick_env =
  pk_socket :: int
  pk_bind :: bool
  pk_sockname :: "nat option"

definition pick_ephemeral_port :: "pick_env \<Rightarrow> world \<Rightarrow> world \<times> int" where
  "pick_ephemeral_port pk w =
     (if pk_socket pk < 0 then (w, 0)
      else let w = emit [Bind (nat (pk_socket pk)) 0] w in
        if \<not> pk_bind pk then (emit [Close (pk_socket pk)] w, 0)
        else (case pk_sockname pk of
            None \<Rightarrow> (emit [Close (pk_socket pk)] w, 0)
          | Some p \<Rightarrow> (emit [Close (pk_socket pk)] w, int p)))"

definition set_worker :: "thread_pool \<Rightarrow> nat \<Rightarrow> worker \<Rightarrow> thread_pool option" where
  "set_worker p i x = (if int i < max_workers (tp_cfg p) then Some (p\<lparr>workers := (workers p)(i := x)\<rparr>) else None)"

definition spawn_worker :: "machine \<Rightarrow> thread_pool \<Rightarrow> (machine \<times> thread_pool) option" where
  "spawn_worker e p =
     (if max_workers (tp_cfg p) \<le> int (num_workers p) then Some (e, p)
      else
        (let rc = \<lparr>rc_port = tp_port p, rc_doc_root = pc_doc_root (tp_cfg p), rc_max_events = 0, rc_backlog = 0, rc_reuse_port = True\<rparr> in
         case create_worker_reactor e rc of
           (e, None) \<Rightarrow> Some (e, p)
         | (e, Some h) \<Rightarrow>
             (let idx = num_workers p in do {
                p \<leftarrow> set_worker p idx (workers p idx\<lparr>w_id := idx, w_reactor := h\<rparr>);
                (let (ok, e) = start_thread e h in
                 if \<not> ok then do { e \<leftarrow> destroy_reactor e h; Some (e, p) }
                 else do {
                   p \<leftarrow> set_worker p idx (workers p idx\<lparr>w_thread := h\<rparr>);
                   Some (e, p\<lparr>num_workers := idx + 1\<rparr>)
                 })
              })))"

definition retire :: "machine \<Rightarrow> thread_pool \<Rightarrow> nat \<Rightarrow> (machine \<times> thread_pool) option" where
  "retire e p i = do {
     e \<leftarrow> stop_reactor e (w_reactor (workers p i));
     (let e = call (Thread_Join (w_thread (workers p i))) e in do {
        e \<leftarrow> destroy_reactor e (w_reactor (workers p i));
        p \<leftarrow> set_worker p i (workers p (num_workers p - 1));
        p \<leftarrow> set_worker p i (workers p i\<lparr>w_id := i\<rparr>);
        Some (e, p\<lparr>num_workers := num_workers p - 1\<rparr>)
     })
   }"

fun retire_scan :: "machine \<Rightarrow> thread_pool \<Rightarrow> nat list \<Rightarrow> (machine \<times> thread_pool) option" where
  "retire_scan e p [] = Some (e, p)"
| "retire_scan e p (i # is) =
     (case live e (w_reactor (workers p i)) of
        None \<Rightarrow> None
      | Some r \<Rightarrow> if reactor_active_connections r = 0 then retire e p i else retire_scan e p is)"

definition retire_idle_worker :: "machine \<Rightarrow> thread_pool \<Rightarrow> (machine \<times> thread_pool) option" where
  "retire_idle_worker e p =
     (if int (num_workers p) \<le> min_workers (tp_cfg p) then Some (e, p) else retire_scan e p [0..<num_workers p])"

fun total_load :: "machine \<Rightarrow> thread_pool \<Rightarrow> nat list \<Rightarrow> int \<Rightarrow> int option" where
  "total_load e p [] t = Some t"
| "total_load e p (i # is) t =
     (case live e (w_reactor (workers p i)) of
        None \<Rightarrow> None
      | Some r \<Rightarrow> total_load e p is (t + reactor_active_connections r))"

definition tune_pool :: "machine \<Rightarrow> thread_pool \<Rightarrow> (machine \<times> thread_pool) option" where
  "tune_pool e p = do {
     load \<leftarrow> total_load e p [0..<num_workers p] 0;
     if load_high (tp_cfg p) < load then spawn_worker e p
     else if load < load_low (tp_cfg p) then retire_idle_worker e p
     else Some (e, p)
   }"

section \<open>The monitor\<close>

text \<open>The absolute time of the next tuning, in seconds and nanoseconds.\<close>

definition deadline :: "int \<Rightarrow> int \<times> int \<Rightarrow> int \<times> int" where
  "deadline interval ts =
     (let ms = (if 0 < interval then interval else 50);
          sec = fst ts + ms div 1000;
          nsec = snd ts + (ms mod 1000) * 1000000 in
      if 1000000000 \<le> nsec then (sec + 1, nsec - 1000000000) else (sec, nsec))"

text \<open>
  What the monitor sees next: the stop flag before it waits, or a return of the timed wait, with the
  outcome, the stop flag, the reactors as their threads have left them and the clock read for
  the next round.
\<close>

datatype wake = Stop_Seen | Wake bool bool "nat \<rightharpoonup> reactor" "int \<times> int"

definition settle :: "(nat \<rightharpoonup> reactor) \<Rightarrow> machine \<Rightarrow> machine" where
  "settle rs e = e\<lparr>live := (\<lambda>h. case live e h of None \<Rightarrow> None | Some r \<Rightarrow> Some (case rs h of Some r' \<Rightarrow> r' | None \<Rightarrow> r))\<rparr>"

fun monitor_loop :: "wake list \<Rightarrow> int \<times> int \<Rightarrow> machine \<Rightarrow> thread_pool \<Rightarrow> (machine \<times> thread_pool) option" where
  "monitor_loop [] ts e p = Some (e, p)"
| "monitor_loop (Stop_Seen # ws) ts e p = Some (e, p\<lparr>tp_stop := True\<rparr>)"
| "monitor_loop (Wake timed_out st rs now # ws) ts e p =
     (let e = settle rs (call (Timedwait ts) e); p = p\<lparr>tp_stop := tp_stop p \<or> st\<rparr> in
      if tp_stop p then Some (e, p)
      else if timed_out then do {
        (e, p) \<leftarrow> tune_pool e p;
        monitor_loop ws (deadline (tune_interval_ms (tp_cfg p)) now) e p
      }
      else monitor_loop ws ts e p)"

definition monitor_fn :: "int \<times> int \<Rightarrow> wake list \<Rightarrow> machine \<Rightarrow> thread_pool \<Rightarrow> (machine \<times> thread_pool) option" where
  "monitor_fn now ws e p =
     (if tp_stop p then Some (e, p) else monitor_loop ws (deadline (tune_interval_ms (tp_cfg p)) now) e p)"

section \<open>Creation and destruction\<close>

fun spawn_times :: "nat \<Rightarrow> machine \<Rightarrow> thread_pool \<Rightarrow> (machine \<times> thread_pool) option" where
  "spawn_times 0 e p = Some (e, p)"
| "spawn_times (Suc n) e p = do { (e, p) \<leftarrow> spawn_worker e p; spawn_times n e p }"

text \<open>\<open>mem\<close> tells whether the two allocations succeed.\<close>

definition pool_create :: "bool \<times> bool \<Rightarrow> pick_env \<Rightarrow> machine \<Rightarrow> pool_config option \<Rightarrow> (machine \<times> thread_pool option) option" where
  "pool_create mem pk e cfg0 =
     (case cfg0 of
        None \<Rightarrow> Some (e, None)
      | Some cfg \<Rightarrow>
          if min_workers cfg < 1 \<or> max_workers cfg < min_workers cfg then Some (e, None)
          else if \<not> fst mem \<or> \<not> snd mem then Some (e, None)
          else
            (let (w, port) = (if 0 < pc_port cfg then (os e, pc_port cfg) else pick_ephemeral_port pk (os e)); e = e\<lparr>os := w\<rparr> in
             if port \<le> 0 then Some (e, None)
             else do {
               (e, p) \<leftarrow> spawn_times (nat (min_workers cfg)) e
                 \<lparr>tp_cfg = cfg, tp_port = port, workers = (\<lambda>_. \<lparr>w_id = 0, w_reactor = 0, w_thread = 0\<rparr>), num_workers = 0, tp_stop = False\<rparr>;
               Some (call Monitor_Create e, Some p)
             }))"

definition pool_port :: "thread_pool \<Rightarrow> int" where
  "pool_port p = tp_port p"

definition pool_worker_count :: "thread_pool \<Rightarrow> nat" where
  "pool_worker_count p = num_workers p"

fun stop_all :: "thread_pool \<Rightarrow> nat list \<Rightarrow> machine \<Rightarrow> machine option" where
  "stop_all p [] e = Some e"
| "stop_all p (i # is) e = do { e \<leftarrow> stop_reactor e (w_reactor (workers p i)); stop_all p is e }"

fun join_all :: "thread_pool \<Rightarrow> nat list \<Rightarrow> machine \<Rightarrow> machine" where
  "join_all p [] e = e"
| "join_all p (i # is) e = join_all p is (call (Thread_Join (w_thread (workers p i))) e)"

fun destroy_all :: "thread_pool \<Rightarrow> nat list \<Rightarrow> machine \<Rightarrow> machine option" where
  "destroy_all p [] e = Some e"
| "destroy_all p (i # is) e = do { e \<leftarrow> destroy_reactor e (w_reactor (workers p i)); destroy_all p is e }"

text \<open>
  The stop flag is raised for the monitor, which is joined before anything else happens; the pool itself
  is freed at the end, so only the machine remains.
\<close>

definition pool_destroy :: "machine \<Rightarrow> thread_pool option \<Rightarrow> machine option" where
  "pool_destroy e p0 =
     (case p0 of
        None \<Rightarrow> Some e
      | Some p \<Rightarrow>
          (let is = [0..<num_workers p]; e = call Monitor_Join e in do {
             e \<leftarrow> stop_all p is e;
             destroy_all p is (join_all p is e)
           }))"

section \<open>Invariant\<close>

definition handles :: "thread_pool \<Rightarrow> nat list" where
  "handles p = map (\<lambda>i. w_reactor (workers p i)) [0..<num_workers p]"

definition ids_ok :: "thread_pool \<Rightarrow> bool" where
  "ids_ok p \<longleftrightarrow> (\<forall>i < num_workers p. w_id (workers p i) = i \<and> w_thread (workers p i) = w_reactor (workers p i))"

definition config_ok :: "pool_config \<Rightarrow> bool" where
  "config_ok cfg \<longleftrightarrow> 1 \<le> min_workers cfg \<and> min_workers cfg \<le> max_workers cfg"

definition pool_ok :: "machine \<times> thread_pool \<Rightarrow> bool" where
  "pool_ok s \<longleftrightarrow> (let (e, p) = s in
     config_ok (tp_cfg p) \<and> int (num_workers p) \<le> max_workers (tp_cfg p) \<and> ids_ok p \<and> distinct (handles p) \<and>
     dom (live e) = set (handles p) \<and> (\<forall>h \<in> dom (live e). h < fresh e))"

lemma handles_length [simp]: "length (handles p) = num_workers p"
  by (simp add: handles_def)

lemma handles_nth: "i < num_workers p \<Longrightarrow> handles p ! i = w_reactor (workers p i)"
  by (simp add: handles_def)

lemma handle_live: "pool_ok (e, p) \<Longrightarrow> i < num_workers p \<Longrightarrow> live e (w_reactor (workers p i)) \<noteq> None"
  using nth_mem [of i "handles p"] by (auto simp: pool_ok_def handles_nth)

lemma call_fields [simp]:
  "os (call k e) = os e" "live (call k e) = live e" "fresh (call k e) = fresh e" "calls (call k e) = calls e @ [k]"
  "setups (call k e) = setups e" "thread_results (call k e) = thread_results e"
  by (simp_all add: call_def)

text \<open>The three ways \<open>spawn_worker\<close> ends: nothing happened, the thread did not start, a new last worker.\<close>

definition created :: "machine \<Rightarrow> thread_pool \<Rightarrow> bool" where
  "created e p \<longleftrightarrow> snd (reactor_create (case setups e of [] \<Rightarrow> no_setup | su # _ \<Rightarrow> su) (os e)
     (Some \<lparr>rc_port = tp_port p, rc_doc_root = pc_doc_root (tp_cfg p), rc_max_events = 0, rc_backlog = 0, rc_reuse_port = True\<rparr>)) \<noteq> None"

definition started :: "machine \<Rightarrow> bool" where
  "started e \<longleftrightarrow> thread_results e = [] \<or> hd (thread_results e)"

lemma spawn_worker_cases:
  assumes "ids_ok p" "live e (fresh e) = None"
  obtains (idle) e' where "spawn_worker e p = Some (e', p)" "live e' = live e" "fresh e' = fresh e" "calls e' = calls e"
      "max_workers (tp_cfg p) \<le> int (num_workers p) \<or> \<not> created e p"
  | (unstarted) e' p' where "spawn_worker e p = Some (e', p')" "live e' = live e" "fresh e' = fresh e + 1" "tp_cfg p' = tp_cfg p"
      "num_workers p' = num_workers p" "handles p' = handles p" "ids_ok p'" "calls e' = calls e @ [Reactor_Destroy (fresh e)]"
      "int (num_workers p) < max_workers (tp_cfg p)" "created e p" "\<not> started e"
  | (spawned) e' p' r where "spawn_worker e p = Some (e', p')" "live e' = (live e)(fresh e \<mapsto> r)" "fresh e' = fresh e + 1" "tp_cfg p' = tp_cfg p"
      "num_workers p' = num_workers p + 1" "handles p' = handles p @ [fresh e]" "ids_ok p'" "calls e' = calls e @ [Thread_Create (fresh e)]"
      "int (num_workers p) < max_workers (tp_cfg p)" "created e p" "started e"
proof (cases "max_workers (tp_cfg p) \<le> int (num_workers p)")
  case True
  then show ?thesis by (intro idle [of e]) (simp_all add: spawn_worker_def)
next
  case room: False
  let ?rc = "\<lparr>rc_port = tp_port p, rc_doc_root = pc_doc_root (tp_cfg p), rc_max_events = 0, rc_backlog = 0, rc_reuse_port = True\<rparr>"
  obtain w res where c: "reactor_create (case setups e of [] \<Rightarrow> no_setup | su # _ \<Rightarrow> su) (os e) (Some ?rc) = (w, res)" by fastforce
  show ?thesis
  proof (cases res)
    case None
    with room c show ?thesis
      by (intro idle [of "e\<lparr>os := w, setups := tl (setups e)\<rparr>"]) (simp_all add: spawn_worker_def create_worker_reactor_def created_def Let_def)
  next
    case (Some r)
    let ?n = "num_workers p" and ?h = "fresh e"
    let ?e = "e\<lparr>os := w, setups := tl (setups e), live := (live e)(?h \<mapsto> r), fresh := ?h + 1, thread_results := tl (thread_results e)\<rparr>"
    let ?x = "workers p ?n\<lparr>w_id := ?n, w_reactor := ?h\<rparr>"
    have cr: "created e p" using c Some by (simp add: created_def)
    have st: "(case thread_results e of [] \<Rightarrow> True | b # _ \<Rightarrow> b) = started e" by (simp add: started_def split: list.splits)
    show ?thesis
    proof (cases "started e")
      case False
      have "spawn_worker e p = Some (call (Reactor_Destroy ?h) (?e\<lparr>os := reactor_destroy w (Some r), live := (live e)(?h := None)\<rparr>),
          p\<lparr>workers := (workers p)(?n := ?x)\<rparr>)"
        using room c Some False
        by (simp add: spawn_worker_def create_worker_reactor_def start_thread_def set_worker_def destroy_reactor_def st Let_def)
      from unstarted [OF this] show ?thesis
        using room cr False assms(1,2) by (auto simp: handles_def ids_ok_def fun_upd_idem)
    next
      case True
      have "spawn_worker e p = Some (call (Thread_Create ?h) ?e,
          p\<lparr>workers := (workers p)(?n := ?x\<lparr>w_thread := ?h\<rparr>), num_workers := ?n + 1\<rparr>)"
        using room c Some True
        by (simp add: spawn_worker_def create_worker_reactor_def start_thread_def set_worker_def st Let_def)
      from spawned [OF this, of r] show ?thesis
        using room cr True assms(1,2) by (auto simp: handles_def ids_ok_def)
    qed
  qed
qed

text \<open>Removing an element by moving the last one into its place.\<close>

definition remove_swap :: "'a list \<Rightarrow> nat \<Rightarrow> 'a list" where
  "remove_swap xs i = butlast (xs[i := last xs])"

lemma remove_swap_set:
  assumes "distinct xs" "i < length xs"
  shows "distinct (remove_swap xs i)" "set (remove_swap xs i) = set xs - {xs ! i}" "length (remove_swap xs i) = length xs - 1"
proof -
  obtain ys l where xs: "xs = ys @ [l]" using assms(2) by (metis append_butlast_last_id list.size(3) not_less_zero)
  have eq: "remove_swap xs i = (if i < length ys then ys[i := l] else ys)" using assms(2) by (auto simp: remove_swap_def xs list_update_append)
  have d: "distinct ys" "l \<notin> set ys" using assms(1) by (auto simp: xs)
  show "length (remove_swap xs i) = length xs - 1" by (simp add: remove_swap_def)
  show "distinct (remove_swap xs i)" using d by (simp add: eq distinct_list_update)
  show "set (remove_swap xs i) = set xs - {xs ! i}"
    unfolding eq using d assms(2) by (auto simp: xs nth_append set_update_distinct not_less less_Suc_eq)
qed

text \<open>The load of a reactor, and what tuning does to the sequence of reactors.\<close>

definition load :: "machine \<Rightarrow> nat \<Rightarrow> int" where
  "load e h = (case live e h of None \<Rightarrow> 0 | Some r \<Rightarrow> reactor_active_connections r)"

definition tune_spec :: "pool_config \<Rightarrow> (nat \<Rightarrow> int) \<Rightarrow> nat option \<Rightarrow> nat list \<Rightarrow> nat list" where
  "tune_spec cfg ld new hs =
     (if load_high cfg < sum_list (map ld hs) then
        (case new of Some h \<Rightarrow> if int (length hs) < max_workers cfg then hs @ [h] else hs | None \<Rightarrow> hs)
      else if sum_list (map ld hs) < load_low cfg \<and> min_workers cfg < int (length hs) then
        (case find (\<lambda>i. ld (hs ! i) = 0) [0..<length hs] of Some i \<Rightarrow> remove_swap hs i | None \<Rightarrow> hs)
      else hs)"

lemma total_load_eq:
  assumes "\<forall>i \<in> set is. live e (w_reactor (workers p i)) \<noteq> None"
  shows "total_load e p is t = Some (t + sum_list (map (\<lambda>i. load e (w_reactor (workers p i))) is))"
  using assms by (induction "is" arbitrary: t) (auto simp: load_def)

lemma retire_scan_eq:
  assumes "\<forall>i \<in> set is. live e (w_reactor (workers p i)) \<noteq> None"
  shows "retire_scan e p is = (case find (\<lambda>i. load e (w_reactor (workers p i)) = 0) is of None \<Rightarrow> Some (e, p) | Some i \<Rightarrow> retire e p i)"
  using assms by (induction "is") (auto simp: load_def)

lemma retire_ok:
  assumes ok: "pool_ok (e, p)" and i: "i < num_workers p"
  shows "\<exists>e' p'. retire e p i = Some (e', p') \<and> live e' = (live e)(handles p ! i := None) \<and> fresh e' = fresh e \<and> tp_cfg p' = tp_cfg p \<and>
    num_workers p' = num_workers p - 1 \<and> handles p' = remove_swap (handles p) i \<and> ids_ok p' \<and>
    calls e' = calls e @ [Reactor_Stop (handles p ! i), Thread_Join (handles p ! i), Reactor_Destroy (handles p ! i)]"
proof -
  let ?h = "handles p ! i" and ?n = "num_workers p - 1"
  let ?x = "workers p ?n\<lparr>w_id := i\<rparr>"
  let ?p = "p\<lparr>workers := (workers p)(i := ?x), num_workers := ?n\<rparr>"
  obtain r where r: "live e ?h = Some r" using handle_live [OF ok i] i by (auto simp: handles_nth)
  have cap: "int i < max_workers (tp_cfg p)" "ids_ok p" using ok i by (auto simp: pool_ok_def)
  have wi: "w_reactor (workers p i) = ?h" "w_thread (workers p i) = ?h" using i cap(2) by (auto simp: handles_nth ids_ok_def)
  have run: "retire e p i = Some (call (Reactor_Destroy ?h) (call (Thread_Join ?h) (call (Reactor_Stop ?h)
      (e\<lparr>os := reactor_stop (os e) r\<rparr>))\<lparr>os := reactor_destroy (reactor_stop (os e) r) (Some r), live := (live e)(?h := None)\<rparr>), ?p)"
    using cap(1) r by (simp add: retire_def wi stop_reactor_def destroy_reactor_def set_worker_def)
  have "handles p \<noteq> []" using i by (auto simp: handles_def)
  then have last: "last (handles p) = w_reactor (workers p ?n)" using i by (simp add: last_conv_nth handles_nth)
  have "handles ?p = remove_swap (handles p) i"
    unfolding remove_swap_def last by (rule nth_equalityI) (auto simp: handles_nth nth_butlast nth_list_update)
  moreover have "ids_ok ?p" using cap(2) i by (auto simp: ids_ok_def)
  ultimately show ?thesis using run by (intro exI conjI) (assumption, simp_all)
qed

lemma retire_pool_ok:
  assumes ok: "pool_ok (e, p)" and i: "i < num_workers p" and run: "retire e p i = Some (e', p')"
  shows "pool_ok (e', p')"
proof -
  have d: "distinct (handles p)" "i < length (handles p)" using ok i by (auto simp: pool_ok_def)
  with retire_ok [OF ok i] run ok remove_swap_set [OF d] show ?thesis by (auto simp: pool_ok_def)
qed

lemma fresh_not_live: "pool_ok (e, p) \<Longrightarrow> live e (fresh e) = None"
  by (auto simp: pool_ok_def)

lemma spawn_worker_ok:
  assumes ok: "pool_ok (e, p)"
  shows "\<exists>e' p'. spawn_worker e p = Some (e', p') \<and> pool_ok (e', p') \<and> tp_cfg p' = tp_cfg p \<and>
    handles p' = (if created e p \<and> started e \<and> int (num_workers p) < max_workers (tp_cfg p) then handles p @ [fresh e] else handles p)"
proof -
  have ids: "ids_ok p" "live e (fresh e) = None" using ok fresh_not_live by (auto simp: pool_ok_def)
  then show ?thesis
  proof (cases rule: spawn_worker_cases)
    case (idle e')
    with ok show ?thesis by (auto simp: pool_ok_def)
  next
    case (unstarted e' p')
    with ok show ?thesis by (intro exI [of _ e'] exI [of _ p']) (auto simp: pool_ok_def less_Suc_eq)
  next
    case (spawned e' p' r)
    have "fresh e \<notin> set (handles p)" using ok ids(2) by (auto simp: pool_ok_def)
    with spawned ok show ?thesis by (intro exI [of _ e'] exI [of _ p']) (auto simp: pool_ok_def less_Suc_eq)
  qed
qed

lemma retire_idle_worker_ok:
  assumes ok: "pool_ok (e, p)"
  shows "\<exists>e' p'. retire_idle_worker e p = Some (e', p') \<and> pool_ok (e', p') \<and> tp_cfg p' = tp_cfg p \<and>
    handles p' = (if min_workers (tp_cfg p) < int (num_workers p) then
        (case find (\<lambda>i. load e (handles p ! i) = 0) [0..<num_workers p] of Some i \<Rightarrow> remove_swap (handles p) i | None \<Rightarrow> handles p)
      else handles p)"
proof (cases "min_workers (tp_cfg p) < int (num_workers p)")
  case False
  with ok show ?thesis by (auto simp: retire_idle_worker_def)
next
  case True
  have lv: "\<forall>i \<in> set [0..<num_workers p]. live e (w_reactor (workers p i)) \<noteq> None" using handle_live [OF ok] by simp
  have fd: "find (\<lambda>i. load e (w_reactor (workers p i)) = 0) [0..<num_workers p] = find (\<lambda>i. load e (handles p ! i) = 0) [0..<num_workers p]"
    by (rule find_cong) (simp_all add: handles_nth)
  show ?thesis
  proof (cases "find (\<lambda>i. load e (handles p ! i) = 0) [0..<num_workers p]")
    case None
    with True ok fd show ?thesis by (simp add: retire_idle_worker_def retire_scan_eq [OF lv])
  next
    case (Some i)
    then have i: "i < num_workers p" by (auto simp: find_Some_iff)
    from retire_ok [OF ok i] obtain e' p' where r: "retire e p i = Some (e', p')" "tp_cfg p' = tp_cfg p"
      "handles p' = remove_swap (handles p) i" by blast
    from retire_pool_ok [OF ok i r(1)] True r Some fd show ?thesis by (auto simp: retire_idle_worker_def retire_scan_eq [OF lv])
  qed
qed

lemma tune_pool_ok:
  assumes ok: "pool_ok (e, p)"
  shows "\<exists>e' p'. tune_pool e p = Some (e', p') \<and> pool_ok (e', p') \<and> tp_cfg p' = tp_cfg p \<and>
    handles p' = tune_spec (tp_cfg p) (load e) (if created e p \<and> started e then Some (fresh e) else None) (handles p)"
proof -
  have lv: "\<forall>i \<in> set [0..<num_workers p]. live e (w_reactor (workers p i)) \<noteq> None" using handle_live [OF ok] by simp
  have total: "total_load e p [0..<num_workers p] 0 = Some (sum_list (map (load e) (handles p)))"
    by (simp add: total_load_eq [OF lv] handles_def comp_def)
  let ?t = "sum_list (map (load e) (handles p))"
  consider (high) "load_high (tp_cfg p) < ?t" | (low) "\<not> load_high (tp_cfg p) < ?t" "?t < load_low (tp_cfg p)"
    | (mid) "\<not> load_high (tp_cfg p) < ?t" "\<not> ?t < load_low (tp_cfg p)" by blast
  then show ?thesis
  proof cases
    case high
    with spawn_worker_ok [OF ok] show ?thesis by (auto simp: tune_pool_def total tune_spec_def)
  next
    case low
    with retire_idle_worker_ok [OF ok] show ?thesis by (auto simp: tune_pool_def total tune_spec_def)
  next
    case mid
    with ok show ?thesis by (auto simp: tune_pool_def total tune_spec_def)
  qed
qed

lemma tune_spec_min:
  assumes "min_workers cfg \<le> int (length hs)" "distinct hs"
  shows "min_workers cfg \<le> int (length (tune_spec cfg ld new hs))"
  using assms remove_swap_set(3) [OF assms(2)]
  by (auto simp: tune_spec_def find_Some_iff split: option.splits)

lemma tune_pool_min:
  assumes ok: "pool_ok (e, p)" and run: "tune_pool e p = Some (e', p')" and min: "min_workers (tp_cfg p) \<le> int (num_workers p)"
  shows "min_workers (tp_cfg p) \<le> int (num_workers p')"
proof -
  from tune_pool_ok [OF ok] run obtain new where "handles p' = tune_spec (tp_cfg p) (load e) new (handles p)" by auto
  then have "num_workers p' = length (tune_spec (tp_cfg p) (load e) new (handles p))" by (metis handles_length)
  moreover have "distinct (handles p)" using ok by (simp add: pool_ok_def)
  ultimately show ?thesis using tune_spec_min min by simp
qed

section \<open>Runs of the pool\<close>

text \<open>
  Worker threads run their reactors (and the results of later calls are decided), the monitor tunes, or
  it acts on what it saw a while ago: it adds a worker because of counts that have changed since, or
  retires one that it found idle then.
\<close>

inductive pool_step :: "machine \<times> thread_pool \<Rightarrow> machine \<times> thread_pool \<Rightarrow> bool" where
  Threads: "dom (live e') = dom (live e) \<Longrightarrow> fresh e' = fresh e \<Longrightarrow> pool_step (e, p) (e', p)"
| Tune: "tune_pool e p = Some (e', p') \<Longrightarrow> pool_step (e, p) (e', p')"
| Late_Spawn: "spawn_worker e p = Some (e', p') \<Longrightarrow> pool_step (e, p) (e', p')"
| Late_Retire: "i < num_workers p \<Longrightarrow> min_workers (tp_cfg p) < int (num_workers p) \<Longrightarrow> retire e p i = Some (e', p') \<Longrightarrow>
    pool_step (e, p) (e', p')"

definition pool_start :: "machine \<times> thread_pool \<Rightarrow> bool" where
  "pool_start s \<longleftrightarrow> (\<exists>mem pk e cfg. live e = Map.empty \<and> pool_create mem pk e cfg = Some (fst s, Some (snd s)))"

lemma spawn_times_ok:
  assumes "pool_ok (e, p)"
  shows "\<exists>e' p'. spawn_times n e p = Some (e', p') \<and> pool_ok (e', p') \<and> tp_cfg p' = tp_cfg p \<and>
    num_workers p \<le> num_workers p' \<and> num_workers p' \<le> num_workers p + n"
  using assms
proof (induction n arbitrary: e p)
  case (Suc n)
  from spawn_worker_ok [OF Suc.prems] obtain e1 p1 where s: "spawn_worker e p = Some (e1, p1)" "pool_ok (e1, p1)" "tp_cfg p1 = tp_cfg p"
    "handles p1 = handles p \<or> handles p1 = handles p @ [fresh e]" by (auto split: if_splits)
  have n: "num_workers p \<le> num_workers p1" "num_workers p1 \<le> num_workers p + 1"
    using arg_cong [of _ _ length] s(4) by (fastforce simp flip: handles_length)+
  from Suc.IH [OF s(2)] s n show ?case by fastforce
qed simp

lemma spawn_worker_stop: "spawn_worker e p = Some (e', p') \<Longrightarrow> tp_stop p' = tp_stop p"
  by (auto simp: spawn_worker_def set_worker_def Let_def bind_eq_Some_conv split: if_splits prod.splits option.splits)

lemma spawn_times_stop: "spawn_times n e p = Some (e', p') \<Longrightarrow> tp_stop p' = tp_stop p"
  by (induction n arbitrary: e p) (auto simp: bind_eq_Some_conv dest: spawn_worker_stop)

definition pool_refused :: "bool \<times> bool \<Rightarrow> pick_env \<Rightarrow> pool_config option \<Rightarrow> bool" where
  "pool_refused mem pk cfg0 \<longleftrightarrow>
     (case cfg0 of None \<Rightarrow> True
      | Some cfg \<Rightarrow> \<not> config_ok cfg \<or> mem \<noteq> (True, True) \<or>
          pc_port cfg \<le> 0 \<and> (pk_socket pk < 0 \<or> \<not> pk_bind pk \<or> pk_sockname pk = None \<or> pk_sockname pk = Some 0))"

lemma pick_port_positive:
  "0 < snd (pick_ephemeral_port pk w) \<longleftrightarrow> \<not> (pk_socket pk < 0 \<or> \<not> pk_bind pk \<or> pk_sockname pk = None \<or> pk_sockname pk = Some 0)"
  by (auto simp: pick_ephemeral_port_def Let_def split: option.splits)

lemma pool_create_ok:
  assumes "live e = Map.empty"
  shows "\<exists>e' res. pool_create mem pk e cfg0 = Some (e', res) \<and> (res = None \<longleftrightarrow> pool_refused mem pk cfg0) \<and>
    (case res of
       None \<Rightarrow> live e' = Map.empty \<and> calls e' = calls e
     | Some p \<Rightarrow> pool_ok (e', p) \<and> Some (tp_cfg p) = cfg0 \<and> int (num_workers p) \<le> min_workers (tp_cfg p) \<and> \<not> tp_stop p)"
proof (cases "pool_refused mem pk cfg0")
  case True
  show ?thesis
  proof (cases cfg0)
    case (Some cfg)
    with True assms pick_port_positive [of pk "os e"] show ?thesis
      by (cases mem) (auto simp: pool_refused_def pool_create_def config_ok_def Let_def not_less split: prod.splits)
  qed (use assms in \<open>simp add: pool_refused_def pool_create_def\<close>)
next
  case False
  then obtain cfg where cfg: "cfg0 = Some cfg" "config_ok cfg" "mem = (True, True)" by (auto simp: pool_refused_def split: option.splits)
  obtain w port where wp: "(if 0 < pc_port cfg then (os e, pc_port cfg) else pick_ephemeral_port pk (os e)) = (w, port)" by fastforce
  have port: "0 < port" using False cfg wp pick_port_positive [of pk "os e"] by (auto simp: pool_refused_def split: if_splits)
  let ?p = "\<lparr>tp_cfg = cfg, tp_port = port, workers = (\<lambda>_. \<lparr>w_id = 0, w_reactor = 0, w_thread = 0\<rparr>), num_workers = 0, tp_stop = False\<rparr>"
  have "pool_ok (e\<lparr>os := w\<rparr>, ?p)" using cfg(2) assms by (simp add: pool_ok_def config_ok_def ids_ok_def handles_def)
  from spawn_times_ok [OF this] obtain e1 p1 where s: "spawn_times (nat (min_workers cfg)) (e\<lparr>os := w\<rparr>) ?p = Some (e1, p1)"
    "pool_ok (e1, p1)" "tp_cfg p1 = cfg" "num_workers p1 \<le> nat (min_workers cfg)" by fastforce
  have run: "pool_create mem pk e cfg0 = Some (call Monitor_Create e1, Some p1)"
    using cfg wp port s(1) by (simp add: pool_create_def config_ok_def)
  have "\<not> tp_stop p1" using spawn_times_stop [OF s(1)] by simp
  moreover have "pool_ok (call Monitor_Create e1, p1)" using s(2) by (simp add: pool_ok_def)
  ultimately show ?thesis using run s(3,4) cfg(1,2) False by (auto simp: config_ok_def)
qed

interpretation wp: invariant_system pool_start pool_step pool_ok
proof unfold_locales
  fix s assume "pool_start s"
  then obtain mem pk e cfg where c: "live e = Map.empty" "pool_create mem pk e cfg = Some (fst s, Some (snd s))"
    by (auto simp: pool_start_def)
  from pool_create_ok [OF c(1), of mem pk cfg] c(2) show "pool_ok s" by auto
next
  fix s t assume ok: "pool_ok s" and "pool_step s t"
  from this(2) show "pool_ok t"
  proof cases
    case (Threads e' e p)
    with ok show ?thesis by (auto simp: pool_ok_def)
  next
    case (Tune e p e' p')
    with ok tune_pool_ok [of e p] show ?thesis by auto
  next
    case (Late_Spawn e p e' p')
    with ok spawn_worker_ok [of e p] show ?thesis by auto
  next
    case (Late_Retire i p e e' p')
    with ok retire_pool_ok [of e p i e' p'] show ?thesis by simp
  qed
qed

section \<open>Tearing down\<close>

lemma stop_all_ok:
  assumes "\<forall>i \<in> set is. live e (w_reactor (workers p i)) \<noteq> None"
  shows "\<exists>e'. stop_all p is e = Some e' \<and> live e' = live e \<and> calls e' = calls e @ map (\<lambda>i. Reactor_Stop (w_reactor (workers p i))) is"
  using assms
proof (induction "is" arbitrary: e)
  case (Cons i "is")
  from Cons.prems obtain r where "live e (w_reactor (workers p i)) = Some r" by auto
  then have s: "stop_reactor e (w_reactor (workers p i)) = Some (call (Reactor_Stop (w_reactor (workers p i))) (e\<lparr>os := reactor_stop (os e) r\<rparr>))"
    by (simp add: stop_reactor_def)
  from Cons.IH [of "call (Reactor_Stop (w_reactor (workers p i))) (e\<lparr>os := reactor_stop (os e) r\<rparr>)"] Cons.prems s show ?case by auto
qed simp

lemma join_all_fields:
  "live (join_all p is e) = live e \<and> calls (join_all p is e) = calls e @ map (\<lambda>i. Thread_Join (w_thread (workers p i))) is"
  by (induction "is" arbitrary: e) simp_all

lemma destroy_all_ok:
  assumes "\<forall>i \<in> set is. live e (w_reactor (workers p i)) \<noteq> None" "distinct (map (\<lambda>i. w_reactor (workers p i)) is)"
  shows "\<exists>e'. destroy_all p is e = Some e' \<and> live e' = live e |` (- (\<lambda>i. w_reactor (workers p i)) ` set is) \<and>
    calls e' = calls e @ map (\<lambda>i. Reactor_Destroy (w_reactor (workers p i))) is"
  using assms
proof (induction "is" arbitrary: e)
  case (Cons i "is")
  let ?h = "w_reactor (workers p i)"
  from Cons.prems obtain r where "live e ?h = Some r" by auto
  then obtain e1 where s: "destroy_reactor e ?h = Some e1" "live e1 = (live e)(?h := None)" "calls e1 = calls e @ [Reactor_Destroy ?h]"
    by (simp add: destroy_reactor_def)
  have "live e1 (w_reactor (workers p j)) \<noteq> None" if "j \<in> set is" for j
    using that Cons.prems s(2) by (auto simp: image_iff)
  from Cons.IH [of e1] this Cons.prems(2) obtain e2 where
    "destroy_all p is e1 = Some e2" "live e2 = live e1 |` (- (\<lambda>i. w_reactor (workers p i)) ` set is)"
    "calls e2 = calls e1 @ map (\<lambda>i. Reactor_Destroy (w_reactor (workers p i))) is" by auto
  with s show ?case by (auto simp: restrict_map_def fun_eq_iff)
qed (simp add: restrict_map_def)

lemma pool_destroy_ok:
  assumes "pool_ok (e, p)"
  shows "\<exists>e'. pool_destroy e (Some p) = Some e' \<and> live e' = Map.empty \<and>
    calls e' = calls e @ Monitor_Join # map Reactor_Stop (handles p) @ map Thread_Join (handles p) @ map Reactor_Destroy (handles p)"
proof -
  let ?is = "[0..<num_workers p]" and ?w = "\<lambda>i. w_reactor (workers p i)"
  have lv: "\<forall>i \<in> set ?is. live (call Monitor_Join e) (?w i) \<noteq> None" using handle_live [OF assms] by simp
  from stop_all_ok [OF lv] obtain e1 where s: "stop_all p ?is (call Monitor_Join e) = Some e1" "live e1 = live e"
    "calls e1 = calls e @ Monitor_Join # map Reactor_Stop (handles p)" by (auto simp: handles_def)
  let ?e2 = "join_all p ?is e1"
  have j: "live ?e2 = live e" "calls ?e2 = calls e1 @ map Thread_Join (handles p)"
    using assms s(2) join_all_fields [of p ?is e1] by (auto simp: handles_def pool_ok_def ids_ok_def)
  have "\<forall>i \<in> set ?is. live ?e2 (?w i) \<noteq> None" "distinct (map ?w ?is)"
    using lv j assms by (auto simp: pool_ok_def handles_def)
  from destroy_all_ok [OF this] obtain e3 where d: "destroy_all p ?is ?e2 = Some e3" "live e3 = live ?e2 |` (- ?w ` set ?is)"
    "calls e3 = calls ?e2 @ map Reactor_Destroy (handles p)" by (auto simp: handles_def)
  have "dom (live e) = ?w ` set ?is" using assms by (auto simp: pool_ok_def handles_def)
  then have "live e3 = Map.empty" using d(2) j(1) by (auto simp: restrict_map_def fun_eq_iff domIff)
  with s j d show ?thesis by (simp add: pool_destroy_def)
qed

section \<open>The monitor as a sequence of steps\<close>

lemma settle_step: "pool_step (e, p) (settle rs (call k e), p)"
  by (rule pool_step.Threads) (auto simp: settle_def split: option.splits)

lemma stop_flag: "pool_ok (e, p\<lparr>tp_stop := b\<rparr>) = pool_ok (e, p)"
  by (simp add: pool_ok_def ids_ok_def handles_def)

text \<open>Apart from the stop flag, which the monitor only reads, its rounds are steps of the pool.\<close>

lemma monitor_loop_steps:
  assumes "pool_ok (e, p)"
  shows "\<exists>e' p'. monitor_loop ws ts e p = Some (e', p') \<and> pool_ok (e', p') \<and> tp_cfg p' = tp_cfg p \<and>
    (min_workers (tp_cfg p) \<le> int (num_workers p) \<longrightarrow> min_workers (tp_cfg p) \<le> int (num_workers p'))"
  using assms
proof (induction ws arbitrary: ts e p)
  case (Cons x ws)
  show ?case
  proof (cases x)
    case Stop_Seen
    with Cons.prems show ?thesis by (simp add: stop_flag)
  next
    case (Wake timed_out st rs now)
    let ?e = "settle rs (call (Timedwait ts) e)" and ?p = "p\<lparr>tp_stop := tp_stop p \<or> st\<rparr>"
    have ok: "pool_ok (?e, ?p)" using wp.inv_step [OF Cons.prems settle_step] by (simp add: stop_flag)
    consider "tp_stop ?p" | "\<not> tp_stop ?p" "\<not> timed_out" | (tune) "\<not> tp_stop ?p" timed_out by blast
    then show ?thesis
    proof cases
      case tune
      from tune_pool_ok [OF ok] obtain e1 p1 where t: "tune_pool ?e ?p = Some (e1, p1)" "pool_ok (e1, p1)" "tp_cfg p1 = tp_cfg p" by auto
      have "min_workers (tp_cfg p) \<le> int (num_workers p) \<Longrightarrow> min_workers (tp_cfg p) \<le> int (num_workers p1)"
        using tune_pool_min [OF ok t(1)] by simp
      with Cons.IH [OF t(2), of "deadline (tune_interval_ms (tp_cfg p1)) now"] t tune Wake show ?thesis by (auto simp: Let_def)
    qed (use Wake ok Cons.IH [OF ok] in \<open>auto simp: Let_def\<close>)
  qed
qed simp

section \<open>Properties\<close>

definition good_setup :: create_env where
  "good_setup = \<lparr>su_reactor = True, su_conns = True, su_strdup = True, su_epoll = 3, su_eventfd = 4, su_socket = 6,
     su_bind = True, su_listen = True, su_sockname = Some 8080\<rparr>"

definition idle_machine :: "create_env list \<Rightarrow> machine" where
  "idle_machine sus = \<lparr>os = one_file ''x'' 0, setups = sus, thread_results = [], live = Map.empty, fresh = 0, calls = []\<rparr>"

definition small_pool :: pool_config where
  "small_pool = \<lparr>pc_port = 8080, pc_doc_root = None, min_workers = 2, max_workers = 3, load_high = 12, load_low = 1, tune_interval_ms = 200\<rparr>"

lemma small_pool_start:
  obtains e p where "pool_create (True, True) pk (idle_machine [good_setup, good_setup]) (Some small_pool) = Some (e, Some p)"
    "reachable pool_start pool_step (e, p)" "tp_cfg p = small_pool"
proof -
  have l: "live (idle_machine [good_setup, good_setup]) = Map.empty" by (simp add: idle_machine_def)
  have "\<not> pool_refused (True, True) pk (Some small_pool)" by (simp add: pool_refused_def config_ok_def small_pool_def)
  with pool_create_ok [OF l, of "(True, True)" pk "Some small_pool"] obtain e p where
    c: "pool_create (True, True) pk (idle_machine [good_setup, good_setup]) (Some small_pool) = Some (e, Some p)" "tp_cfg p = small_pool"
    by (auto split: option.splits)
  then have "pool_start (e, p)" using l by (simp add: pool_start_def del: split_paired_Ex) blast
  with c show ?thesis by (intro that [of e p]) (auto intro: reachable.start)
qed

text \<open>C7. In every state the pool reaches from \<open>pool_create\<close>, while worker threads change the
  loads at will, no call touches a destroyed reactor or writes outside the array of workers: tuning and
  destroying return. There are at most \<open>max_workers\<close> workers, each with its index as id and its
  own reactor, and the reactors that exist are exactly those of the workers, so none leaks.\<close>

theorem pool_sessions_safe:
  assumes "reachable pool_start pool_step (e, p)"
  shows "int (pool_worker_count p) \<le> max_workers (tp_cfg p) \<and> (\<forall>i < pool_worker_count p. w_id (workers p i) = i) \<and>
    distinct (handles p) \<and> dom (live e) = set (handles p) \<and> (\<exists>e' p'. tune_pool e p = Some (e', p')) \<and>
    (\<exists>e'. pool_destroy e (Some p) = Some e')"
proof -
  have ok: "pool_ok (e, p)" using wp.reachable_inv [OF assms] .
  then show ?thesis
    using tune_pool_ok [OF ok] pool_destroy_ok [OF ok] by (auto simp: pool_ok_def ids_ok_def pool_worker_count_def)
qed

theorem pool_sessions_safe_witness:
  "\<exists>e p. reachable pool_start pool_step (e, p) \<and> tp_cfg p = small_pool \<and> int (pool_worker_count p) \<le> 3"
proof -
  obtain e p where "reachable pool_start pool_step (e, p)" "tp_cfg p = small_pool" using small_pool_start by metis
  with pool_sessions_safe [of e p] show ?thesis by (auto simp: small_pool_def)
qed

text \<open>C11. Tuning refines its specification on the sequence of reactors: above the high watermark of the
  summed load one is added at the end if there is room and its socket and thread could be made; below
  the low watermark, with more than \<open>min_workers\<close> of them, the first idle one is removed and the
  last takes its place; otherwise nothing changes. The pool never shrinks below its minimum.\<close>

theorem tune_pool_refines:
  assumes "reachable pool_start pool_step (e, p)" "tune_pool e p = Some (e', p')"
  shows "handles p' = tune_spec (tp_cfg p) (load e) (if created e p \<and> started e then Some (fresh e) else None) (handles p) \<and>
    tp_cfg p' = tp_cfg p \<and>
    (min_workers (tp_cfg p) \<le> int (pool_worker_count p) \<longrightarrow> min_workers (tp_cfg p) \<le> int (pool_worker_count p'))"
proof -
  have ok: "pool_ok (e, p)" using wp.reachable_inv [OF assms(1)] .
  from tune_pool_ok [OF ok] assms(2) tune_pool_min [OF ok assms(2)] show ?thesis by (auto simp: pool_worker_count_def)
qed

theorem tune_pool_refines_witness:
  "\<exists>e p e' p'. reachable pool_start pool_step (e, p) \<and> tune_pool e p = Some (e', p') \<and> tp_cfg p' = small_pool"
proof -
  obtain e p where r: "reachable pool_start pool_step (e, p)" "tp_cfg p = small_pool" using small_pool_start by metis
  then obtain e' p' where "tune_pool e p = Some (e', p')" using tune_pool_ok wp.reachable_inv by blast
  with r tune_pool_refines [OF r(1) this] show ?thesis by auto
qed



text \<open>C25. Destroying a pool in any reached state joins the monitor, then tells every worker's reactor to
  stop, then joins every worker, then destroys every reactor: each exactly once, in this order, and
  no reactor is left.\<close>

theorem pool_destroy_in_order:
  assumes "reachable pool_start pool_step (e, p)"
  shows "\<exists>e'. pool_destroy e (Some p) = Some e' \<and> live e' = Map.empty \<and>
    calls e' = calls e @ Monitor_Join # map Reactor_Stop (handles p) @ map Thread_Join (handles p) @ map Reactor_Destroy (handles p)"
  using pool_destroy_ok [OF wp.reachable_inv [OF assms]] .

theorem pool_destroy_in_order_witness:
  "\<exists>e p e'. reachable pool_start pool_step (e, p) \<and> pool_destroy e (Some p) = Some e' \<and> live e' = Map.empty"
proof -
  obtain e p where r: "reachable pool_start pool_step (e, p)" using small_pool_start by metis
  from r pool_destroy_in_order [OF r] show ?thesis by blast
qed

text \<open>C26. \<open>pool_create\<close> returns no pool exactly for a missing or inconsistent configuration, a failed
  allocation, or when no port was given and none could be found; then it leaves nothing behind. In
  every other case it returns a pool, also when workers could not be started: if no reactor can be
  made, the pool it returns has no worker at all, although its header promises NULL on failure.\<close>

theorem pool_create_result:
  assumes "live e = Map.empty"
  shows "\<exists>e' res. pool_create mem pk e cfg0 = Some (e', res) \<and> (res = None \<longleftrightarrow> pool_refused mem pk cfg0) \<and>
    (case res of
       None \<Rightarrow> live e' = Map.empty \<and> calls e' = calls e
     | Some p \<Rightarrow> Some (tp_cfg p) = cfg0 \<and> int (pool_worker_count p) \<le> min_workers (tp_cfg p) \<and> dom (live e') = set (handles p) \<and>
         (setups e = [] \<longrightarrow> pool_worker_count p = 0))"
proof -
  have none: "spawn_times n e1 p1 = Some (e2, p2) \<Longrightarrow> setups e1 = [] \<Longrightarrow> num_workers p2 = num_workers p1" for n e1 p1 e2 p2
    by (induction n arbitrary: e1 p1)
      (auto simp: spawn_worker_def create_worker_reactor_def reactor_create_def no_setup_def Let_def split: if_splits)
  have "pool_worker_count p = 0" if "pool_create mem pk e cfg0 = Some (e', Some p)" "setups e = []" for e' p
    using that none by (fastforce simp: pool_create_def pool_worker_count_def bind_eq_Some_conv Let_def split: option.splits if_splits prod.splits)
  with pool_create_ok [OF assms, of mem pk cfg0] show ?thesis
    by (fastforce simp: pool_ok_def pool_worker_count_def split: option.splits)
qed

theorem pool_create_result_witness:
  "\<exists>e p. pool_create (True, True) \<lparr>pk_socket = 3, pk_bind = True, pk_sockname = Some 5000\<rparr> (idle_machine []) (Some small_pool) = Some (e, Some p) \<and>
     pool_worker_count p = 0"
proof -
  let ?pk = "\<lparr>pk_socket = 3, pk_bind = True, pk_sockname = Some 5000\<rparr>"
  have "live (idle_machine []) = Map.empty" "setups (idle_machine []) = []" by (simp_all add: idle_machine_def)
  moreover have "\<not> pool_refused (True, True) ?pk (Some small_pool)" by (simp add: pool_refused_def config_ok_def small_pool_def)
  ultimately show ?thesis using pool_create_result [of "idle_machine []" "(True, True)" ?pk "Some small_pool"] by (auto split: option.splits)
qed

text \<open>The deadline of the timed wait is a normalised time, and it lies exactly the tuning interval
  (50 ms when none is configured) after the time read from the clock.\<close>

theorem deadline_exact:
  assumes "0 \<le> snd ts" "snd ts < 1000000000"
  shows "0 \<le> snd (deadline interval ts) \<and> snd (deadline interval ts) < 1000000000 \<and>
    fst (deadline interval ts) * 1000000000 + snd (deadline interval ts) =
      fst ts * 1000000000 + snd ts + (if 0 < interval then interval else 50) * 1000000"
proof -
  define ms where "ms = (if 0 < interval then interval else 50)"
  have "ms mod 1000 * 1000000 + ms div 1000 * 1000000000 = ms * 1000000" using div_mult_mod_eq [of ms 1000] by linarith
  moreover have "0 \<le> ms mod 1000" "ms mod 1000 < 1000" by simp_all
  ultimately show ?thesis
    unfolding deadline_def Let_def ms_def [symmetric] using assms by (auto simp: algebra_simps)
qed

theorem deadline_exact_witness:
  "snd (deadline 200 (5, 900000000)) < 1000000000 \<and>
     fst (deadline 200 (5, 900000000)) * 1000000000 + snd (deadline 200 (5, 900000000)) = 6100000000"
  using deadline_exact [of "(5, 900000000)" 200] by simp

end
