(* ===== verification/Server_Runs.thy ===== *)
theory Server_Runs
  imports Reactor_Runs Thread_Pool
begin

text \<open>
  The pool of \<^verbatim>\<open>src/src/thread_pool.c\<close> and the reactors of its workers run together. Each worker thread
  runs the event loop of its own reactor, with an epoll instance and so a world of its own, while the
  monitor tunes. The workers do not take the pool's mutex, so they run on between any two looks of the
  monitor at their connection counts: the monitor has a program counter here, and each read of
  a count in the loops of \<open>tune_pool\<close> and \<open>retire_idle_worker\<close> is a step of its own.
\<close>

section \<open>The worker thread\<close>

definition worker_fn :: "wait_result list \<Rightarrow> world \<Rightarrow> reactor \<Rightarrow> (world \<times> reactor) option" where
  "worker_fn xs w r = reactor_run xs w r"

section \<open>The decision of the monitor\<close>

text \<open>What the monitor decides when nothing runs between its reads.\<close>

datatype choice = Grow_Pool | Shrink nat | Leave

definition tune_choice :: "machine \<Rightarrow> thread_pool \<Rightarrow> choice" where
  "tune_choice e p =
     (let t = sum_list (map (load e) (handles p)) in
      if load_high (tp_cfg p) < t then Grow_Pool
      else if t < load_low (tp_cfg p) \<and> min_workers (tp_cfg p) < int (num_workers p) then
        (case find (\<lambda>i. load e (handles p ! i) = 0) [0..<num_workers p] of Some i \<Rightarrow> Shrink i | None \<Rightarrow> Leave)
      else Leave)"

lemma tune_pool_choice:
  assumes ok: "pool_ok (e, p)"
  shows "tune_pool e p = (case tune_choice e p of Grow_Pool \<Rightarrow> spawn_worker e p | Shrink i \<Rightarrow> retire e p i | Leave \<Rightarrow> Some (e, p))"
proof -
  have lv: "\<forall>i \<in> set [0..<num_workers p]. live e (w_reactor (workers p i)) \<noteq> None" using handle_live [OF ok] by simp
  have total: "total_load e p [0..<num_workers p] 0 = Some (sum_list (map (load e) (handles p)))"
    by (simp add: total_load_eq [OF lv] handles_def comp_def)
  have fd: "find (\<lambda>i. load e (w_reactor (workers p i)) = 0) [0..<num_workers p] = find (\<lambda>i. load e (handles p ! i) = 0) [0..<num_workers p]"
    by (rule find_cong) (simp_all add: handles_nth)
  show ?thesis
    by (auto simp: tune_pool_def total tune_choice_def retire_idle_worker_def retire_scan_eq [OF lv] fd Let_def split: option.splits)
qed

lemma tune_choice_shrink:
  assumes "tune_choice e p = Shrink i"
  shows "i < num_workers p" "load e (handles p ! i) = 0" "min_workers (tp_cfg p) < int (num_workers p)"
  using assms by (auto simp: tune_choice_def Let_def find_Some_iff split: if_splits option.splits)

section \<open>Steps of the server\<close>

text \<open>
  Where the monitor is: in its timed wait; in the loop of \<open>tune_pool\<close>, with the index and the total so
  far; in the loop of \<open>retire_idle_worker\<close>; behind the test that found a worker idle.
\<close>

datatype monitor_pc = Sleeping | Summing nat int | Scanning nat | Retiring nat

record server =
  mach :: machine
  pool :: thread_pool
  worlds :: "nat \<Rightarrow> world"
  monitor :: monitor_pc

text \<open>The count the monitor reads from worker \<open>i\<close>; \<open>None\<close> if the reactor does not exist.\<close>

definition sample :: "server \<Rightarrow> nat \<Rightarrow> int option" where
  "sample s i = map_option reactor_active_connections (live (mach s) (w_reactor (workers (pool s) i)))"

inductive server_step :: "server \<Rightarrow> server \<Rightarrow> bool" where
  Work: "live (mach s) h = Some r \<Longrightarrow> reactor_step (worlds s h, r) (w', r') \<Longrightarrow>
    server_step s (s\<lparr>mach := (mach s)\<lparr>live := (live (mach s))(h \<mapsto> r')\<rparr>, worlds := (worlds s)(h := w')\<rparr>)"
| Wake: "monitor s = Sleeping \<Longrightarrow> server_step s (s\<lparr>monitor := Summing 0 0\<rparr>)"
| Sum: "monitor s = Summing i t \<Longrightarrow> i < num_workers (pool s) \<Longrightarrow> sample s i = Some k \<Longrightarrow>
    server_step s (s\<lparr>monitor := Summing (i + 1) (t + k)\<rparr>)"
| Grow: "monitor s = Summing (num_workers (pool s)) t \<Longrightarrow> load_high (tp_cfg (pool s)) < t \<Longrightarrow>
    spawn_worker (mach s) (pool s) = Some (e', p') \<Longrightarrow>
    server_step s (s\<lparr>mach := e', pool := p', worlds := (\<lambda>h. if live (mach s) h = None then os e' else worlds s h), monitor := Sleeping\<rparr>)"
| Scan: "monitor s = Summing (num_workers (pool s)) t \<Longrightarrow> \<not> load_high (tp_cfg (pool s)) < t \<Longrightarrow> t < load_low (tp_cfg (pool s)) \<Longrightarrow>
    min_workers (tp_cfg (pool s)) < int (num_workers (pool s)) \<Longrightarrow> server_step s (s\<lparr>monitor := Scanning 0\<rparr>)"
| Rest: "monitor s = Summing (num_workers (pool s)) t \<Longrightarrow> \<not> load_high (tp_cfg (pool s)) < t \<Longrightarrow>
    \<not> (t < load_low (tp_cfg (pool s)) \<and> min_workers (tp_cfg (pool s)) < int (num_workers (pool s))) \<Longrightarrow>
    server_step s (s\<lparr>monitor := Sleeping\<rparr>)"
| Busy: "monitor s = Scanning i \<Longrightarrow> i < num_workers (pool s) \<Longrightarrow> sample s i = Some k \<Longrightarrow> k \<noteq> 0 \<Longrightarrow>
    server_step s (s\<lparr>monitor := Scanning (i + 1)\<rparr>)"
| All_Busy: "monitor s = Scanning (num_workers (pool s)) \<Longrightarrow> server_step s (s\<lparr>monitor := Sleeping\<rparr>)"
| Pick: "monitor s = Scanning i \<Longrightarrow> i < num_workers (pool s) \<Longrightarrow> sample s i = Some 0 \<Longrightarrow> server_step s (s\<lparr>monitor := Retiring i\<rparr>)"
| Retire: "monitor s = Retiring i \<Longrightarrow> retire (mach s) (pool s) i = Some (e', p') \<Longrightarrow>
    server_step s (s\<lparr>mach := e', pool := p', monitor := Sleeping\<rparr>)"

definition server_start :: "server \<Rightarrow> bool" where
  "server_start s \<longleftrightarrow> (\<exists>mem pk e cfg. live e = Map.empty \<and> sizes_ok (stats (os e)) \<and> monitor s = Sleeping \<and>
     pool_create mem pk e cfg = Some (mach s, Some (pool s)) \<and>
     (\<forall>h r. live (mach s) h = Some r \<longrightarrow> reactor_start (worlds s h, r)))"

text \<open>What calls on the machine leave: the files, and the reactors that were there.\<close>

lemma reactor_create_stats: "reactor_create su w cfg = (w', res) \<Longrightarrow> stats w' = stats w"
  by (auto simp: reactor_create_def Let_def split: option.splits if_splits)

lemma spawn_worker_reactors:
  assumes "spawn_worker e p = Some (e', p')" "live e (fresh e) = None"
  shows "stats (os e') = stats (os e)"
    "live e' h = Some r \<Longrightarrow> live e h = Some r \<or> live e h = None \<and> (\<exists>su cfg. reactor_create su (os e) cfg = (os e', Some r))"
    "live e h = Some r \<Longrightarrow> live e' h = Some r"
proof -
  let ?su = "case setups e of [] \<Rightarrow> no_setup | su # _ \<Rightarrow> su"
  let ?rc = "\<lparr>rc_port = tp_port p, rc_doc_root = pc_doc_root (tp_cfg p), rc_max_events = 0, rc_backlog = 0, rc_reuse_port = True\<rparr>"
  obtain w res where c: "reactor_create ?su (os e) (Some ?rc) = (w, res)" by fastforce
  have st: "stats w = stats (os e)" using reactor_create_stats [OF c] .
  show "stats (os e') = stats (os e)"
    using assms st by (auto simp: spawn_worker_def create_worker_reactor_def start_thread_def set_worker_def destroy_reactor_def
        reactor_destroy_def c Let_def bind_eq_Some_conv split: if_splits option.splits)
  show "live e h = Some r \<Longrightarrow> live e' h = Some r"
    using assms by (auto simp: spawn_worker_def create_worker_reactor_def start_thread_def set_worker_def destroy_reactor_def
        c Let_def bind_eq_Some_conv split: if_splits option.splits)
  show "live e' h = Some r \<Longrightarrow> live e h = Some r \<or> live e h = None \<and> (\<exists>su cfg. reactor_create su (os e) cfg = (os e', Some r))"
    using assms c by (auto simp: spawn_worker_def create_worker_reactor_def start_thread_def set_worker_def destroy_reactor_def
        Let_def bind_eq_Some_conv split: if_splits option.splits) blast
qed

lemma retire_reactors:
  assumes "pool_ok (e, p)" "i < num_workers p" "retire e p i = Some (e', p')"
  shows "stats (os e') = stats (os e)" "live e' = (live e)(handles p ! i := None)" "pool_ok (e', p')"
proof -
  from retire_ok [OF assms(1,2)] assms(3) show "live e' = (live e)(handles p ! i := None)" by auto
  show "pool_ok (e', p')" using retire_pool_ok [OF assms] .
  show "stats (os e') = stats (os e)"
    using assms(3) by (auto simp: retire_def stop_reactor_def destroy_reactor_def reactor_stop_def reactor_destroy_def bind_eq_Some_conv)
qed

lemma retire_calls:
  assumes "retire e p i = Some (e', p')" "live e (w_reactor (workers p i)) = Some r" "conns r n = Some c" "int n < CONN_MAX"
  shows "\<exists>cs. trace (os e') = trace (os e) @ cs \<and> Epoll_Del n \<in> set cs \<and> Close (int n) \<in> set cs"
proof -
  let ?N = "nat CONN_MAX"
  let ?cs = "Wakeup (wakeup_fd r) # destroy_loop r ?N @ [Close (int (listen_fd r)), Close (int (wakeup_fd r)), Close (epfd r)]"
  have "os e' = reactor_destroy (reactor_stop (os e) r) (Some r)"
    using assms(1,2) by (auto simp: retire_def stop_reactor_def destroy_reactor_def bind_eq_Some_conv)
  then have tr: "trace (os e') = trace (os e) @ ?cs"
    unfolding reactor_destroy_def destroy_loop_def option.case emit_fields by (simp add: reactor_stop_def)
  have "Epoll_Del n \<in> set (destroy_loop r k)" "Close (int n) \<in> set (destroy_loop r k)" if "n < k" for k
    using assms(3) that by (auto simp: destroy_loop_def destroy_conn_def intro!: bexI [of _ n])
  from this [of ?N] assms(4) tr show ?thesis by (intro exI [of _ ?cs]) auto
qed

section \<open>Invariant of the server\<close>

fun pc_ok :: "thread_pool \<Rightarrow> monitor_pc \<Rightarrow> bool" where
  "pc_ok p (Scanning i) \<longleftrightarrow> min_workers (tp_cfg p) < int (num_workers p)"
| "pc_ok p (Retiring i) \<longleftrightarrow> i < num_workers p \<and> min_workers (tp_cfg p) < int (num_workers p)"
| "pc_ok p _ \<longleftrightarrow> True"

definition server_ok :: "server \<Rightarrow> bool" where
  "server_ok s \<longleftrightarrow> pool_ok (mach s, pool s) \<and> sizes_ok (stats (os (mach s))) \<and>
     (\<forall>h r. live (mach s) h = Some r \<longrightarrow> reachable reactor_start reactor_step (worlds s h, r)) \<and>
     pc_ok (pool s) (monitor s)"

lemma spawn_times_reactors:
  assumes "spawn_times n e p = Some (e', p')" "pool_ok (e, p)"
  shows "stats (os e') = stats (os e)"
    "sizes_ok (stats (os e)) \<Longrightarrow> live e' h = Some r \<Longrightarrow> live e h = Some r \<or> (\<exists>w. reactor_start (w, r))"
proof -
  have "stats (os e') = stats (os e) \<and> (sizes_ok (stats (os e)) \<longrightarrow> live e' h = Some r \<longrightarrow> live e h = Some r \<or> (\<exists>w. reactor_start (w, r)))"
    using assms
  proof (induction n arbitrary: e p)
    case (Suc n)
    then obtain e1 p1 where s: "spawn_worker e p = Some (e1, p1)" "spawn_times n e1 p1 = Some (e', p')"
      by (auto simp: bind_eq_Some_conv)
    with spawn_worker_ok [OF Suc.prems(2)] have "pool_ok (e1, p1)" by auto
    note ih = Suc.IH [OF s(2) this] and sp = spawn_worker_reactors [OF s(1) fresh_not_live [OF Suc.prems(2)]]
    have "live e h = Some r \<or> (\<exists>w. reactor_start (w, r))" if "sizes_ok (stats (os e))" "live e1 h = Some r"
      using sp(2) [OF that(2)] that(1) by (auto simp: reactor_start_def)
    with ih sp(1) show ?case by auto
  qed simp
  then show "stats (os e') = stats (os e)"
    "sizes_ok (stats (os e)) \<Longrightarrow> live e' h = Some r \<Longrightarrow> live e h = Some r \<or> (\<exists>w. reactor_start (w, r))" by auto
qed

lemma pool_create_reactors:
  assumes "pool_create mem pk e cfg = Some (e', Some p)" "live e = Map.empty" "sizes_ok (stats (os e))"
  shows "sizes_ok (stats (os e'))" "live e' h = Some r \<Longrightarrow> \<exists>w. reactor_start (w, r)"
proof -
  have "\<not> pool_refused mem pk cfg" using pool_create_ok [OF assms(2), of mem pk cfg] assms(1) by auto
  then obtain k where cfg: "cfg = Some k" "config_ok k" by (auto simp: pool_refused_def split: option.splits)
  obtain w port where wp: "(if 0 < pc_port k then (os e, pc_port k) else pick_ephemeral_port pk (os e)) = (w, port)" by fastforce
  have st: "stats w = stats (os e)" using wp by (auto simp: pick_ephemeral_port_def Let_def split: if_splits option.splits)
  let ?p = "\<lparr>tp_cfg = k, tp_port = port, workers = (\<lambda>_. \<lparr>w_id = 0, w_reactor = 0, w_thread = 0\<rparr>), num_workers = 0, tp_stop = False\<rparr>"
  have ok: "pool_ok (e\<lparr>os := w\<rparr>, ?p)" using cfg(2) assms(2) by (simp add: pool_ok_def config_ok_def ids_ok_def handles_def)
  from assms(1) cfg wp obtain e1 where s: "spawn_times (nat (min_workers k)) (e\<lparr>os := w\<rparr>) ?p = Some (e1, p)" "e' = call Monitor_Create e1"
    by (auto simp: pool_create_def bind_eq_Some_conv Let_def split: if_splits)
  note sp = spawn_times_reactors [OF s(1) ok]
  show "sizes_ok (stats (os e'))" using sp(1) s(2) st assms(3) by simp
  show "live e' h = Some r \<Longrightarrow> \<exists>w. reactor_start (w, r)" using sp(2) [of h r] s(2) st assms(2,3) by simp
qed

text \<open>Every pool that \<open>pool_create\<close> returns is the start of a run.\<close>

lemma server_start_exists:
  assumes "pool_create mem pk e cfg = Some (e', Some p)" "live e = Map.empty" "sizes_ok (stats (os e))"
  obtains ws where "server_start \<lparr>mach = e', pool = p, worlds = ws, monitor = Sleeping\<rparr>"
proof -
  have "\<exists>ws. \<forall>h r. live e' h = Some r \<longrightarrow> reactor_start (ws h, r)"
    using pool_create_reactors(2) [OF assms] by (intro choice allI) (metis option.inject)
  then obtain ws where "\<forall>h r. live e' h = Some r \<longrightarrow> reactor_start (ws h, r)" ..
  with assms show ?thesis by (intro that [of ws]) (simp add: server_start_def del: split_paired_Ex, blast)
qed

interpretation sv: invariant_system server_start server_step server_ok
proof unfold_locales
  fix s assume "server_start s"
  then obtain mem pk e cfg where c: "live e = Map.empty" "sizes_ok (stats (os e))" "pool_create mem pk e cfg = Some (mach s, Some (pool s))"
    "monitor s = Sleeping" "\<forall>h r. live (mach s) h = Some r \<longrightarrow> reactor_start (worlds s h, r)"
    by (auto simp: server_start_def)
  from pool_create_ok [OF c(1), of mem pk cfg] c pool_create_reactors(1) [OF c(3,1,2)] show "server_ok s"
    by (auto simp: server_ok_def intro: reachable.start)
next
  fix s t assume ok: "server_ok s" and "server_step s t"
  from this(2) show "server_ok t"
  proof cases
    case (Work h r w' r')
    then have "reachable reactor_start reactor_step (w', r')" using ok by (auto simp: server_ok_def intro: reachable.step)
    moreover have "dom ((live (mach s))(h \<mapsto> r')) = dom (live (mach s))" using Work(2) by auto
    ultimately show ?thesis using ok Work by (auto simp: server_ok_def pool_ok_def)
  next
    case (Grow t' e' p')
    have p: "pool_ok (mach s, pool s)" using ok by (simp add: server_ok_def)
    note sp = spawn_worker_reactors [OF Grow(4) fresh_not_live [OF p]]
    have "pool_ok (e', p')" using spawn_worker_ok [OF p] Grow(4) by auto
    moreover have new: "reactor_start (os e', r)" if "reactor_create su (os (mach s)) cfg = (os e', Some r)" for su cfg r
      using that ok by (auto simp: reactor_start_def server_ok_def)
    have "reachable reactor_start reactor_step (worlds t h, r)" if "live e' h = Some r" for h r
      using sp(2) [OF that] ok Grow(1) by (auto simp: server_ok_def intro: reachable.start dest: new)
    ultimately show ?thesis using ok sp(1) Grow(1,2) by (simp add: server_ok_def)
  next
    case (Retire i e' p')
    have p: "pool_ok (mach s, pool s)" "i < num_workers (pool s)" using ok Retire(2) by (auto simp: server_ok_def)
    note re = retire_reactors [OF p Retire(3)]
    show ?thesis using ok re Retire(1) by (auto simp: server_ok_def split: if_splits)
  qed (use ok in \<open>auto simp: server_ok_def\<close>)
qed

section \<open>Runs of the parts are runs of the server\<close>

definition advance :: "server \<Rightarrow> nat \<Rightarrow> world \<times> reactor \<Rightarrow> server" where
  "advance s h x = s\<lparr>mach := (mach s)\<lparr>live := (live (mach s))(h \<mapsto> snd x)\<rparr>, worlds := (worlds s)(h := fst x)\<rparr>"

lemma advance_fields [simp]:
  "live (mach (advance s h x)) = (live (mach s))(h \<mapsto> snd x)" "worlds (advance s h x) = (worlds s)(h := fst x)"
  "pool (advance s h x) = pool s" "monitor (advance s h x) = monitor s" "os (mach (advance s h x)) = os (mach s)"
  "advance (advance s h x) h y = advance s h y"
  by (simp_all add: advance_def)

lemma work_steps:
  assumes "reactor_step\<^sup>*\<^sup>* (worlds s h, r) x" "live (mach s) h = Some r"
  shows "server_step\<^sup>*\<^sup>* s (advance s h x)"
  using assms
proof (induction rule: rtranclp_induct)
  case base
  then have "(live (mach s))(h \<mapsto> r) = live (mach s)" by auto
  then show ?case by (simp add: advance_def)
next
  case (step x y)
  have "server_step (advance s h x) (advance (advance s h x) h y)"
    using server_step.Work [of "advance s h x" h "snd x" "fst y" "snd y"] step.hyps(2) by (simp add: advance_def)
  with step show ?case by (simp add: rtranclp.rtrancl_into_rtrancl)
qed

text \<open>A worker thread, from its start to its return.\<close>

lemma worker_fn_steps:
  assumes "server_ok s" "live (mach s) h = Some r" "worker_fn xs (worlds s h) r = Some (w', r')"
    and "waits_expected xs (snd (malloc (worlds s h))) r"
  shows "server_step\<^sup>*\<^sup>* s (advance s h (w', r'))"
proof -
  have ok: "reactor_ok (worlds s h, r)" using assms(1,2) rt.reachable_inv by (auto simp: server_ok_def)
  obtain b w1 where m: "malloc (worlds s h) = (b, w1)" by fastforce
  have one: "reactor_step (worlds s h, r) (w1, r)" using malloc_step [OF ok] m by simp
  have "reactor_step\<^sup>*\<^sup>* (w1, r) (w', r')"
    using assms(3,4) m by (auto simp: worker_fn_def reactor_run_def intro: run_loop_steps split: if_splits)
  with one have "reactor_step\<^sup>*\<^sup>* (worlds s h, r) (w', r')" by (rule converse_rtranclp_into_rtranclp)
  then show ?thesis using work_steps assms(2) by blast
qed

text \<open>The loops of the monitor, when nothing runs between their steps.\<close>

lemma sample_load:
  assumes "pool_ok (mach s, pool s)" "i < num_workers (pool s)"
  shows "sample s i = Some (load (mach s) (handles (pool s) ! i))"
  using handle_live [OF assms] assms(2) by (auto simp: sample_def load_def handles_nth split: option.splits)

lemma at_monitor [simp]: "sample (s\<lparr>monitor := m\<rparr>) i = sample s i"
  by (simp add: sample_def)

lemma sum_steps:
  assumes "pool_ok (mach s, pool s)" "k \<le> num_workers (pool s)"
  shows "server_step\<^sup>*\<^sup>* (s\<lparr>monitor := Summing 0 0\<rparr>) (s\<lparr>monitor := Summing k (sum_list (map (load (mach s)) (take k (handles (pool s)))))\<rparr>)"
  using assms(2)
proof (induction k)
  case (Suc k)
  let ?t = "\<lambda>k. sum_list (map (load (mach s)) (take k (handles (pool s))))"
  have "server_step (s\<lparr>monitor := Summing k (?t k)\<rparr>) (s\<lparr>monitor := Summing (Suc k) (?t (Suc k))\<rparr>)"
    using server_step.Sum [of "s\<lparr>monitor := Summing k (?t k)\<rparr>" k "?t k"] sample_load [OF assms(1), of k] Suc.prems
    by (simp add: take_Suc_conv_app_nth)
  with Suc show ?case by (simp add: rtranclp.rtrancl_into_rtrancl)
qed simp

lemma scan_steps:
  assumes "pool_ok (mach s, pool s)" "k \<le> num_workers (pool s)" "\<forall>i < k. load (mach s) (handles (pool s) ! i) \<noteq> 0"
  shows "server_step\<^sup>*\<^sup>* (s\<lparr>monitor := Scanning 0\<rparr>) (s\<lparr>monitor := Scanning k\<rparr>)"
  using assms(2,3)
proof (induction k)
  case (Suc k)
  have "server_step (s\<lparr>monitor := Scanning k\<rparr>) (s\<lparr>monitor := Scanning (Suc k)\<rparr>)"
    using server_step.Busy [of "s\<lparr>monitor := Scanning k\<rparr>" k] sample_load [OF assms(1), of k] Suc.prems by simp
  with Suc show ?case by (simp add: rtranclp.rtrancl_into_rtrancl)
qed simp

lemma summed_steps:
  assumes "server_ok s" "monitor s = Sleeping"
  shows "server_step\<^sup>*\<^sup>* s (s\<lparr>monitor := Summing (num_workers (pool s)) (sum_list (map (load (mach s)) (handles (pool s))))\<rparr>)"
proof -
  have "pool_ok (mach s, pool s)" using assms(1) by (simp add: server_ok_def)
  from sum_steps [OF this order.refl] server_step.Wake [OF assms(2)] show ?thesis by (simp add: converse_rtranclp_into_rtranclp)
qed

text \<open>A worker is found idle.\<close>

lemma pick_steps:
  assumes "server_ok s" "monitor s = Sleeping" "tune_choice (mach s) (pool s) = Shrink i"
  shows "server_step\<^sup>*\<^sup>* s (s\<lparr>monitor := Retiring i\<rparr>)"
proof -
  let ?n = "num_workers (pool s)" and ?t = "sum_list (map (load (mach s)) (handles (pool s)))"
  have p: "pool_ok (mach s, pool s)" using assms(1) by (simp add: server_ok_def)
  note sh = tune_choice_shrink [OF assms(3)]
  have t: "\<not> load_high (tp_cfg (pool s)) < ?t" "?t < load_low (tp_cfg (pool s))" and first: "\<forall>j < i. load (mach s) (handles (pool s) ! j) \<noteq> 0"
    using assms(3) by (auto simp: tune_choice_def Let_def find_Some_iff split: if_splits option.splits)
  have "server_step (s\<lparr>monitor := Summing ?n ?t\<rparr>) (s\<lparr>monitor := Scanning 0\<rparr>)"
    using server_step.Scan [of "s\<lparr>monitor := Summing ?n ?t\<rparr>" ?t] t sh(3) by simp
  moreover have "server_step\<^sup>*\<^sup>* (s\<lparr>monitor := Scanning 0\<rparr>) (s\<lparr>monitor := Scanning i\<rparr>)" using scan_steps [OF p _ first] sh(1) by simp
  moreover have "server_step (s\<lparr>monitor := Scanning i\<rparr>) (s\<lparr>monitor := Retiring i\<rparr>)"
    using server_step.Pick [of "s\<lparr>monitor := Scanning i\<rparr>" i] sample_load [OF p sh(1)] sh(1,2) by simp
  ultimately show ?thesis using summed_steps [OF assms(1,2)] by (meson r_into_rtranclp rtranclp_trans)
qed

text \<open>A whole tuning, when nothing runs between its parts.\<close>

lemma tune_steps:
  assumes ok: "server_ok s" "monitor s = Sleeping" and run: "tune_pool (mach s) (pool s) = Some (e', p')"
  shows "\<exists>t. server_step\<^sup>*\<^sup>* s t \<and> mach t = e' \<and> pool t = p' \<and> monitor t = Sleeping"
proof -
  let ?n = "num_workers (pool s)" and ?t = "sum_list (map (load (mach s)) (handles (pool s)))"
  let ?s = "s\<lparr>monitor := Summing ?n ?t\<rparr>"
  have p: "pool_ok (mach s, pool s)" using ok by (simp add: server_ok_def)
  note run = run [unfolded tune_pool_choice [OF p]] and summed = summed_steps [OF ok]
  show ?thesis
  proof (cases "tune_choice (mach s) (pool s)")
    case Grow_Pool
    with run have "spawn_worker (mach s) (pool s) = Some (e', p')" "load_high (tp_cfg (pool s)) < ?t"
      by (auto simp: tune_choice_def Let_def split: if_splits option.splits)
    with server_step.Grow [of ?s ?t e' p'] have
      "server_step ?s (?s\<lparr>mach := e', pool := p', worlds := (\<lambda>h. if live (mach ?s) h = None then os e' else worlds ?s h), monitor := Sleeping\<rparr>)" by simp
    with summed show ?thesis by (intro exI conjI) (erule rtranclp.rtrancl_into_rtrancl, assumption, simp_all)
  next
    case (Shrink i)
    let ?u = "s\<lparr>monitor := Retiring i\<rparr>"
    have "server_step ?u (?u\<lparr>mach := e', pool := p', monitor := Sleeping\<rparr>)"
      using Shrink run by (intro server_step.Retire [of ?u i]) simp_all
    with pick_steps [OF ok Shrink] show ?thesis by (intro exI conjI) (erule rtranclp.rtrancl_into_rtrancl, assumption, simp_all)
  next
    case Leave
    then have low: "\<not> load_high (tp_cfg (pool s)) < ?t"
      and none: "?t < load_low (tp_cfg (pool s)) \<and> min_workers (tp_cfg (pool s)) < int ?n \<longrightarrow> (\<forall>i < ?n. load (mach s) (handles (pool s) ! i) \<noteq> 0)"
      by (auto simp: tune_choice_def Let_def find_None_iff split: if_splits option.splits)
    have idle: "s\<lparr>monitor := Sleeping\<rparr> = s" using ok(2) by simp
    have "server_step\<^sup>*\<^sup>* ?s s"
    proof (cases "?t < load_low (tp_cfg (pool s)) \<and> min_workers (tp_cfg (pool s)) < int ?n")
      case True
      with low have "server_step ?s (s\<lparr>monitor := Scanning 0\<rparr>)" using server_step.Scan [of ?s ?t] by simp
      moreover have "server_step\<^sup>*\<^sup>* (s\<lparr>monitor := Scanning 0\<rparr>) (s\<lparr>monitor := Scanning ?n\<rparr>)" using scan_steps [OF p order.refl] none True by simp
      moreover have "server_step (s\<lparr>monitor := Scanning ?n\<rparr>) s" using server_step.All_Busy [of "s\<lparr>monitor := Scanning ?n\<rparr>"] idle by simp
      ultimately show ?thesis by (meson r_into_rtranclp rtranclp_trans)
    next
      case False
      then show ?thesis using server_step.Rest [of ?s ?t] low idle by auto
    qed
    with summed run Leave ok(2) show ?thesis by (intro exI [of _ s]) auto
  qed
qed

text \<open>Seen from the pool alone, every step of the server is a step of the pool, or none.\<close>

lemma server_step_pool:
  assumes ok: "server_ok s" and step: "server_step s t"
  shows "pool_step\<^sup>*\<^sup>* (mach s, pool s) (mach t, pool t)"
  using step
proof cases
  case (Work h r w' r')
  then have "pool_step (mach s, pool s) (mach t, pool t)" by (auto intro!: pool_step.Threads split: if_splits)
  then show ?thesis ..
next
  case (Grow t' e' p')
  then have "pool_step (mach s, pool s) (mach t, pool t)" by (auto intro!: pool_step.Late_Spawn)
  then show ?thesis ..
next
  case (Retire i e' p')
  with ok have "pool_step (mach s, pool s) (mach t, pool t)" by (auto simp: server_ok_def intro!: pool_step.Late_Retire)
  then show ?thesis ..
qed simp_all

lemma server_reachable_pool: "reachable server_start server_step s \<Longrightarrow> reachable pool_start pool_step (mach s, pool s)"
proof (induction rule: reachable.induct)
  case (start s)
  then have "pool_start (mach s, pool s)" by (auto simp: server_start_def pool_start_def simp del: split_paired_Ex)
  then show ?case by (rule reachable.start)
next
  case (step s t)
  from server_step_pool [OF sv.reachable_inv [OF step.hyps(1)] step.hyps(2)] step.IH show ?case by (rule reachable_steps)
qed

section \<open>Properties\<close>

lemma worker_load:
  assumes "server_ok s" "live (mach s) h = Some r"
  shows "load (mach s) h = int (card (dom (conns r)))" "finite (dom (conns r))"
proof -
  have "reactor_ok (worlds s h, r)" using assms rt.reachable_inv by (auto simp: server_ok_def)
  then show "load (mach s) h = int (card (dom (conns r)))" "finite (dom (conns r))"
    using assms(2) by (simp_all add: load_def reactor_ok_def reactor_active_connections_def)
qed

lemma tune_drops_none:
  assumes ok: "server_ok s" and tune: "tune_pool (mach s) (pool s) = Some (e', p')"
    and gone: "live (mach s) h = Some r" "live e' h = None"
  shows "conns r = Map.empty"
proof -
  from ok have p: "pool_ok (mach s, pool s)" by (simp add: server_ok_def)
  note run = tune [unfolded tune_pool_choice [OF p]]
  have "load (mach s) h = 0"
  proof (cases "tune_choice (mach s) (pool s)")
    case Grow_Pool
    with run have "spawn_worker (mach s) (pool s) = Some (e', p')" by simp
    from spawn_worker_reactors(3) [OF this fresh_not_live [OF p] gone(1)] gone(2) show ?thesis by simp
  next
    case (Shrink i)
    note sh = tune_choice_shrink [OF Shrink]
    have "live e' = (live (mach s))(handles (pool s) ! i := None)" using retire_reactors(2) [OF p sh(1)] run Shrink by simp
    then show ?thesis using gone sh(2) by (auto split: if_splits)
  next
    case Leave
    with run gone show ?thesis by simp
  qed
  then show ?thesis using worker_load [OF ok gone(1)] by auto
qed


text \<open>A client can connect to a reactor at any time, and hang up.\<close>

lemma accept_one:
  assumes "reactor_ok (w, r)" "conns r n = None" "int n < CONN_MAX"
  shows "\<exists>w'. reactor_step\<^sup>*\<^sup>* (w, r) (w', r\<lparr>conns := (conns r)(n \<mapsto> new_conn n), active_conns := active_conns r + 1\<rparr>)"
proof -
  let ?w = "w\<lparr>accepts := [int n, -1], allocs := []\<rparr>" and ?r = "r\<lparr>conns := (conns r)(n \<mapsto> new_conn n), active_conns := active_conns r + 1\<rparr>"
  have "reactor_step (w, r) (?w, r)" using assms(1) by (intro reactor_step.Environment) (simp_all add: reactor_ok_def)
  moreover have "reactor_accept ?w r = (fst (reactor_accept ?w r), ?r)"
    using assms(3) by (simp add: reactor_accept_def set_nonblocking_def malloc_eq Let_def)
  then have "reactor_step (?w, r) (fst (reactor_accept ?w r), ?r)"
    using assms(2) by (intro reactor_step.Accept) (simp_all add: fresh_fds_def)
  ultimately show ?thesis by (meson r_into_rtranclp rtranclp_trans)
qed

lemma hang_up:
  assumes "conns r n = Some c" "fd c = n"
  shows "\<exists>w'. reactor_step (w, r) (w', r\<lparr>conns := (conns r)(n := None), active_conns := active_conns r - 1\<rparr>)"
proof -
  have "handle_event w r (n, [EPOLLHUP]) = Some (fst (conn_close w r c), r\<lparr>conns := (conns r)(n := None), active_conns := active_conns r - 1\<rparr>)"
    using assms by (simp add: handle_event_def conn_close_def)
  then show ?thesis by (intro exI) (rule reactor_step.Event [of _ "(n, [EPOLLHUP])"], simp_all add: expected_def)
qed

definition other_setup :: create_env where
  "other_setup = good_setup\<lparr>su_epoll := 13, su_eventfd := 14, su_socket := 16\<rparr>"

definition eager_pool :: pool_config where
  "eager_pool = \<lparr>pc_port = 8080, pc_doc_root = None, min_workers = 1, max_workers = 2, load_high = 0, load_low = 1, tune_interval_ms = 200\<rparr>"

text \<open>A client connects, the pool grows, the client leaves: now a worker is to be retired.\<close>

lemma shrink_reached:
  obtains s where "reachable server_start server_step s" "monitor s = Sleeping" "tune_choice (mach s) (pool s) = Shrink 0"
proof -
  let ?e0 = "idle_machine [good_setup, other_setup]"
  obtain e p where c: "pool_create (True, True) undefined ?e0 (Some eager_pool) = Some (e, Some p)"
    "handles p = [0]" "num_workers p = 1" "tp_cfg p = eager_pool" "fresh e = 1" "setups e = [other_setup]" "thread_results e = []"
    "dom (live e) = {0}" "conns (the (live e 0)) = Map.empty" "active_conns (the (live e 0)) = 0"
    by (simp add: pool_create_def eager_pool_def idle_machine_def good_setup_def Let_def spawn_worker_def create_worker_reactor_def
        reactor_create_def start_thread_def set_worker_def handles_def)
  have "live ?e0 = Map.empty" "sizes_ok (stats (os ?e0))" by (simp_all add: idle_machine_def one_file_def sizes_ok_def)
  from server_start_exists [OF c(1) this] obtain ws where start: "server_start \<lparr>mach = e, pool = p, worlds = ws, monitor = Sleeping\<rparr>" .
  let ?s0 = "\<lparr>mach = e, pool = p, worlds = ws, monitor = Sleeping\<rparr>"
  from c(8) have "live e 0 \<noteq> None" by auto
  then obtain r where r: "live e 0 = Some r" "conns r = Map.empty" "active_conns r = 0" using c(9,10) by auto
  have "reactor_ok (ws 0, r)" using sv.inv_init [OF start] r(1) rt.reachable_inv by (auto simp: server_ok_def)
  from accept_one [OF this, of 7] r obtain w1 where
    "reactor_step\<^sup>*\<^sup>* (worlds ?s0 0, r) (w1, r\<lparr>conns := [7 \<mapsto> new_conn 7], active_conns := 1\<rparr>)" by auto
  let ?r1 = "r\<lparr>conns := [7 \<mapsto> new_conn 7], active_conns := 1\<rparr>"
  let ?s1 = "advance ?s0 0 (w1, ?r1)"
  have s1: "server_step\<^sup>*\<^sup>* ?s0 ?s1" using work_steps \<open>reactor_step\<^sup>*\<^sup>* (worlds ?s0 0, r) (w1, ?r1)\<close> r(1) by simp
  have grow: "tune_choice (mach ?s1) (pool ?s1) = Grow_Pool"
    using c(2,4) by (simp add: tune_choice_def load_def reactor_active_connections_def eager_pool_def)
  have "\<exists>e2 p2 r2. spawn_worker (mach ?s1) (pool ?s1) = Some (e2, p2) \<and> live e2 0 = Some ?r1 \<and> live e2 1 = Some r2 \<and> active_conns r2 = 0 \<and>
      handles p2 = [0, 1] \<and> num_workers p2 = 2 \<and> tp_cfg p2 = eager_pool"
    using c by (simp add: spawn_worker_def create_worker_reactor_def reactor_create_def start_thread_def set_worker_def handles_def
        other_setup_def good_setup_def eager_pool_def advance_def Let_def)
  then obtain e2 p2 r2 where sp: "spawn_worker (mach ?s1) (pool ?s1) = Some (e2, p2)" "live e2 0 = Some ?r1" "live e2 1 = Some r2"
    "active_conns r2 = 0" "handles p2 = [0, 1]" "num_workers p2 = 2" "tp_cfg p2 = eager_pool" by blast
  have "tune_pool (mach ?s1) (pool ?s1) = Some (e2, p2)"
  proof -
    have "server_ok ?s1" using sv.steps_inv [OF s1 sv.inv_init [OF start]] .
    then show ?thesis using tune_pool_choice [of "mach ?s1" "pool ?s1"] grow sp(1) by (simp add: server_ok_def)
  qed
  from tune_steps [OF sv.steps_inv [OF s1 sv.inv_init [OF start]] _ this] obtain s2 where
    s2: "server_step\<^sup>*\<^sup>* ?s1 s2" "mach s2 = e2" "pool s2 = p2" "monitor s2 = Sleeping" by auto
  from hang_up [of ?r1 7 "new_conn 7" "worlds s2 0"] obtain w3 where
    "reactor_step (worlds s2 0, ?r1) (w3, ?r1\<lparr>conns := (conns ?r1)(7 := None), active_conns := 0\<rparr>)" by (auto simp: new_conn_def)
  let ?s3 = "advance s2 0 (w3, ?r1\<lparr>conns := (conns ?r1)(7 := None), active_conns := 0\<rparr>)"
  have s3: "server_step s2 ?s3"
    using server_step.Work [of s2 0 ?r1, OF _ \<open>reactor_step (worlds s2 0, ?r1) _\<close>] sp(2) s2(2) by (simp add: advance_def)
  show ?thesis
  proof (rule that)
    show "reachable server_start server_step ?s3"
      using start s1 s2(1) s3 by (meson reachable.start reachable.step reachable_steps)
    show "monitor ?s3 = Sleeping" using s2(4) by simp
    show "tune_choice (mach ?s3) (pool ?s3) = Shrink 0"
      using sp s2(2,3) by (simp add: tune_choice_def load_def reactor_active_connections_def eager_pool_def upt_rec)
  qed
qed


text \<open>C36. Retiring a worker can drop a connection. Whenever the monitor has chosen an idle worker, that
  worker may still accept a client before it is told to stop; the monitor does not look again, and
  destroying the reactor closes the client's socket although it was open and unanswered.\<close>

theorem retire_race:
  assumes "reachable server_start server_step s" "monitor s = Sleeping" "tune_choice (mach s) (pool s) = Shrink i" "int n < CONN_MAX"
  shows "\<exists>s1 s2 r cs. server_step\<^sup>*\<^sup>* s s1 \<and> live (mach s1) (handles (pool s) ! i) = Some r \<and> conns r n = Some (new_conn n) \<and>
    server_step s1 s2 \<and> live (mach s2) (handles (pool s) ! i) = None \<and>
    trace (os (mach s2)) = trace (os (mach s1)) @ cs \<and> Epoll_Del n \<in> set cs \<and> Close (int n) \<in> set cs"
proof -
  let ?h = "handles (pool s) ! i" and ?s = "s\<lparr>monitor := Retiring i\<rparr>"
  have ok: "server_ok s" using sv.reachable_inv [OF assms(1)] .
  then have p: "pool_ok (mach s, pool s)" by (simp add: server_ok_def)
  note sh = tune_choice_shrink [OF assms(3)]
  obtain r where r: "live (mach s) ?h = Some r" using handle_live [OF p sh(1)] sh(1) by (auto simp: handles_nth)
  have rok: "reactor_ok (worlds s ?h, r)" using ok r rt.reachable_inv by (auto simp: server_ok_def)
  have new: "conns r n = None" using worker_load [OF ok r] sh(2) by auto
  let ?r = "r\<lparr>conns := (conns r)(n \<mapsto> new_conn n), active_conns := active_conns r + 1\<rparr>"
  from accept_one [OF rok new assms(4)] obtain w' where "reactor_step\<^sup>*\<^sup>* (worlds ?s ?h, r) (w', ?r)" by auto
  from work_steps [OF this] r have steps: "server_step\<^sup>*\<^sup>* ?s (advance ?s ?h (w', ?r))" by simp
  let ?t = "advance ?s ?h (w', ?r)"
  have st: "server_step\<^sup>*\<^sup>* s ?t" using pick_steps [OF ok assms(2,3)] steps by (rule rtranclp_trans)
  have tok: "server_ok ?t" using sv.steps_inv [OF st ok] .
  then have tp: "pool_ok (mach ?t, pool s)" by (simp add: server_ok_def)
  from retire_ok [OF tp sh(1)] obtain e' p' where re: "retire (mach ?t) (pool s) i = Some (e', p')" "live e' = (live (mach ?t))(?h := None)" by blast
  have "server_step ?t (?t\<lparr>mach := e', pool := p', monitor := Sleeping\<rparr>)" using re(1) by (intro server_step.Retire) simp_all
  moreover have "\<exists>cs. trace (os e') = trace (os (mach ?t)) @ cs \<and> Epoll_Del n \<in> set cs \<and> Close (int n) \<in> set cs"
    using retire_calls [OF re(1) _ _ assms(4), of ?r "new_conn n"] sh(1) by (simp add: handles_nth)
  then obtain cs where "trace (os e') = trace (os (mach ?t)) @ cs" "Epoll_Del n \<in> set cs" "Close (int n) \<in> set cs" by blast
  ultimately show ?thesis
    using st re(2) by (intro exI [of _ ?t] exI [of _ "?t\<lparr>mach := e', pool := p', monitor := Sleeping\<rparr>"] exI [of _ ?r] exI [of _ cs]) simp
qed

theorem retire_race_witness:
  "\<exists>s s1 s2 r h. reachable server_start server_step s \<and> tune_choice (mach s) (pool s) = Shrink 0 \<and> server_step\<^sup>*\<^sup>* s s1 \<and>
     live (mach s1) h = Some r \<and> conns r 9 = Some (new_conn 9) \<and> server_step s1 s2 \<and> live (mach s2) h = None"
proof -
  obtain s where s: "reachable server_start server_step s" "monitor s = Sleeping" "tune_choice (mach s) (pool s) = Shrink 0"
    using shrink_reached .
  from retire_race [OF s, of 9] s show ?thesis by fastforce
qed

end
