(* ===== verification/Config.thy ===== *)
theory Config
  imports Httpd_Prelude
begin

text \<open>
  The configuration file and the log: \<^verbatim>\<open>src/src/config.c\<close> and \<^verbatim>\<open>src/src/logger.c\<close>. A file is the
  string of its bytes, read with \<open>fgets\<close> into a buffer of 256 bytes; what the functions print is
  a list of outputs. The parts of the C library they rest on (\<open>fgets\<close>, \<open>strtok\<close>, \<open>strtol\<close>) are
  written out here.
\<close>

section \<open>Library functions\<close>

abbreviation NL :: char where "NL \<equiv> CHR 0x0A"
abbreviation EQ :: char where "EQ \<equiv> CHR ''=''"

fun fgets_take :: "nat \<Rightarrow> string \<Rightarrow> string \<times> string" where
  "fgets_take 0 s = ([], s)"
| "fgets_take (Suc n) [] = ([], [])"
| "fgets_take (Suc n) (c # cs) = (if c = NL then ([c], cs) else let (a, b) = fgets_take n cs in (c # a, b))"

definition fgets :: "nat \<Rightarrow> string \<Rightarrow> (string \<times> string) option" where
  "fgets n s = (if s = [] then None else Some (fgets_take (n - 1) s))"

definition strtok :: "string \<Rightarrow> char \<Rightarrow> (string \<times> string) option" where
  "strtok s d =
     (let s = dropWhile (\<lambda>c. c = d) s in
      if s = [] then None else Some (takeWhile (\<lambda>c. c \<noteq> d) s, drop 1 (dropWhile (\<lambda>c. c \<noteq> d) s)))"

definition isspace :: "char \<Rightarrow> bool" where
  "isspace c \<longleftrightarrow> c = CHR '' '' \<or> 9 \<le> (of_char c :: nat) \<and> (of_char c :: nat) \<le> 13"

definition isdigit :: "char \<Rightarrow> bool" where
  "isdigit c \<longleftrightarrow> 48 \<le> (of_char c :: nat) \<and> (of_char c :: nat) \<le> 57"

fun dec_val :: "nat \<Rightarrow> string \<Rightarrow> nat" where
  "dec_val acc [] = acc"
| "dec_val acc (c # cs) = (if isdigit c then dec_val (acc * 10 + (of_char c - 48)) cs else acc)"

text \<open>\<open>strtol\<close> in base 10 saturates at the bounds of \<open>long\<close>.\<close>

definition strtol :: "string \<Rightarrow> int" where
  "strtol s0 =
     (let s = dropWhile isspace s0 in
      case s of
        [] \<Rightarrow> 0
      | c # cs \<Rightarrow>
          if c = CHR ''-'' then max (- (2 ^ 63)) (- int (dec_val 0 cs))
          else min (2 ^ 63 - 1) (int (dec_val 0 (if c = CHR ''+'' then cs else s))))"

text \<open>\<open>atoi\<close> converts the \<open>long\<close> to an \<open>int\<close>, keeping the low 32 bits.\<close>

definition atoi :: "string \<Rightarrow> int" where
  "atoi s = (strtol s + 2 ^ 31) mod 2 ^ 32 - 2 ^ 31"

text \<open>\<open>strncmp(a, b, n) == 0\<close> on strings without NUL.\<close>

definition strneq :: "nat \<Rightarrow> string \<Rightarrow> string \<Rightarrow> bool" where
  "strneq n a b \<longleftrightarrow> take n (a @ [NUL]) = take n (b @ [NUL])"

section \<open>Configuration\<close>

abbreviation CONFIG_LINE_SIZE :: nat where "CONFIG_LINE_SIZE \<equiv> 256"
abbreviation DEFAULT_PORT :: int where "DEFAULT_PORT \<equiv> 8080"
abbreviation DEFAULT_THREADS :: int where "DEFAULT_THREADS \<equiv> 4"

record server_config =
  server_root :: string
  port :: int
  num_threads :: int
  log_file :: string
  timeout_secs :: int

datatype printed = Stdout string | Stderr string

definition is_blank :: "char \<Rightarrow> bool" where
  "is_blank c \<longleftrightarrow> c = CHR '' '' \<or> c = CHR 0x09 \<or> c = CHR 0x0D \<or> c = NL"

text \<open>The second loop of \<open>trim_whitespace\<close>, on the reversed string: it stops at the first byte.\<close>

fun drop_tail :: "string \<Rightarrow> string" where
  "drop_tail (x # y # xs) = (if is_blank x then drop_tail (y # xs) else x # y # xs)"
| "drop_tail xs = xs"

definition trim_whitespace :: "string \<Rightarrow> string" where
  "trim_whitespace s =
     (let s = dropWhile is_blank s in if s = [] then s else rev (drop_tail (rev s)))"

definition config_defaults :: server_config where
  "config_defaults = \<lparr>server_root = ''./www'', port = DEFAULT_PORT, num_threads = DEFAULT_THREADS,
     log_file = ''./logs/server.log'', timeout_secs = 30\<rparr>"

text \<open>Key and value of a line, \<open>None\<close> when the line is skipped.\<close>

definition config_split :: "string \<Rightarrow> (string \<times> string) option" where
  "config_split line0 =
     (let line1 = cstr line0;
          line = (if line1 \<noteq> [] \<and> last line1 = NL then butlast line1 else line1);
          trimmed = trim_whitespace line in
      if trimmed = [] \<or> hd trimmed = CHR ''#'' then None
      else (case strtok trimmed EQ of
          None \<Rightarrow> None
        | Some (key, rest) \<Rightarrow>
            (case strtok rest EQ of
               None \<Rightarrow> None
             | Some (val, _) \<Rightarrow> Some (trim_whitespace key, trim_whitespace val))))"

definition config_apply :: "nat \<Rightarrow> string \<Rightarrow> string \<Rightarrow> server_config \<times> printed list \<Rightarrow> server_config \<times> printed list" where
  "config_apply line_num key val s =
     (let (cfg, out) = s in
      if strneq 5 key ''port'' then
        (let p = atoi val in
         if p < 1 \<or> 65535 < p then
           (cfg\<lparr>port := DEFAULT_PORT\<rparr>,
            out @ [Stderr (''Invalid port '' @ val @ '' has been used use the values between 1 and 65535 please''),
                   Stdout (''Falling back to the default port '' @ show_int DEFAULT_PORT)])
         else (cfg\<lparr>port := p\<rparr>, out))
      else if strneq 12 key ''server_root'' then (cfg\<lparr>server_root := take 511 val\<rparr>, out)
      else if strneq 12 key ''num_threads'' then
        (let n = atoi val in
         if n < 1 \<or> 128 < n then
           (cfg\<lparr>num_threads := DEFAULT_THREADS\<rparr>,
            out @ [Stderr (''Invalid num_threads '' @ val @ '' has been used''),
                   Stdout (''Setting default value of '' @ show_int DEFAULT_THREADS)])
         else (cfg\<lparr>num_threads := n\<rparr>, out))
      else if strneq 9 key ''log_file'' then (cfg\<lparr>log_file := take 511 val\<rparr>, out)
      else if strneq 13 key ''timeout_secs'' then
        (let t = atoi val in
         if t < 1 then
           (cfg\<lparr>timeout_secs := 30\<rparr>,
            out @ [Stderr (''Invalid timeout_secs '' @ val @ '' at line '' @ show_int (int line_num) @
              '' so will be using default value of '' @ [CHR 0x27] @ ''30'' @ [CHR 0x27] @ [NL])])
         else (cfg\<lparr>timeout_secs := t\<rparr>, out))
      else (cfg, out @ [Stderr (''unknown config key '' @ key @ '' at line '' @ show_int (int line_num) @
              '', so we are ignoring it'' @ [NL])]))"

lemma fgets_take_shorter: "0 < n \<Longrightarrow> s \<noteq> [] \<Longrightarrow> length (snd (fgets_take n s)) < length s"
proof (induction n s rule: fgets_take.induct)
  case (3 n c cs)
  then show ?case by (cases n; cases cs) (auto split: prod.splits)
qed simp_all

function config_lines :: "nat \<Rightarrow> string \<Rightarrow> server_config \<times> printed list \<Rightarrow> server_config \<times> printed list" where
  "config_lines line_num bytes s =
     (case fgets CONFIG_LINE_SIZE bytes of
        None \<Rightarrow> s
      | Some (line, rest) \<Rightarrow>
          config_lines (line_num + 1) rest
            (case config_split line of None \<Rightarrow> s | Some (key, val) \<Rightarrow> config_apply (line_num + 1) key val s))"
  by pat_completeness auto
termination
proof (relation "measure (\<lambda>(n, bytes, s). length bytes)", goal_cases)
  case (2 n bytes s x line rest)
  then show ?case using fgets_take_shorter [of 255 bytes] by (auto simp: fgets_def split: if_splits)
qed simp

declare config_lines.simps [simp del]

text \<open>\<open>content\<close> is \<open>None\<close> when the file cannot be opened.\<close>

definition config_load :: "string \<Rightarrow> string option \<Rightarrow> server_config \<times> printed list" where
  "config_load filename content =
     (case content of
        None \<Rightarrow> (config_defaults, [Stderr (''could not open the config file '' @ [CHR 0x27] @ filename @ [CHR 0x27] @
          '' using the default values'' @ [NL])])
      | Some bytes \<Rightarrow> config_lines 0 bytes (config_defaults, []))"

definition config_print :: "server_config \<Rightarrow> printed list" where
  "config_print cfg =
     [Stdout ''Server configuration is as follows : '',
      Stdout (''Port number is : '' @ show_int (port cfg) @ [NL]),
      Stdout (''server root is : '' @ server_root cfg),
      Stdout (''Threads number is : '' @ show_int (num_threads cfg) @ [NL]),
      Stdout (''log file : '' @ log_file cfg @ [NL]),
      Stdout (''timeout period is : '' @ show_int (timeout_secs cfg) @ '' seconds''),
      Stdout (''Done this is all we have'' @ [NL])]"

section \<open>Logging\<close>

text \<open>
  \<open>None\<close> in the handle is \<open>g_log_file == NULL\<close>. The time stamp is the text \<open>strftime\<close> made, the
  message the text the format gives. Printing to a NULL stream is a fault, and a log file that cannot
  be opened ends the program.
\<close>

datatype failure = Fault | Exit int

record logger =
  g_log_file :: "string option"
  log_text :: string

definition log_put :: "string \<Rightarrow> logger \<Rightarrow> failure + logger" where
  "log_put s lg = (case g_log_file lg of None \<Rightarrow> Inl Fault | Some _ \<Rightarrow> Inr (lg\<lparr>log_text := log_text lg @ s\<rparr>))"

definition log_msg :: "string \<Rightarrow> string \<Rightarrow> string \<Rightarrow> logger \<Rightarrow> failure + logger" where
  "log_msg time level msg lg = log_put (''['' @ time @ ''] ['' @ level @ '']'' @ msg @ [NL]) lg"

definition log_init :: "string \<Rightarrow> string \<Rightarrow> bool \<Rightarrow> logger \<Rightarrow> failure + logger" where
  "log_init time filename opens_ok lg =
     (if \<not> opens_ok then Inl (Exit 1)
      else log_msg time ''INFO'' ''Server is Starting...'' (lg\<lparr>g_log_file := Some filename\<rparr>))"

definition log_close :: "string \<Rightarrow> logger \<Rightarrow> failure + logger" where
  "log_close time lg =
     (case g_log_file lg of
        None \<Rightarrow> Inr lg
      | Some _ \<Rightarrow>
          (case log_msg time ''INFO'' ''Server is shutting down'' lg of
             Inl x \<Rightarrow> Inl x
           | Inr lg \<Rightarrow> Inr (lg\<lparr>g_log_file := None\<rparr>)))"

definition log_request :: "string \<Rightarrow> string \<Rightarrow> string \<Rightarrow> string \<Rightarrow> int \<Rightarrow> nat \<Rightarrow> logger \<Rightarrow> failure + logger" where
  "log_request time client_ip method path status_code bytes_sent lg =
     log_put (''['' @ time @ ''] '' @ show_int status_code @ '' '' @ method @ '' '' @ path @ '' '' @ show_nat bytes_sent @
       '' bytes from '' @ client_ip @ [NL]) lg"

section \<open>Bounds of the settings\<close>

definition settings_ok :: "server_config \<Rightarrow> bool" where
  "settings_ok cfg \<longleftrightarrow> 1 \<le> port cfg \<and> port cfg \<le> 65535 \<and> 1 \<le> num_threads cfg \<and> num_threads cfg \<le> 128 \<and>
     1 \<le> timeout_secs cfg \<and> timeout_secs cfg < 2 ^ 31 \<and> length (server_root cfg) \<le> 511 \<and> length (log_file cfg) \<le> 511"

lemma atoi_range: "- (2 ^ 31) \<le> atoi s" "atoi s < 2 ^ 31"
  by (simp_all add: atoi_def)

lemma config_apply_ok: "settings_ok (fst s) \<Longrightarrow> settings_ok (fst (config_apply n key val s))"
  using atoi_range [of val] by (cases s) (auto simp: config_apply_def settings_ok_def Let_def not_less)

lemma config_lines_ok: "settings_ok (fst s) \<Longrightarrow> settings_ok (fst (config_lines n bytes s))"
proof (induction n bytes s rule: config_lines.induct)
  case (1 n bytes s)
  then show ?case by (subst config_lines.simps) (auto simp: config_apply_ok split: option.splits prod.splits)
qed

lemma config_load_ok: "settings_ok (fst (config_load filename content))"
proof -
  have d: "settings_ok config_defaults" by (simp add: settings_ok_def config_defaults_def)
  then show ?thesis by (auto simp: config_load_def config_lines_ok split: option.splits)
qed

section \<open>Reading back a written file\<close>

lemma fgets_line: "NL \<notin> set l \<Longrightarrow> length l < n \<Longrightarrow> fgets_take n (l @ NL # rest) = (l @ [NL], rest)"
proof (induction l arbitrary: n)
  case Nil
  then show ?case by (cases n) simp_all
next
  case (Cons c l)
  then show ?case by (cases n) auto
qed

lemma drop_tail_id: "xs \<noteq> [] \<Longrightarrow> \<not> is_blank (hd xs) \<Longrightarrow> drop_tail xs = xs"
  by (cases xs rule: drop_tail.cases) auto

text \<open>Texts that trimming leaves alone.\<close>

definition trimmed_text :: "string \<Rightarrow> bool" where
  "trimmed_text s \<longleftrightarrow> s \<noteq> [] \<and> \<not> is_blank (hd s) \<and> \<not> is_blank (last s)"

lemma trim_id: "trimmed_text s \<Longrightarrow> trim_whitespace s = s"
proof -
  assume t: "trimmed_text s"
  then have "dropWhile is_blank s = s" by (cases s) (auto simp: trimmed_text_def)
  moreover have "drop_tail (rev s) = rev s" using t by (intro drop_tail_id) (auto simp: trimmed_text_def hd_rev)
  ultimately show ?thesis by (simp add: trim_whitespace_def)
qed

definition value_ok :: "string \<Rightarrow> bool" where
  "value_ok v \<longleftrightarrow> trimmed_text v \<and> EQ \<notin> set v \<and> NL \<notin> set v \<and> NUL \<notin> set v"

lemma strtok_first: "k \<noteq> [] \<Longrightarrow> d \<notin> set k \<Longrightarrow> strtok (k @ d # v) d = Some (k, v)"
proof -
  assume k: "k \<noteq> []" "d \<notin> set k"
  then have "dropWhile (\<lambda>c. c = d) (k @ d # v) = k @ d # v" by (cases k) auto
  moreover from k(2) have "takeWhile (\<lambda>c. c \<noteq> d) (k @ d # v) = k" "dropWhile (\<lambda>c. c \<noteq> d) (k @ d # v) = d # v"
    by (induction k) auto
  ultimately show ?thesis by (simp add: strtok_def)
qed

lemma strtok_last: "v \<noteq> [] \<Longrightarrow> d \<notin> set v \<Longrightarrow> strtok v d = Some (v, [])"
proof -
  assume v: "v \<noteq> []" "d \<notin> set v"
  then have a: "dropWhile (\<lambda>c. c = d) v = v" by (cases v) auto
  from v(2) have b: "takeWhile (\<lambda>c. c \<noteq> d) v = v" "dropWhile (\<lambda>c. c \<noteq> d) v = []" by (induction v) auto
  show ?thesis by (simp only: strtok_def Let_def a b) (simp add: v(1))
qed

lemma config_split_setting:
  assumes "value_ok k" "hd k \<noteq> CHR ''#''" "value_ok v"
  shows "config_split (k @ EQ # v @ [NL]) = Some (k, v)"
proof -
  have k: "trimmed_text k" "k \<noteq> []" "EQ \<notin> set k" "NUL \<notin> set k" and v: "trimmed_text v" "v \<noteq> []" "EQ \<notin> set v" "NUL \<notin> set v"
    using assms by (auto simp: value_ok_def trimmed_text_def)
  have c: "cstr (k @ EQ # v @ [NL]) = k @ EQ # v @ [NL]" using k v by (intro cstr_id) (auto simp: NUL_def)
  have b: "butlast (k @ EQ # v @ [NL]) = k @ EQ # v" by (simp add: butlast_append)
  have "trimmed_text (k @ EQ # v)" using k v by (simp add: trimmed_text_def)
  from trim_id [OF this] assms(2) k v show ?thesis
    by (simp add: config_split_def c b Let_def strtok_first strtok_last trim_id)
qed

lemma digit_chars: "d < 10 \<Longrightarrow> isdigit (digit_char d) \<and> of_char (digit_char d) = 48 + d"
  by (simp add: digit_char_def isdigit_def)

lemma dec_val_append: "list_all isdigit xs \<Longrightarrow> dec_val acc (xs @ ys) = dec_val (dec_val acc xs) ys"
  by (induction xs arbitrary: acc) auto

lemma show_nat_digits: "list_all isdigit (show_nat n) \<and> dec_val 0 (show_nat n) = n"
proof (induction n rule: show_nat.induct)
  case (1 n)
  show ?case
  proof (cases "n < 10")
    case True
    then show ?thesis using digit_chars [of n] by (subst (1 2) show_nat.simps) simp
  next
    case False
    have "n mod 10 < 10" by simp
    with False "1.IH" digit_chars [of "n mod 10"] show ?thesis
      by (subst (1 2) show_nat.simps) (simp add: dec_val_append)
  qed
qed

lemma digit_not: "isdigit c \<Longrightarrow> \<not> isspace c \<and> c \<notin> {CHR ''-'', CHR ''+'', EQ, NL, NUL, CHR '' '', CHR 0x09, CHR 0x0D}"
  by (auto simp: isdigit_def isspace_def NUL_def)

lemma show_nat_nonempty: "show_nat n \<noteq> []"
  by (subst show_nat.simps) simp

lemma show_nat_hd: "isdigit (hd (show_nat n))" "isdigit (last (show_nat n))"
  using show_nat_digits [of n] show_nat_nonempty [of n] by (auto simp: list_all_iff)

lemma strtol_show_nat: "n < 2 ^ 63 \<Longrightarrow> strtol (show_nat n) = int n"
proof -
  assume n: "n < 2 ^ 63"
  obtain c cs where s: "show_nat n = c # cs" using show_nat_nonempty by (cases "show_nat n") auto
  have c: "isdigit c" using show_nat_hd(1) [of n] s by simp
  have "dropWhile isspace (show_nat n) = show_nat n" using digit_not [OF c] by (simp add: s)
  moreover have "dec_val 0 (c # cs) = n" using show_nat_digits [of n, unfolded s] by blast
  ultimately show ?thesis using digit_not [OF c] s n by (simp add: strtol_def del: dec_val.simps)
qed

lemma atoi_show_nat: "n < 2 ^ 31 \<Longrightarrow> atoi (show_nat n) = int n"
  by (simp add: atoi_def strtol_show_nat)

lemma show_nat_value: "value_ok (show_nat n)"
proof -
  have "\<not> is_blank c" if "isdigit c" for c using digit_not [OF that] by (auto simp: is_blank_def)
  moreover have "\<not> isdigit EQ" "\<not> isdigit NL" "\<not> isdigit NUL" by (simp_all add: isdigit_def NUL_def)
  ultimately show ?thesis
    using show_nat_hd [of n] show_nat_digits [of n] show_nat_nonempty [of n]
    by (auto simp: value_ok_def trimmed_text_def list_all_iff)
qed

text \<open>A configuration file with one setting per line, comments and empty lines included.\<close>

datatype config_item = Comment string | Setting string string

fun item_text :: "config_item \<Rightarrow> string" where
  "item_text (Comment c) = (if c = [] then [NL] else CHR ''#'' # c @ [NL])"
| "item_text (Setting k v) = k @ EQ # v @ [NL]"

fun item_ok :: "config_item \<Rightarrow> bool" where
  "item_ok (Comment c) \<longleftrightarrow> NL \<notin> set c \<and> length c \<le> 253"
| "item_ok (Setting k v) \<longleftrightarrow> value_ok k \<and> hd k \<noteq> CHR ''#'' \<and> value_ok v \<and> length k + length v \<le> 253"

fun apply_items :: "nat \<Rightarrow> config_item list \<Rightarrow> server_config \<times> printed list \<Rightarrow> server_config \<times> printed list" where
  "apply_items n [] s = s"
| "apply_items n (Comment c # is) s = apply_items (n + 1) is s"
| "apply_items n (Setting k v # is) s = apply_items (n + 1) is (config_apply (n + 1) k v s)"

lemma drop_tail_snoc: "drop_tail (xs @ [y]) = (let d = dropWhile is_blank xs in d @ [y])"
proof (induction xs)
  case (Cons x xs)
  then show ?case by (cases xs) auto
qed simp

lemma trim_hash: "\<exists>y. trim_whitespace (CHR ''#'' # x) = CHR ''#'' # y"
  by (simp add: trim_whitespace_def is_blank_def drop_tail_snoc Let_def)

lemma config_split_comment: "NL \<notin> set c \<Longrightarrow> config_split (item_text (Comment c)) = None"
proof (cases "c = []")
  case True
  then show ?thesis by (simp add: config_split_def trim_whitespace_def cstr_def NUL_def)
next
  case False
  assume nl: "NL \<notin> set c"
  let ?l = "cstr (CHR ''#'' # c @ [NL])"
  define t where "t = (if ?l \<noteq> [] \<and> last ?l = NL then butlast ?l else ?l)"
  have "\<exists>x. t = CHR ''#'' # x"
    using False by (cases "cstr (c @ [NL])") (auto simp: t_def cstr_def NUL_def)
  then obtain x where x: "t = CHR ''#'' # x" ..
  have "hd (trim_whitespace t) = CHR ''#'' \<or> trim_whitespace t = []"
    using trim_hash [of x] by (auto simp: x)
  then show ?thesis using False by (auto simp: config_split_def Let_def t_def)
qed

lemma item_text_line:
  assumes "item_ok x"
  shows "\<exists>l. item_text x = l @ [NL] \<and> NL \<notin> set l \<and> length l < 255"
proof (cases x)
  case (Comment c)
  with assms show ?thesis by (cases "c = []") (auto intro!: exI [of _ "CHR ''#'' # c"])
next
  case (Setting k v)
  with assms show ?thesis by (intro exI [of _ "k @ EQ # v"]) (auto simp: value_ok_def)
qed

lemma config_lines_items:
  "list_all item_ok is \<Longrightarrow> config_lines n (concat (map item_text is)) s = apply_items n is s"
proof (induction "is" arbitrary: n s)
  case Nil
  then show ?case by (subst config_lines.simps) (simp add: fgets_def)
next
  case (Cons x "is")
  then have x: "item_ok x" and xs: "list_all item_ok is" by simp_all
  from item_text_line [OF x] obtain l where l: "item_text x = l @ [NL]" "NL \<notin> set l" "length l < 255" by blast
  have "fgets CONFIG_LINE_SIZE (concat (map item_text (x # is))) = Some (item_text x, concat (map item_text is))"
    using fgets_line [OF l(2,3), of "concat (map item_text is)"] by (simp add: fgets_def l(1))
  then have "config_lines n (concat (map item_text (x # is))) s = config_lines (n + 1) (concat (map item_text is))
      (case config_split (item_text x) of None \<Rightarrow> s | Some (key, val) \<Rightarrow> config_apply (n + 1) key val s)"
    by (subst config_lines.simps) simp
  also have "\<dots> = apply_items n (x # is) s"
    using x Cons.IH [OF xs] config_split_comment config_split_setting by (cases x) (auto simp del: item_text.simps simp: item_text.simps(2))
  finally show ?case .
qed

definition config_items :: "server_config \<Rightarrow> config_item list" where
  "config_items cfg =
     [Setting ''port'' (show_nat (nat (port cfg))), Setting ''server_root'' (server_root cfg),
      Setting ''num_threads'' (show_nat (nat (num_threads cfg))), Setting ''log_file'' (log_file cfg),
      Setting ''timeout_secs'' (show_nat (nat (timeout_secs cfg)))]"

lemma keys_distinct:
  "strneq 5 ''port'' ''port''" "\<not> strneq 5 ''server_root'' ''port''" "\<not> strneq 5 ''num_threads'' ''port''"
  "\<not> strneq 5 ''log_file'' ''port''" "\<not> strneq 5 ''timeout_secs'' ''port''" "strneq 12 ''server_root'' ''server_root''"
  "\<not> strneq 12 ''num_threads'' ''server_root''" "\<not> strneq 12 ''log_file'' ''server_root''" "\<not> strneq 12 ''timeout_secs'' ''server_root''"
  "strneq 12 ''num_threads'' ''num_threads''" "\<not> strneq 12 ''log_file'' ''num_threads''" "\<not> strneq 12 ''timeout_secs'' ''num_threads''"
  "strneq 9 ''log_file'' ''log_file''" "\<not> strneq 9 ''timeout_secs'' ''log_file''" "strneq 13 ''timeout_secs'' ''timeout_secs''"
  by (simp_all add: strneq_def NUL_def)

lemma key_values: "value_ok ''port''" "value_ok ''server_root''" "value_ok ''num_threads''" "value_ok ''log_file''" "value_ok ''timeout_secs''"
  by (simp_all add: value_ok_def trimmed_text_def is_blank_def NUL_def)

lemma config_items_apply:
  assumes "settings_ok cfg" "length (server_root cfg) \<le> 240" "length (log_file cfg) \<le> 240"
  shows "apply_items n (config_items cfg) (cfg0, []) = (cfg, [])"
proof -
  have n: "atoi (show_nat (nat (port cfg))) = port cfg" "atoi (show_nat (nat (num_threads cfg))) = num_threads cfg"
    "atoi (show_nat (nat (timeout_secs cfg))) = timeout_secs cfg"
    using assms(1) by (simp_all add: atoi_show_nat settings_ok_def nat_less_iff)
  have "apply_items n (config_items cfg) (cfg0, []) = (cfg0\<lparr>port := port cfg, server_root := server_root cfg,
      num_threads := num_threads cfg, log_file := log_file cfg, timeout_secs := timeout_secs cfg\<rparr>, [])"
    using assms by (simp add: config_items_def config_apply_def keys_distinct n settings_ok_def Let_def)
  also have "\<dots> = (cfg, [])" by (cases cfg, cases cfg0) simp
  finally show ?thesis .
qed

text \<open>Line numbers only appear in complaints.\<close>

lemma config_items_shift:
  assumes "settings_ok cfg" "length (server_root cfg) \<le> 240" "length (log_file cfg) \<le> 240"
  shows "apply_items n (map Comment cs @ config_items cfg) (cfg0, []) = (cfg, [])"
proof (induction cs arbitrary: n)
  case Nil
  show ?case using config_items_apply [OF assms] by simp
qed simp

section \<open>Properties\<close>

text \<open>C31. Whatever the configuration file holds, and if it cannot be opened, the settings that are loaded
  are usable: the port is between 1 and 65535, the number of threads between 1 and 128, the timeout
  positive, and both paths fit their arrays with a terminator.\<close>

theorem config_load_bounds:
  "1 \<le> port (fst (config_load filename content)) \<and> port (fst (config_load filename content)) \<le> 65535 \<and>
   1 \<le> num_threads (fst (config_load filename content)) \<and> num_threads (fst (config_load filename content)) \<le> 128 \<and>
   1 \<le> timeout_secs (fst (config_load filename content)) \<and> timeout_secs (fst (config_load filename content)) < 2 ^ 31 \<and>
   length (server_root (fst (config_load filename content))) < 512 \<and> length (log_file (fst (config_load filename content))) < 512"
  using config_load_ok [of filename content] by (auto simp: settings_ok_def)

text \<open>C30. Round trip: settings within these bounds, written one per line as \<open>key=value\<close>, are
  read back unchanged and without a complaint, provided the paths fit a line and have no equals sign, line
  break or surrounding blanks. Comment lines and empty lines before them make no difference.\<close>

theorem config_roundtrip:
  assumes "settings_ok cfg" "value_ok (server_root cfg)" "value_ok (log_file cfg)"
    and "length (server_root cfg) \<le> 240" "length (log_file cfg) \<le> 240" "\<forall>c \<in> set cs. NL \<notin> set c \<and> length c \<le> 253"
  shows "config_load filename (Some (concat (map (\<lambda>c. item_text (Comment c)) cs) @ concat (map item_text (config_items cfg)))) = (cfg, [])"
proof -
  let ?is = "map Comment cs @ config_items cfg"
  have len: "length (show_nat (nat x)) \<le> 10" if "x < 2 ^ 31" for x :: int
    using that by (intro show_nat_length) auto
  have "list_all item_ok (config_items cfg)"
    using assms(1-5) key_values show_nat_value len [of "port cfg"] len [of "num_threads cfg"] len [of "timeout_secs cfg"]
    by (auto simp: config_items_def settings_ok_def)
  then have "list_all item_ok ?is" using assms(6) by (auto simp: list_all_iff)
  from config_lines_items [OF this] have "config_load filename (Some (concat (map item_text ?is))) = apply_items 0 ?is (config_defaults, [])"
    by (simp add: config_load_def)
  also have "\<dots> = (cfg, [])" using config_items_shift [OF assms(1,4,5)] .
  finally show ?thesis by (simp add: comp_def)
qed

theorem config_roundtrip_witness:
  "config_load ''server.conf'' (Some (concat (map (\<lambda>c. item_text (Comment c)) ['' settings'', []]) @
     concat (map item_text (config_items (config_defaults\<lparr>port := 65535, num_threads := 128\<rparr>))))) =
   (config_defaults\<lparr>port := 65535, num_threads := 128\<rparr>, [])"
  by (rule config_roundtrip)
    (simp_all add: settings_ok_def config_defaults_def value_ok_def trimmed_text_def is_blank_def NUL_def)

text \<open>\<open>atoi\<close> keeps the low 32 bits of what it reads, so the range checks see a wrapped number: a port
  that is larger by a multiple of \<open>2 ^ 32\<close> is silently taken for the port it wraps to.\<close>

theorem wrapped_port_accepted:
  assumes "1 \<le> p" "p \<le> 65535" "k < 2 ^ 30"
  shows "config_load filename (Some (item_text (Setting ''port'' (show_nat (p + k * 2 ^ 32))))) = (config_defaults\<lparr>port := int p\<rparr>, [])"
proof -
  let ?v = "show_nat (p + k * 2 ^ 32)"
  have lt: "p + k * 2 ^ 32 < 2 ^ 63" using assms by simp
  then have "p + k * 2 ^ 32 < 10 ^ 19" by simp
  then have "length ?v \<le> 19" by (intro show_nat_length) simp_all
  then have ok: "list_all item_ok [Setting ''port'' ?v]" using key_values show_nat_value by simp
  have "strtol ?v = int (p + k * 2 ^ 32)" using lt by (rule strtol_show_nat)
  then have "atoi ?v = (int p + 2 ^ 31 + int k * 2 ^ 32) mod 2 ^ 32 - 2 ^ 31" by (simp add: atoi_def algebra_simps)
  also have "\<dots> = int p" using assms(2) by (subst mod_mult_self1) simp
  finally have "atoi ?v = int p" .
  with config_lines_items [OF ok, of 0 "(config_defaults, [])"] assms(1,2) show ?thesis
    by (simp add: config_load_def config_apply_def keys_distinct del: item_text.simps)
qed

theorem wrapped_port_accepted_witness:
  "config_load ''server.conf'' (Some (item_text (Setting ''port'' (show_nat 4294967376)))) = (config_defaults\<lparr>port := 80\<rparr>, [])"
  using wrapped_port_accepted [of 80 1 "''server.conf''"] by simp

end
