(* ===== verification/Server_Main.thy ===== *)
theory Server_Main
  imports Thread_Pool Config
begin

text \<open>
  The program of \<^verbatim>\<open>src/src/main.c\<close>: it reads the configuration, opens the log, starts the pool with the
  settings it read, sleeps until a signal asks it to stop, and takes everything down. The signals that
  arrive are a list; what the worker and monitor threads do in the meantime is a function on the
  state of the pool.
\<close>

datatype signal = SIGINT | SIGTERM | SIGPIPE

datatype pausing = Asked_To_Stop | Still_Paused | Killed

datatype main_end = Exited int | Still_Running | Killed_By_Signal | Crashed

record main_env =
  argv :: "string list"
  files :: "string \<Rightarrow> string option"
  log_opens :: bool
  clock :: string
  memory :: "bool \<times> bool"
  ephemeral :: pick_env
  machine0 :: machine
  threads :: "machine \<times> thread_pool \<Rightarrow> machine \<times> thread_pool"
  signals :: "signal list"

definition signal_handler :: "signal \<Rightarrow> bool \<Rightarrow> bool" where
  "signal_handler sig g_shutdown = True"

text \<open>The handlers installed; a signal without one has its default action.\<close>

definition setup_signal_handlers :: "signal \<rightharpoonup> (signal \<Rightarrow> bool \<Rightarrow> bool)" where
  "setup_signal_handlers = [SIGINT \<mapsto> signal_handler, SIGTERM \<mapsto> signal_handler]"

fun pause_loop :: "(signal \<rightharpoonup> (signal \<Rightarrow> bool \<Rightarrow> bool)) \<Rightarrow> signal list \<Rightarrow> bool \<Rightarrow> pausing" where
  "pause_loop hs [] g_shutdown = (if g_shutdown then Asked_To_Stop else Still_Paused)"
| "pause_loop hs (sig # sigs) g_shutdown =
     (if g_shutdown then Asked_To_Stop
      else case hs sig of None \<Rightarrow> Killed | Some h \<Rightarrow> pause_loop hs sigs (h sig g_shutdown))"

definition main_pool_config :: "server_config \<Rightarrow> pool_config" where
  "main_pool_config cfg =
     (let mx = (if 0 < num_threads cfg then num_threads cfg else DEFAULT_THREADS) in
      \<lparr>pc_port = port cfg, pc_doc_root = Some (server_root cfg), min_workers = 1, max_workers = mx,
       load_high = mx * 4, load_low = 1, tune_interval_ms = 200\<rparr>)"

definition failed_end :: "failure \<Rightarrow> main_end" where
  "failed_end x = (case x of Fault \<Rightarrow> Crashed | Exit n \<Rightarrow> Exited n)"

definition listening_msg :: "thread_pool \<Rightarrow> server_config \<Rightarrow> string" where
  "listening_msg p cfg = ''Server listening on port '' @ show_int (pool_port p) @ '' (max '' @ show_int (num_threads cfg) @ '' workers)''"

definition main_shutdown :: "string \<Rightarrow> machine \<times> thread_pool \<Rightarrow> logger \<Rightarrow> main_end \<times> machine \<times> logger" where
  "main_shutdown t s lg =
     (let (e, p) = s in
      case log_msg t ''INFO'' ''Shutting down'' lg of
        Inl x \<Rightarrow> (failed_end x, e, lg)
      | Inr lg \<Rightarrow>
          (case pool_destroy e (Some p) of
             None \<Rightarrow> (Crashed, e, lg)
           | Some e \<Rightarrow>
               (case log_close t lg of Inl x \<Rightarrow> (failed_end x, e, lg) | Inr lg \<Rightarrow> (Exited 0, e, lg))))"

definition main_serve :: "main_env \<Rightarrow> server_config \<Rightarrow> machine \<Rightarrow> thread_pool \<Rightarrow> logger \<Rightarrow> main_end \<times> machine \<times> logger" where
  "main_serve v cfg e p lg =
     (case log_msg (clock v) ''INFO'' (listening_msg p cfg) lg of
        Inl x \<Rightarrow> (failed_end x, e, lg)
      | Inr lg \<Rightarrow>
          (let (e, p) = threads v (e, p) in
           case pause_loop setup_signal_handlers (signals v) False of
             Still_Paused \<Rightarrow> (Still_Running, e, lg)
           | Killed \<Rightarrow> (Killed_By_Signal, e, lg)
           | Asked_To_Stop \<Rightarrow> main_shutdown (clock v) (e, p) lg))"

definition main_refused :: "string \<Rightarrow> machine \<Rightarrow> logger \<Rightarrow> main_end \<times> machine \<times> logger" where
  "main_refused t e lg =
     (case log_msg t ''ERROR'' ''Failed to start server pool'' lg of
        Inl x \<Rightarrow> (failed_end x, e, lg)
      | Inr lg \<Rightarrow> (case log_close t lg of Inl x \<Rightarrow> (failed_end x, e, lg) | Inr lg \<Rightarrow> (Exited 1, e, lg)))"

definition main :: "main_env \<Rightarrow> logger \<Rightarrow> (main_end \<times> machine \<times> logger) \<times> printed list" where
  "main v lg0 =
     (let conf = (case argv v of [] \<Rightarrow> ''server.conf'' | a # _ \<Rightarrow> a);
          (cfg, out) = config_load conf (files v conf) in
      case log_init (clock v) (log_file cfg) (log_opens v) lg0 of
        Inl x \<Rightarrow> ((failed_end x, machine0 v, lg0), out)
      | Inr lg \<Rightarrow>
          (let out = out @ config_print cfg in
           case pool_create (memory v) (ephemeral v) (machine0 v) (Some (main_pool_config cfg)) of
             None \<Rightarrow> ((Crashed, machine0 v, lg), out)
           | Some (e, None) \<Rightarrow> (main_refused (clock v) e lg, out)
           | Some (e, Some p) \<Rightarrow> (main_serve v cfg e p lg, out)))"

section \<open>Composition\<close>

definition log_line :: "string \<Rightarrow> string \<Rightarrow> string \<Rightarrow> string" where
  "log_line t level msg = ''['' @ t @ ''] ['' @ level @ '']'' @ msg @ [NL]"

lemma log_msg_open: "g_log_file lg = Some f \<Longrightarrow> log_msg t level msg lg = Inr (lg\<lparr>log_text := log_text lg @ log_line t level msg\<rparr>)"
  by (simp add: log_msg_def log_put_def log_line_def)

lemma log_close_open: "g_log_file lg = Some f \<Longrightarrow>
    log_close t lg = Inr (lg\<lparr>log_text := log_text lg @ log_line t ''INFO'' ''Server is shutting down'', g_log_file := None\<rparr>)"
  by (simp add: log_close_def log_msg_open)

text \<open>The settings that were loaded always make a configuration the pool accepts.\<close>

lemma main_pool_accepted:
  "pool_refused mem pk (Some (main_pool_config (fst (config_load f c)))) \<longleftrightarrow> mem \<noteq> (True, True)"
  using config_load_ok [of f c] by (auto simp: pool_refused_def main_pool_config_def config_ok_def settings_ok_def Let_def)

lemma main_shutdown_ok:
  assumes "pool_ok (e, p)" "g_log_file lg = Some f"
  shows "\<exists>e'. main_shutdown t (e, p) lg = (Exited 0, e', lg\<lparr>log_text := log_text lg @ log_line t ''INFO'' ''Shutting down'' @
      log_line t ''INFO'' ''Server is shutting down'', g_log_file := None\<rparr>) \<and> live e' = Map.empty"
  using pool_destroy_ok [OF assms(1)] assms(2) by (auto simp: main_shutdown_def log_msg_open log_close_open)

lemma stop_signal: "sig \<in> {SIGINT, SIGTERM} \<Longrightarrow> pause_loop setup_signal_handlers (sig # sigs) False = Asked_To_Stop"
  by (cases sigs) (auto simp: setup_signal_handlers_def signal_handler_def)

end
