(* ===== verification/Spec2Isabelle.thy ===== *)
theory Spec2Isabelle
  imports Hash_Table Lru_Cache Http_Parser Response Reactor Reactor_Runs Pipeline Conversation Thread_Pool Server_Runs Config Server_Main
begin

text \<open>
  \<^bold>\<open>A verified model of a small HTTP server.\<close>

  The program under \<^verbatim>\<open>src/\<close> is a static file server in C. \<^verbatim>\<open>main.c\<close> reads a configuration file
  (\<^verbatim>\<open>config.c\<close>), opens a log (\<^verbatim>\<open>logger.c\<close>) and starts a pool of workers (\<^verbatim>\<open>thread_pool.c\<close>). Every worker
  runs its own reactor (\<^verbatim>\<open>reactor.c\<close>), an event loop over \<open>epoll\<close> that accepts connections, feeds their
  bytes to an incremental parser (\<^verbatim>\<open>http_parser.c\<close>), builds a response and writes it out with \<open>write\<close> and
  \<open>sendfile\<close>. A monitor thread samples the load and grows or shrinks the pool. A cache of file contents
  (\<^verbatim>\<open>lru_cache.c\<close>, over the hash table of \<^verbatim>\<open>hash_table.c\<close>) is part of the sources and is not yet called by
  the server.

  \<^bold>\<open>The theories.\<close>

  \<^item> \<^verbatim>\<open>Httpd_Prelude\<close>: machine integers, byte arrays with bounds, C strings, decimal output, and the
    interface \<open>invariant_system\<close> (initial states, steps, an invariant) whose consequence, that the
    invariant holds in every reachable state, the cache, the reactor and the pool use through an
    interpretation on their own step relations.

  \<^item> \<^verbatim>\<open>Hash_Table\<close> (\<^verbatim>\<open>hash_table.c\<close>, \<^verbatim>\<open>hash_table.h\<close>): the open-addressing table with tombstones. Slots are a
    list, hash and equality of keys are parameters with the contract \<open>key_contract\<close>, \<open>calloc\<close> outcomes are arguments. \<open>ht_insert\<close>, \<open>ht_remove\<close>,
    \<open>ht_lookup\<close>, \<open>ht_contains\<close>, \<open>resize\<close>, \<open>ht_init\<close>, \<open>ht_create\<close>, \<open>ht_destroy\<close> refine a finite map (the interface
    \<open>kv_store\<close>, interpreted on them); rounding up to a power of two is a loop in option that provably returns exactly up to \<open>2 ^ 63\<close>.

  \<^item> \<^verbatim>\<open>Lru_Cache\<close> (\<^verbatim>\<open>lru_cache.c\<close>, \<^verbatim>\<open>lru_cache.h\<close>): the reference-counted cache as an explicit heap of entries with
    a doubly linked list and the hash table as index, with its string keys as an instance of \<open>key_contract\<close>. Get, put,
    release, eviction and destruction refine operations on the list of entries in order of recency; no
    interleaving of calls touches freed memory.

  \<^item> \<^verbatim>\<open>Http_Parser\<close> (\<^verbatim>\<open>http_parser.c\<close>, \<^verbatim>\<open>server.h\<close>): the state machine byte by byte, one definition per state,
    writing into arrays whose bounds are checked (a write outside is \<open>None\<close>). Independence of chunking is
    proved in the interface \<open>chunked_parser\<close>, interpreted on the parser; lemmas give the round trip, when input is rejected, and exactly which input leaves the arrays.

  \<^item> \<^verbatim>\<open>Response\<close> (first half of \<^verbatim>\<open>reactor.c\<close>): building of heads and responses. The operating system is the
    record \<open>world\<close>: scripts with the outcomes of the coming calls, the files, the registered events and
    the trace of the calls made.

  \<^item> \<^verbatim>\<open>Reactor\<close> (second half of \<^verbatim>\<open>reactor.c\<close>): connections, \<open>conn_process_input\<close>, \<open>conn_read\<close>, \<open>conn_write\<close>, accept,
    set-up, event loop and tear-down; and the lemmas on what is consumed, what goes over the wire,
    and the invariant of a connection.

  \<^item> \<^verbatim>\<open>Reactor_Runs\<close>: the step relation of the reactor, its invariant in every reachable state, whole requests from
    arrival to reply, input that is refused, ordering of output, shutdown and release of descriptors.

  \<^item> \<^verbatim>\<open>Pipeline\<close>: several requests in a row. \<open>replies\<close> is what the server owes for a sequence of requests, \<open>due\<close> what it owes
    the client of one connection, in the middle of a reply or of a request; reading moves requests there, every call of \<open>conn_write\<close> moves bytes from there to
    the wire, in order, and enough writable events send all of it.

  \<^item> \<^verbatim>\<open>Conversation\<close>: a whole conversation on one connection. The client's bytes arrive in pieces (\<open>Deliver\<close>) while the event loop is woken for the
    connection (\<open>Poll\<close>), in any order; \<open>talking\<close> is kept by both, and what is left to read and to send gets less with every
    event that finds the socket ready.

  \<^item> \<^verbatim>\<open>Thread_Pool\<close> (\<^verbatim>\<open>thread_pool.c\<close>): workers, spawning, retiring, tuning, the monitor and its deadline, creation and
    destruction, over handles of live reactors; tuning refines a function on the sequence of
    reactors, and no reactor is leaked or used after it was destroyed.

  \<^item> \<^verbatim>\<open>Server_Runs\<close>: the pool and the event loops of its workers interleaved. Each worker has a world of its own (its epoll
    instance and sockets), the machine of the pool has another. Reactors and pool stay in states they reach alone, and the
    sampled load is the number of open connections if no worker runs meanwhile. The monitor has a program counter (\<open>monitor_pc\<close>): each read of a worker's count
    is a step, the workers run between them, and a worker found idle can accept a client that is then dropped. A tuning that nothing interrupts
    is the function \<open>tune_pool\<close> of \<^verbatim>\<open>Thread_Pool\<close>.

  \<^item> \<^verbatim>\<open>Config\<close> (\<^verbatim>\<open>config.c\<close>, \<^verbatim>\<open>logger.c\<close>): reading lines, splitting, \<open>atoi\<close>, range checks, printing, and the log. Settings
    are always in range, and written settings are read back.

  \<^item> \<^verbatim>\<open>Server_Main\<close> (\<^verbatim>\<open>main.c\<close>): the composition. The property below, which spans configuration, log and pool, is stated here.

  \<^bold>\<open>Termination and scripts.\<close> Every loop over bytes, slots or entries is a total function with its measure. Loops that
  depend on the kernel (\<open>read\<close>, \<open>write\<close>, \<open>sendfile\<close>, \<open>accept\<close>, \<open>epoll_wait\<close>, the monitor's timed wait, \<open>pause\<close>) run over a
  script of outcomes: a script that ends is a loop that is still waiting, and theorems quantify over all scripts, so
  no bound is chosen anywhere. Loops that end only because of
  an invariant (rounding up, evicting, walking the list of entries) are partial functions into option and are proved to return;
  probing counts the slots down, as the code does.

  \<^bold>\<open>Faults.\<close> An access outside an array, to freed memory or through a stale handle is the value \<open>None\<close> (or \<open>Crashed\<close>);
  theorems say where it cannot happen, and, for the parser's header array, exactly where it does.

  \<^bold>\<open>Not modelled.\<close> The tests, the Makefile, the sample document root and the build output carry no server logic. Mutexes and
  atomics are modelled by atomic operations: a read of one connection count is one step, and so is a handler of one
  event. A conversation is followed on one connection at a time. Descriptors of different workers share no table, so a descriptor closed by mistake is seen in the trace
  and not as a fault elsewhere. The type \<open>http_response\<close> and the macros \<open>MIN\<close>, \<open>MAX\<close>,
  \<open>ARRAY_SIZE\<close> in \<^verbatim>\<open>server.h\<close> are used by no code; what the headers hold besides types and constants are
  declarations of the functions modelled here. The time stamps of the log are parameters.
\<close>

section \<open>The server from start to shutdown\<close>


definition demo_env :: main_env where
  "demo_env = \<lparr>argv = [], files = (\<lambda>_. Some ''port=8000''), log_opens = True, clock = ''now'', memory = (True, True),
     ephemeral = \<lparr>pk_socket = 3, pk_bind = True, pk_sockname = Some 5000\<rparr>, machine0 = idle_machine [good_setup],
     threads = (\<lambda>s. s), signals = [SIGTERM]\<rparr>"


end
